theory Spec2Isabelle
  imports Complex_Main "HOL-Library.Char_ord" "HOL-Library.List_Lexorder"
    "HOL-Library.Product_Lexorder"
begin

chapter \<open>MikroScope: a shallow embedding of the indexing, query, ingest and alerting code\<close>

section \<open>JSON values and the JavaScript runtime\<close>

text \<open>
  A string is the list of the bytes of its UTF-8 text: text columns then compare byte by
  byte, as SQLite's \<^verbatim>\<open>BINARY\<close> collation does, and \<^verbatim>\<open>Buffer.byteLength\<close> of a decoded
  chunk is the length of the list. A parsed JSON value: a number is the rational its double
  denotes; an object is the list of its own properties in enumeration order, each key once
  (what \<^verbatim>\<open>JSON.parse\<close> builds).
\<close>

datatype json =
    JNull
  | JBool bool
  | JNum rat
  | JStr string
  | JArr "json list"
  | JObj "(string \<times> json) list"

text \<open>
  The library functions of the runtime that the code calls and this development does not
  define: \<^verbatim>\<open>JSON.parse\<close> (\<open>None\<close> for a \<^verbatim>\<open>SyntaxError\<close>), \<^verbatim>\<open>JSON.stringify\<close>,
  \<^verbatim>\<open>String(n)\<close> for a number, the clock (\<open>current_time f n\<close> is the ISO string
  \<^verbatim>\<open>new Date().toISOString()\<close> returns while line \<open>n\<close> of source file \<open>f\<close> is processed),
  \<^verbatim>\<open>String.prototype.trim\<close>, \<^verbatim>\<open>toLowerCase\<close> and \<^verbatim>\<open>toUpperCase\<close>, which follow the
  Unicode tables, the decoding of bytes as UTF-8 that a read stream with
  \<^verbatim>\<open>encoding: "utf8"\<close> and \<^verbatim>\<open>Buffer.toString("utf8")\<close> perform (\<open>utf8_decode\<close>: all of the
  text delivered for the bytes, with U+FFFD in place of what is not well formed), and the
  characters that \<^verbatim>\<open>Object.entries\<close> enumerates for a string (\<open>code_units\<close>).
\<close>

record runtime =
  json_parse :: "string \<Rightarrow> json option"
  json_stringify :: "json \<Rightarrow> string"
  number_to_string :: "rat \<Rightarrow> string"
  current_time :: "string \<Rightarrow> int \<Rightarrow> string"
  trim :: "string \<Rightarrow> string"
  toLowerCase :: "string \<Rightarrow> string"
  toUpperCase :: "string \<Rightarrow> string"
  utf8_decode :: "string \<Rightarrow> string"
  code_units :: "string \<Rightarrow> string list"

text \<open>
  Reading a property of a parsed value, \<^verbatim>\<open>record.key\<close>: a \<^verbatim>\<open>TypeError\<close> on \<^verbatim>\<open>null\<close>
  (\<open>None\<close> here), \<^verbatim>\<open>undefined\<close> (\<open>Some None\<close>) for a key the object does not have and for
  the keys the code reads (\<^verbatim>\<open>timestamp\<close>, \<^verbatim>\<open>level\<close>, \<^verbatim>\<open>event\<close>, \<^verbatim>\<open>message\<close>,
  \<^verbatim>\<open>audit\<close>) on a number, boolean, string or array.
\<close>

fun get_prop :: "json \<Rightarrow> string \<Rightarrow> json option option" where
  "get_prop JNull key = None"
| "get_prop (JObj props) key = Some (map_of props key)"
| "get_prop _ key = Some None"

text \<open>The property of a value that is not \<^verbatim>\<open>null\<close>.\<close>

definition property :: "json \<Rightarrow> string \<Rightarrow> json option" where
  "property record key = (case get_prop record key of Some v \<Rightarrow> v | None \<Rightarrow> None)"

text \<open>
  The string functions of the library on ASCII text, for the runtimes of the examples
  below, whose strings are all ASCII: the case conversions change the 26 letters,
  \<^verbatim>\<open>trim\<close> strips the six ASCII white space and line terminator characters, decoding
  leaves the bytes as they are, and every byte is a character.
\<close>

definition upper_char :: "char \<Rightarrow> char" where
  "upper_char c =
     (if CHR ''a'' \<le> c \<and> c \<le> CHR ''z'' then char_of (of_char c - (32::nat)) else c)"

definition lower_char :: "char \<Rightarrow> char" where
  "lower_char c =
     (if CHR ''A'' \<le> c \<and> c \<le> CHR ''Z'' then char_of (of_char c + (32::nat)) else c)"

definition ascii_toUpperCase :: "string \<Rightarrow> string" where
  "ascii_toUpperCase s = map upper_char s"

definition ascii_toLowerCase :: "string \<Rightarrow> string" where
  "ascii_toLowerCase s = map lower_char s"

definition isWhiteSpace :: "char \<Rightarrow> bool" where
  "isWhiteSpace c \<longleftrightarrow> c \<in> set [CHR 0x09, CHR 0x0A, CHR 0x0B, CHR 0x0C, CHR 0x0D, CHR 0x20]"

definition ascii_trim :: "string \<Rightarrow> string" where
  "ascii_trim s = rev (dropWhile isWhiteSpace (rev (dropWhile isWhiteSpace s)))"

definition ascii_code_units :: "string \<Rightarrow> string list" where
  "ascii_code_units s = map (\<lambda>c. [c]) s"

text \<open>
  The runtime of the examples, given its \<^verbatim>\<open>JSON.parse\<close>, \<^verbatim>\<open>JSON.stringify\<close>,
  \<^verbatim>\<open>String(n)\<close> and clock.
\<close>

definition ascii_runtime ::
  "(string \<Rightarrow> json option) \<Rightarrow> (json \<Rightarrow> string) \<Rightarrow> (rat \<Rightarrow> string) \<Rightarrow> (string \<Rightarrow> int \<Rightarrow> string)
    \<Rightarrow> runtime"
where
  "ascii_runtime parse stringify numberToString clock =
     \<lparr>json_parse = parse, json_stringify = stringify, number_to_string = numberToString,
      current_time = clock, trim = ascii_trim, toLowerCase = ascii_toLowerCase,
      toUpperCase = ascii_toUpperCase, utf8_decode = (\<lambda>bytes. bytes),
      code_units = ascii_code_units\<rparr>"

text \<open>\<^verbatim>\<open>s.startsWith(sub)\<close> and \<^verbatim>\<open>s.includes(sub)\<close>.\<close>

definition startsWith :: "string \<Rightarrow> string \<Rightarrow> bool" where
  "startsWith s sub \<longleftrightarrow> take (length sub) s = sub"

fun includes_str :: "string \<Rightarrow> string \<Rightarrow> bool" where
  "includes_str [] sub = (sub = [])"
| "includes_str (c # cs) sub = (startsWith (c # cs) sub \<or> includes_str cs sub)"

text \<open>\<^verbatim>\<open>path.sep\<close> and \<^verbatim>\<open>path.basename\<close> of a POSIX system.\<close>

definition sep :: string where
  "sep = ''/''"

definition basename :: "string \<Rightarrow> string" where
  "basename p =
     rev (takeWhile (\<lambda>c. c \<noteq> CHR ''/'') (dropWhile (\<lambda>c. c = CHR ''/'') (rev p)))"

text \<open>\<^verbatim>\<open>Math.round\<close>: the nearest integer, a tie going upwards.\<close>

definition js_round :: "rat \<Rightarrow> int" where
  "js_round x = \<lfloor>x + 1 / 2\<rfloor>"

text \<open>\<^verbatim>\<open>Math.trunc\<close>, which \<^verbatim>\<open>new Date(x)\<close> also applies to its argument: the fraction is dropped, towards zero.\<close>

definition js_trunc :: "rat \<Rightarrow> int" where
  "js_trunc x = (if x \<ge> 0 then \<lfloor>x\<rfloor> else \<lceil>x\<rceil>)"

section \<open>Normalising a parsed record (infrastructure/indexing/LogIndexer.ts)\<close>

text \<open>
  The arguments are what \<^verbatim>\<open>record.key\<close> evaluated to: \<open>None\<close> is \<^verbatim>\<open>undefined\<close>.
\<close>

definition isScalar :: "json option \<Rightarrow> bool" where
  "isScalar v =
     (case v of
        Some JNull \<Rightarrow> True
      | Some (JStr _) \<Rightarrow> True
      | Some (JNum _) \<Rightarrow> True
      | Some (JBool _) \<Rightarrow> True
      | _ \<Rightarrow> False)"

definition normalizeMessage :: "runtime \<Rightarrow> json option \<Rightarrow> string" where
  "normalizeMessage rt v =
     (case v of
        Some (JStr s) \<Rightarrow> s
      | None \<Rightarrow> []
      | Some JNull \<Rightarrow> []
      | Some other \<Rightarrow> json_stringify rt other)"

text \<open>\<open>now\<close> is what \<^verbatim>\<open>new Date().toISOString()\<close> returns at this call.\<close>

definition normalizeTimestamp :: "string \<Rightarrow> json option \<Rightarrow> string" where
  "normalizeTimestamp now v =
     (case v of
        Some (JStr s) \<Rightarrow> if length s > 0 then s else now
      | _ \<Rightarrow> now)"

definition normalizeLevel :: "runtime \<Rightarrow> json option \<Rightarrow> string" where
  "normalizeLevel rt v =
     (case v of
        Some (JStr s) \<Rightarrow> if length s > 0 then toUpperCase rt s else ''INFO''
      | _ \<Rightarrow> ''INFO'')"

definition nonEmptyString :: "json option \<Rightarrow> string option" where
  "nonEmptyString v =
     (case v of
        Some (JStr s) \<Rightarrow> if length s > 0 then Some s else None
      | _ \<Rightarrow> None)"

definition normalizeEvent :: "json \<Rightarrow> string" where
  "normalizeEvent record =
     (case nonEmptyString (property record ''event'') of
        Some e \<Rightarrow> e
      | None \<Rightarrow>
          (case nonEmptyString (property record ''message'') of
             Some m \<Rightarrow> m
           | None \<Rightarrow> ''log.event''))"

definition normalizeAudit :: "runtime \<Rightarrow> json \<Rightarrow> string \<Rightarrow> bool" where
  "normalizeAudit rt record filePath =
     (let pathRule = includes_str (toLowerCase rt filePath) (sep @ ''audit'' @ sep)
      in case property record ''audit'' of
           Some (JBool b) \<Rightarrow> b
         | Some (JNum n) \<Rightarrow> n \<noteq> 0
         | Some (JStr s) \<Rightarrow>
             (let normalized = toLowerCase rt (trim rt s)
              in if normalized = ''true'' \<or> normalized = ''1'' \<or> normalized = ''yes'' then True
                 else if normalized = ''false'' \<or> normalized = ''0'' \<or> normalized = ''no'' then False
                 else pathRule)
         | _ \<Rightarrow> pathRule)"

text \<open>
  \<^verbatim>\<open>isAuditLogFile\<close> of server.ts, which classifies the raw files for retention.
\<close>

definition isAuditLogFile :: "runtime \<Rightarrow> string \<Rightarrow> bool" where
  "isAuditLogFile rt filePath =
     (let normalizedPath = toLowerCase rt filePath
      in if includes_str normalizedPath (sep @ ''audit'' @ sep) then True
         else includes_str (basename normalizedPath) ''audit'')"

text \<open>
  The derivation of \<^verbatim>\<open>is_audit\<close> as the specification words it, to compare with
  \<^verbatim>\<open>normalizeAudit\<close>: an explicit boolean or stringified boolean in the record wins;
  otherwise the flag is true exactly when the path has a segment \<^verbatim>\<open>audit\<close> or the
  basename contains \<^verbatim>\<open>audit\<close>, ignoring case. A stringified boolean is read as
  generously as the code reads one.
\<close>

definition spec_is_audit :: "runtime \<Rightarrow> json \<Rightarrow> string \<Rightarrow> bool" where
  "spec_is_audit rt record filePath =
     (let pathRule =
            (includes_str (toLowerCase rt filePath) (sep @ ''audit'' @ sep)
             \<or> includes_str (basename (toLowerCase rt filePath)) ''audit'')
      in case property record ''audit'' of
           Some (JBool b) \<Rightarrow> b
         | Some (JStr s) \<Rightarrow>
             (let normalized = toLowerCase rt (trim rt s)
              in if normalized = ''true'' \<or> normalized = ''1'' \<or> normalized = ''yes'' then True
                 else if normalized = ''false'' \<or> normalized = ''0'' \<or> normalized = ''no'' then False
                 else pathRule)
         | _ \<Rightarrow> pathRule)"


text \<open>A runtime with a fixed clock, whose \<^verbatim>\<open>JSON.stringify\<close> renders the number 7.\<close>

definition example_clock_runtime :: runtime where
  "example_clock_runtime =
     ascii_runtime (\<lambda>s. None) (\<lambda>v. ''7'') (\<lambda>n. ''7'') (\<lambda>f n. ''2024-05-01T10:00:00.000Z'')"

section \<open>The index store (infrastructure/persistence/LogDatabase.ts)\<close>

text \<open>
  The four text columns that an upsert input, a stored row and a returned entry share.
\<close>

record LogContent =
  timestamp :: string
  level :: string
  event :: string
  message :: string

text \<open>With the place a line was read from, which an upsert input and a returned entry share.\<close>

record LogLocated = LogContent +
  sourceFile :: string
  lineNumber :: nat

record UpsertEntryInput = LogLocated +
  isAudit :: bool
  dataJson :: string

record UpsertEntryResult =
  entryId :: int
  inserted :: bool

text \<open>
  A row of \<^verbatim>\<open>log_entries\<close>. The primary key \<^verbatim>\<open>id\<close> is \<open>row_id\<close> here; the column
  \<^verbatim>\<open>indexed_at\<close>, which no statement of the code reads, is left out.
\<close>

record LogEntryRow = LogContent +
  row_id :: int
  is_audit :: bool
  data_json :: string
  source_file :: string
  line_number :: nat

text \<open>
  The two tables, rows in insertion order, and the counter that \<^verbatim>\<open>AUTOINCREMENT\<close>
  keeps in \<^verbatim>\<open>sqlite_sequence\<close>: the largest id an insert into \<^verbatim>\<open>log_entries\<close> ever
  drew. A row of \<^verbatim>\<open>log_fields\<close> is \<open>(entry_id, key, value_text)\<close>.
\<close>

record LogDatabase =
  log_entries :: "LogEntryRow list"
  log_fields :: "(int \<times> string \<times> string) list"
  sqlite_sequence :: int

definition empty_database :: LogDatabase where
  "empty_database = \<lparr>log_entries = [], log_fields = [], sqlite_sequence = 0\<rparr>"

datatype index_error = TypeError | MissingExistingEntry | SyntaxError

text \<open>\<^verbatim>\<open>SELECT id FROM log_entries WHERE source_file = ? AND line_number = ?\<close>\<close>

definition selectExisting :: "LogDatabase \<Rightarrow> string \<Rightarrow> nat \<Rightarrow> LogEntryRow option" where
  "selectExisting db sf lineNo =
     find (\<lambda>row. source_file row = sf \<and> line_number row = lineNo) (log_entries db)"

text \<open>
  The id \<^verbatim>\<open>AUTOINCREMENT\<close> draws for an insert: one more than the counter and than
  every id in the table.
\<close>

definition nextRowId :: "LogDatabase \<Rightarrow> int" where
  "nextRowId db = fold max (map row_id (log_entries db)) (sqlite_sequence db) + 1"

text \<open>
  \<^verbatim>\<open>INSERT OR IGNORE\<close> adds a row exactly when no row has the same
  \<open>(source_file, line_number)\<close>; otherwise the existing row's id is read back. Either
  way the statement draws the next id, and the counter of \<^verbatim>\<open>AUTOINCREMENT\<close> keeps it:
  an ignored insert leaves the rows as they are and the counter one higher.
\<close>

definition upsertEntry ::
  "LogDatabase \<Rightarrow> UpsertEntryInput \<Rightarrow> index_error + (LogDatabase \<times> UpsertEntryResult)"
where
  "upsertEntry db input =
     (if selectExisting db (sourceFile input) (lineNumber input) = None then
        (let newId = nextRowId db;
             row = \<lparr>timestamp = timestamp input, level = level input, event = event input,
                    message = message input, row_id = newId, is_audit = isAudit input,
                    data_json = dataJson input, source_file = sourceFile input,
                    line_number = lineNumber input\<rparr>
         in Inr (db\<lparr>log_entries := log_entries db @ [row], sqlite_sequence := newId\<rparr>,
                 \<lparr>entryId = newId, inserted = True\<rparr>))
      else
        (case selectExisting db (sourceFile input) (lineNumber input) of
           None \<Rightarrow> Inl MissingExistingEntry
         | Some existing \<Rightarrow>
             Inr (db\<lparr>sqlite_sequence := nextRowId db\<rparr>,
                  \<lparr>entryId = row_id existing, inserted = False\<rparr>)))"

definition upsertField :: "LogDatabase \<Rightarrow> int \<Rightarrow> string \<Rightarrow> string \<Rightarrow> LogDatabase" where
  "upsertField db eid key val =
     (if (eid, key, val) \<in> set (log_fields db) then db
      else db\<lparr>log_fields := log_fields db @ [(eid, key, val)]\<rparr>)"

record DeleteBySourceFileResult =
  entriesDeleted :: nat
  fieldsDeleted :: nat
  deletedSourceFile :: string

definition deleteEntriesForSourceFile ::
  "LogDatabase \<Rightarrow> string \<Rightarrow> LogDatabase \<times> DeleteBySourceFileResult"
where
  "deleteEntriesForSourceFile db sf =
     (let ids = map row_id (filter (\<lambda>row. source_file row = sf) (log_entries db));
          keptFields = filter (\<lambda>(eid, key, val). eid \<notin> set ids) (log_fields db);
          keptEntries = filter (\<lambda>row. source_file row \<noteq> sf) (log_entries db)
      in (db\<lparr>log_fields := keptFields, log_entries := keptEntries\<rparr>,
          \<lparr>entriesDeleted = length (log_entries db) - length keptEntries,
           fieldsDeleted = length (log_fields db) - length keptFields,
           deletedSourceFile = sf\<rparr>))"

section \<open>The indexer (infrastructure/indexing/LogIndexer.ts)\<close>

datatype index_mode = Full | Incremental

record IndexReport =
  filesScanned :: nat
  linesScanned :: nat
  recordsInserted :: nat
  recordsSkipped :: nat
  parseErrors :: nat
  startedAt :: string
  finishedAt :: string
  mode :: index_mode

definition createReport :: "index_mode \<Rightarrow> string \<Rightarrow> IndexReport" where
  "createReport m started =
     \<lparr>filesScanned = 0, linesScanned = 0, recordsInserted = 0, recordsSkipped = 0,
      parseErrors = 0, startedAt = started, finishedAt = [], mode = m\<rparr>"

text \<open>The store and the report that a pass updates as it goes.\<close>

record index_state =
  st_db :: LogDatabase
  st_report :: IndexReport

text \<open>Decimal digits of an array index, for the keys of \<^verbatim>\<open>Object.entries\<close>.\<close>

fun show_nat :: "nat \<Rightarrow> string" where
  "show_nat n =
     (if n < 10 then [char_of (48 + n)]
      else show_nat (n div 10) @ [char_of (48 + n mod 10)])"

declare show_nat.simps [simp del]

text \<open>
  \<^verbatim>\<open>Object.entries(record)\<close> of a parsed value that is not \<^verbatim>\<open>null\<close>: the properties of
  an object, the indexed elements of an array, the indexed characters of a string, and
  nothing for a number or a boolean.
\<close>

definition objectEntries :: "runtime \<Rightarrow> json \<Rightarrow> (string \<times> json) list" where
  "objectEntries rt record =
     (case record of
        JObj props \<Rightarrow> props
      | JArr xs \<Rightarrow> zip (map show_nat [0..<length xs]) xs
      | JStr s \<Rightarrow> zip (map show_nat [0..<length (code_units rt s)]) (map JStr (code_units rt s))
      | _ \<Rightarrow> [])"

text \<open>\<^verbatim>\<open>String(value)\<close> of a scalar.\<close>

definition scalarToString :: "runtime \<Rightarrow> json \<Rightarrow> string" where
  "scalarToString rt v =
     (case v of
        JStr s \<Rightarrow> s
      | JNum n \<Rightarrow> number_to_string rt n
      | JBool b \<Rightarrow> (if b then ''true'' else ''false'')
      | JNull \<Rightarrow> ''null''
      | _ \<Rightarrow> [])"

text \<open>The object literal that \<^verbatim>\<open>processLine\<close> passes to \<^verbatim>\<open>upsertEntry\<close>.\<close>

definition entryInput ::
  "runtime \<Rightarrow> string \<Rightarrow> string \<Rightarrow> nat \<Rightarrow> json \<Rightarrow> UpsertEntryInput"
where
  "entryInput rt filePath sf lineNo record =
     \<lparr>timestamp = normalizeTimestamp (current_time rt sf (int lineNo)) (property record ''timestamp''),
      level = normalizeLevel rt (property record ''level''),
      event = normalizeEvent record,
      message = normalizeMessage rt (property record ''message''),
      sourceFile = sf,
      lineNumber = lineNo,
      isAudit = normalizeAudit rt record filePath,
      dataJson = json_stringify rt record\<rparr>"

text \<open>The loop over \<^verbatim>\<open>Object.entries(record)\<close> that stores the scalar fields.\<close>

definition upsertFields :: "runtime \<Rightarrow> int \<Rightarrow> json \<Rightarrow> LogDatabase \<Rightarrow> LogDatabase" where
  "upsertFields rt eid record d =
     fold (\<lambda>(key, v) acc. if isScalar (Some v) then upsertField acc eid key (scalarToString rt v)
                           else acc)
       (objectEntries rt record) d"

text \<open>
  \<^verbatim>\<open>processLine\<close>. Reading \<^verbatim>\<open>record.timestamp\<close> is the first thing done with the parsed
  value, outside the \<^verbatim>\<open>try\<close>: on \<^verbatim>\<open>null\<close> it throws a \<^verbatim>\<open>TypeError\<close>.
\<close>

definition processLine ::
  "runtime \<Rightarrow> string \<Rightarrow> string \<Rightarrow> string \<Rightarrow> nat \<Rightarrow> index_state \<Rightarrow> index_error + index_state"
where
  "processLine rt filePath sf line lineNo st =
     (let trimmed = trim rt line in
      if trimmed = [] then Inr st
      else
        (case json_parse rt trimmed of
           None \<Rightarrow> Inr (st\<lparr>st_report := (st_report st)\<lparr>parseErrors := parseErrors (st_report st) + 1\<rparr>\<rparr>)
         | Some record \<Rightarrow>
             (case get_prop record ''timestamp'' of
                None \<Rightarrow> Inl TypeError
              | Some _ \<Rightarrow>
                  (case upsertEntry (st_db st) (entryInput rt filePath sf lineNo record) of
                     Inl e \<Rightarrow> Inl e
                   | Inr (db1, upsertResult) \<Rightarrow>
                       if \<not> inserted upsertResult then
                         Inr (st\<lparr>st_db := db1,
                                 st_report := (st_report st)\<lparr>recordsSkipped := recordsSkipped (st_report st) + 1\<rparr>\<rparr>)
                       else
                         Inr (st\<lparr>st_db := upsertFields rt (entryId upsertResult) record db1,
                                 st_report := (st_report st)\<lparr>recordsInserted := recordsInserted (st_report st) + 1\<rparr>\<rparr>)))))"

text \<open>
  The lines \<^verbatim>\<open>readline\<close> delivers for a stream (\<^verbatim>\<open>crlfDelay: Infinity\<close>): a line ends
  at LF, CR LF or CR, and the characters after the last terminator are a line when there
  are any.
\<close>

fun splitLines :: "string \<Rightarrow> string \<Rightarrow> string list" where
  "splitLines [] cur = (if cur = [] then [] else [rev cur])"
| "splitLines (c # cs) cur =
     (if c = CHR 0x0A then rev cur # splitLines cs []
      else if c = CHR 0x0D then
        (case cs of
           [] \<Rightarrow> [rev cur]
         | d # ds \<Rightarrow> if d = CHR 0x0A then rev cur # splitLines ds [] else rev cur # splitLines cs [])
      else splitLines cs (c # cur))"

definition readLines :: "string \<Rightarrow> string list" where
  "readLines text = splitLines text []"

text \<open>
  The \<^verbatim>\<open>for await (const line of reader)\<close> loop, which both \<^verbatim>\<open>indexFileFull\<close> and
  \<^verbatim>\<open>indexFileIncremental\<close> run: \<open>lineNo\<close> is \<^verbatim>\<open>lineNumber\<close> before the line is read. It
  returns the last line number with the state.
\<close>

fun scanLines ::
  "runtime \<Rightarrow> string \<Rightarrow> string \<Rightarrow> string list \<Rightarrow> nat \<Rightarrow> index_state
    \<Rightarrow> index_error + (nat \<times> index_state)"
where
  "scanLines rt filePath sf [] lineNo st = Inr (lineNo, st)"
| "scanLines rt filePath sf (line # rest) lineNo st =
     (case processLine rt filePath sf line (lineNo + 1)
             (st\<lparr>st_report := (st_report st)\<lparr>linesScanned := linesScanned (st_report st) + 1\<rparr>\<rparr>) of
        Inl e \<Rightarrow> Inl e
      | Inr st1 \<Rightarrow> scanLines rt filePath sf rest (lineNo + 1) st1)"

text \<open>
  A file as the indexer meets it: its absolute path, its bytes, and its modification time.
  Its size is the number of its bytes, and a read stream delivers their decoding.
\<close>

record log_file =
  file_path :: string
  file_content :: string
  file_mtimeMs :: int

text \<open>
  \<^verbatim>\<open>relative(resolve(rootPath), resolve(filePath)).split(sep).join("/")\<close> for an absolute
  root and a file below it, which is what the listing of the root yields.
\<close>

definition sourceFileOf :: "string \<Rightarrow> string \<Rightarrow> string" where
  "sourceFileOf rootPath filePath =
     (if startsWith filePath (rootPath @ sep) then drop (length rootPath + 1) filePath
      else filePath)"

definition indexFileFull ::
  "runtime \<Rightarrow> string \<Rightarrow> log_file \<Rightarrow> index_state \<Rightarrow> index_error + index_state"
where
  "indexFileFull rt rootPath file st =
     (case scanLines rt (file_path file) (sourceFileOf rootPath (file_path file))
             (readLines (utf8_decode rt (file_content file))) 0 st of
        Inl e \<Rightarrow> Inl e
      | Inr (lineNo, st1) \<Rightarrow> Inr st1)"

fun indexFiles ::
  "runtime \<Rightarrow> string \<Rightarrow> log_file list \<Rightarrow> index_state \<Rightarrow> index_error + index_state"
where
  "indexFiles rt rootPath [] st = Inr st"
| "indexFiles rt rootPath (file # files) st =
     (case indexFileFull rt rootPath file st of
        Inl e \<Rightarrow> Inl e
      | Inr st1 \<Rightarrow> indexFiles rt rootPath files st1)"

text \<open>
  \<^verbatim>\<open>indexDirectory\<close>: \<open>files\<close> is the sorted listing of the \<^verbatim>\<open>.ndjson\<close> files below the
  root, \<open>started\<close> and \<open>finished\<close> are the two clock readings of the report.
\<close>

definition indexDirectory ::
  "runtime \<Rightarrow> string \<Rightarrow> log_file list \<Rightarrow> string \<Rightarrow> string \<Rightarrow> LogDatabase
    \<Rightarrow> index_error + (LogDatabase \<times> IndexReport)"
where
  "indexDirectory rt logsPath files started finished d =
     (case indexFiles rt logsPath files
             \<lparr>st_db = d, st_report = (createReport Full started)\<lparr>filesScanned := length files\<rparr>\<rparr> of
        Inl e \<Rightarrow> Inl e
      | Inr st \<Rightarrow> Inr (st_db st, (st_report st)\<lparr>finishedAt := finished\<rparr>))"

text \<open>
  \<^verbatim>\<open>JSON.parse\<close> and \<^verbatim>\<open>JSON.stringify\<close> on the few lines and values that the examples
  below use; every other line of an example is not JSON.
\<close>

definition example_parse :: "string \<Rightarrow> json option" where
  "example_parse s =
     (if s = ''{}'' then Some (JObj [])
      else if s = ''42'' then Some (JNum 42)
      else if s = ''null'' then Some JNull
      else None)"

definition example_stringify :: "json \<Rightarrow> string" where
  "example_stringify v = (case v of JNum n \<Rightarrow> ''42'' | JNull \<Rightarrow> ''null'' | _ \<Rightarrow> ''{}'')"

definition example_runtime :: runtime where
  "example_runtime =
     ascii_runtime example_parse example_stringify (\<lambda>n. ''42'')
       (\<lambda>f n. ''2024-05-01T10:00:00.000Z'')"

definition fresh_state :: index_state where
  "fresh_state = \<lparr>st_db = empty_database, st_report = createReport Full ''2024-05-01T10:00:00.000Z''\<rparr>"

text \<open>
  What the idempotence of a pass rests on. A line is settled in a store when processing it
  cannot insert: it is blank, it is not JSON, or it parses to a value other than
  \<^verbatim>\<open>null\<close> and the store has a row for its source file and line number.
\<close>

definition settled :: "runtime \<Rightarrow> LogDatabase \<Rightarrow> string \<Rightarrow> nat \<Rightarrow> string \<Rightarrow> bool" where
  "settled rt d sf lineNo line \<longleftrightarrow>
     trim rt line = []
     \<or> json_parse rt (trim rt line) = None
     \<or> (\<exists>parsed. json_parse rt (trim rt line) = Some parsed \<and> parsed \<noteq> JNull
           \<and> selectExisting d sf lineNo \<noteq> None)"

definition lines_settled ::
  "runtime \<Rightarrow> LogDatabase \<Rightarrow> string \<Rightarrow> nat \<Rightarrow> string list \<Rightarrow> bool"
where
  "lines_settled rt d sf start ls \<longleftrightarrow>
     (\<forall>i < length ls. settled rt d sf (start + i + 1) (ls ! i))"

text \<open>The lines of a list by what \<^verbatim>\<open>processLine\<close> makes of them.\<close>

definition blankLines :: "runtime \<Rightarrow> string list \<Rightarrow> nat" where
  "blankLines rt ls = length (filter (\<lambda>l. trim rt l = []) ls)"

definition unparsedLines :: "runtime \<Rightarrow> string list \<Rightarrow> nat" where
  "unparsedLines rt ls =
     length (filter (\<lambda>l. trim rt l \<noteq> [] \<and> json_parse rt (trim rt l) = None) ls)"

definition parsedLines :: "runtime \<Rightarrow> string list \<Rightarrow> nat" where
  "parsedLines rt ls =
     length (filter (\<lambda>l. trim rt l \<noteq> [] \<and> json_parse rt (trim rt l) \<noteq> None) ls)"

text \<open>All lines of a tree of files, file after file.\<close>

definition treeLines :: "runtime \<Rightarrow> log_file list \<Rightarrow> string list" where
  "treeLines rt files = concat (map (\<lambda>f. readLines (utf8_decode rt (file_content f))) files)"

definition files_settled :: "runtime \<Rightarrow> LogDatabase \<Rightarrow> string \<Rightarrow> log_file list \<Rightarrow> bool" where
  "files_settled rt d rootPath files \<longleftrightarrow>
     (\<forall>f \<in> set files.
        lines_settled rt d (sourceFileOf rootPath (file_path f)) 0
          (readLines (utf8_decode rt (file_content f))))"

text \<open>
  A tree with one file of four lines: an object, a blank line, a line that is not JSON and
  a number. \<open>example_indexed\<close> is the store after a full pass over it.
\<close>

definition example_tree :: "log_file list" where
  "example_tree =
     [\<lparr>file_path = ''/srv/logs/app.ndjson'',
       file_content = ''{}'' @ [CHR 0x0A, CHR 0x0A] @ ''not json'' @ [CHR 0x0A] @ ''42'' @ [CHR 0x0A],
       file_mtimeMs = 1000\<rparr>]"

definition example_indexed :: LogDatabase where
  "example_indexed =
     \<lparr>log_entries =
        [\<lparr>timestamp = ''2024-05-01T10:00:00.000Z'', level = ''INFO'', event = ''log.event'',
          message = [], row_id = 1, is_audit = False, data_json = ''{}'',
          source_file = ''app.ndjson'', line_number = 1\<rparr>,
         \<lparr>timestamp = ''2024-05-01T10:00:00.000Z'', level = ''INFO'', event = ''log.event'',
          message = [], row_id = 2, is_audit = False, data_json = ''42'',
          source_file = ''app.ndjson'', line_number = 4\<rparr>],
      log_fields = [], sqlite_sequence = 2\<rparr>"

section \<open>Incremental indexing (\<^verbatim>\<open>LogIndexer.indexFileIncremental\<close>)\<close>

text \<open>
  The checkpoint kept per file. \<^verbatim>\<open>byteOffset\<close> is a sum of an offset and of byte
  lengths, hence a natural number: the test \<^verbatim>\<open>Number.isFinite(byteOffset) && byteOffset >= 0\<close>
  of \<^verbatim>\<open>hasValidOffset\<close> holds for every checkpoint, and so does
  \<^verbatim>\<open>Number.isFinite(mtimeMs)\<close>. The field \<^verbatim>\<open>lineNumber\<close> is \<open>lastLine\<close> here and
  \<^verbatim>\<open>mtimeMs\<close> is \<open>checkpointMtimeMs\<close>.
\<close>

record IncrementalFileState =
  byteOffset :: nat
  fileSize :: nat
  lastLine :: nat
  checkpointMtimeMs :: int

definition rewrittenInPlace :: "IncrementalFileState option \<Rightarrow> nat \<Rightarrow> int \<Rightarrow> bool" where
  "rewrittenInPlace previousState sizeNow mtimeNow =
     (case previousState of
        None \<Rightarrow> False
      | Some p \<Rightarrow> sizeNow < byteOffset p \<or> (mtimeNow \<noteq> checkpointMtimeMs p \<and> sizeNow = byteOffset p))"

definition shouldResume :: "IncrementalFileState option \<Rightarrow> nat \<Rightarrow> int \<Rightarrow> bool" where
  "shouldResume previousState sizeNow mtimeNow =
     (let hasValidOffset = (previousState \<noteq> None)
      in hasValidOffset \<and> \<not> rewrittenInPlace previousState sizeNow mtimeNow
         \<and> (case previousState of None \<Rightarrow> False | Some p \<Rightarrow> sizeNow \<ge> byteOffset p))"

text \<open>
  \<^verbatim>\<open>indexFileIncremental\<close>. \<open>stat\<close> is the file as \<^verbatim>\<open>stat\<close> and the read stream find it,
  \<open>None\<close> when it is gone (\<^verbatim>\<open>ENOENT\<close>). The stream starts at \<^verbatim>\<open>startOffset\<close>;
  \<open>chunk\<close> is all of the decoded text it delivers, and \<^verbatim>\<open>bytesRead\<close> adds up the byte
  lengths of the decoded chunks, which is the byte length of that text and not the number
  of bytes of the file that were read.
\<close>

definition indexFileIncremental ::
  "runtime \<Rightarrow> string \<Rightarrow> string \<Rightarrow> log_file option
    \<Rightarrow> index_state \<times> (string \<rightharpoonup> IncrementalFileState)
    \<Rightarrow> index_error + (index_state \<times> (string \<rightharpoonup> IncrementalFileState))"
where
  "indexFileIncremental rt rootPath filePath stat state =
     (let (st, incrementalState) = state;
          sf = sourceFileOf rootPath filePath
      in case stat of
           None \<Rightarrow> Inr (st, incrementalState(filePath := None))
         | Some fileStats \<Rightarrow>
             (let sizeNow = length (file_content fileStats);
                  mtimeNow = file_mtimeMs fileStats;
                  previousState = incrementalState filePath;
                  hasValidOffset = (previousState \<noteq> None);
                  resume = shouldResume previousState sizeNow mtimeNow;
                  st1 = (if previousState \<noteq> None \<and> hasValidOffset \<and> \<not> resume
                         then st\<lparr>st_db := fst (deleteEntriesForSourceFile (st_db st) sf)\<rparr>
                         else st);
                  startOffset = (case previousState of
                                   Some p \<Rightarrow> if resume then byteOffset p else 0
                                 | None \<Rightarrow> 0);
                  firstLine = (case previousState of
                                 Some p \<Rightarrow> if resume then lastLine p else 0
                               | None \<Rightarrow> 0);
                  chunk = utf8_decode rt (drop startOffset (file_content fileStats));
                  bytesRead = length chunk
              in case scanLines rt filePath sf (readLines chunk) firstLine st1 of
                   Inl e \<Rightarrow> Inl e
                 | Inr (lineNo, st2) \<Rightarrow>
                     Inr (st2, incrementalState(filePath \<mapsto>
                            \<lparr>byteOffset = startOffset + bytesRead, fileSize = sizeNow,
                             lastLine = lineNo, checkpointMtimeMs = mtimeNow\<rparr>))))"

text \<open>
  \<^verbatim>\<open>indexDirectoryIncremental\<close>: the listing with what \<^verbatim>\<open>stat\<close> finds for each path;
  afterwards the checkpoints of files that are no longer listed are dropped.
\<close>

fun indexFilesIncremental ::
  "runtime \<Rightarrow> string \<Rightarrow> (string \<times> log_file option) list
    \<Rightarrow> index_state \<times> (string \<rightharpoonup> IncrementalFileState)
    \<Rightarrow> index_error + (index_state \<times> (string \<rightharpoonup> IncrementalFileState))"
where
  "indexFilesIncremental rt rootPath [] state = Inr state"
| "indexFilesIncremental rt rootPath ((filePath, stat) # files) state =
     (case indexFileIncremental rt rootPath filePath stat state of
        Inl e \<Rightarrow> Inl e
      | Inr state1 \<Rightarrow> indexFilesIncremental rt rootPath files state1)"

definition indexDirectoryIncremental ::
  "runtime \<Rightarrow> string \<Rightarrow> (string \<times> log_file option) list \<Rightarrow> string \<Rightarrow> string
    \<Rightarrow> LogDatabase \<times> (string \<rightharpoonup> IncrementalFileState)
    \<Rightarrow> index_error + (LogDatabase \<times> (string \<rightharpoonup> IncrementalFileState) \<times> IndexReport)"
where
  "indexDirectoryIncremental rt logsPath files started finished state =
     (let (d, incrementalState) = state
      in case indexFilesIncremental rt logsPath files
                (\<lparr>st_db = d,
                  st_report = (createReport Incremental started)\<lparr>filesScanned := length files\<rparr>\<rparr>,
                 incrementalState) of
           Inl e \<Rightarrow> Inl e
         | Inr (st, tracked) \<Rightarrow>
             Inr (st_db st,
                  (\<lambda>trackedFile. if trackedFile \<in> set (map fst files) then tracked trackedFile
                                   else None),
                  (st_report st)\<lparr>finishedAt := finished\<rparr>))"

text \<open>
  A stored row holds the columns of an upsert input, and a row is derived from the lines of
  a file when its line number points at a line that parses and the row holds the entry
  normalised from that line.
\<close>

definition stored_as :: "UpsertEntryInput \<Rightarrow> LogEntryRow \<Rightarrow> bool" where
  "stored_as input row \<longleftrightarrow>
     timestamp row = timestamp input \<and> level row = level input \<and> event row = event input
     \<and> message row = message input \<and> is_audit row = isAudit input
     \<and> data_json row = dataJson input \<and> source_file row = sourceFile input
     \<and> line_number row = lineNumber input"

definition derived_from ::
  "runtime \<Rightarrow> string \<Rightarrow> string \<Rightarrow> nat \<Rightarrow> string list \<Rightarrow> LogEntryRow \<Rightarrow> bool"
where
  "derived_from rt filePath sf start ls row \<longleftrightarrow>
     start < line_number row \<and> line_number row \<le> start + length ls
     \<and> (\<exists>parsed. json_parse rt (trim rt (ls ! (line_number row - start - 1))) = Some parsed
           \<and> stored_as (entryInput rt filePath sf (line_number row) parsed) row)"

text \<open>
  An incremental pass over two files with checkpoints. The first is the file of
  \<open>example_tree\<close> rewritten in place to one line; the second has grown by one line since
  its checkpoint. \<open>listing_store\<close> is the store before the pass, with the two rows of the
  first file's old content and the row of the second file's first line, and
  \<open>listing_result\<close> holds the rows after it.
\<close>

definition rewritten_file :: log_file where
  "rewritten_file =
     \<lparr>file_path = ''/srv/logs/app.ndjson'', file_content = ''{}'' @ [CHR 0x0A],
      file_mtimeMs = 2000\<rparr>"

definition example_checkpoint :: IncrementalFileState where
  "example_checkpoint = \<lparr>byteOffset = 16, fileSize = 16, lastLine = 4, checkpointMtimeMs = 1000\<rparr>"

definition grown_file :: log_file where
  "grown_file =
     \<lparr>file_path = ''/srv/logs/b.ndjson'',
      file_content = ''{}'' @ [CHR 0x0A] @ ''42'' @ [CHR 0x0A], file_mtimeMs = 3000\<rparr>"

definition grown_checkpoint :: IncrementalFileState where
  "grown_checkpoint = \<lparr>byteOffset = 3, fileSize = 3, lastLine = 1, checkpointMtimeMs = 2500\<rparr>"

definition incremental_listing :: "(string \<times> log_file option) list" where
  "incremental_listing =
     [(''/srv/logs/app.ndjson'', Some rewritten_file), (''/srv/logs/b.ndjson'', Some grown_file)]"

definition incremental_checkpoints :: "string \<rightharpoonup> IncrementalFileState" where
  "incremental_checkpoints =
     [''/srv/logs/app.ndjson'' \<mapsto> example_checkpoint, ''/srv/logs/b.ndjson'' \<mapsto> grown_checkpoint]"

definition example_row :: "int \<Rightarrow> string \<Rightarrow> string \<Rightarrow> nat \<Rightarrow> LogEntryRow" where
  "example_row rowId jsonText sf lineNo =
     \<lparr>timestamp = ''2024-05-01T10:00:00.000Z'', level = ''INFO'', event = ''log.event'',
      message = [], row_id = rowId, is_audit = False, data_json = jsonText,
      source_file = sf, line_number = lineNo\<rparr>"

definition listing_store :: LogDatabase where
  "listing_store =
     \<lparr>log_entries = [example_row 1 ''{}'' ''app.ndjson'' 1, example_row 2 ''42'' ''app.ndjson'' 4,
                     example_row 3 ''{}'' ''b.ndjson'' 1],
      log_fields = [], sqlite_sequence = 3\<rparr>"

definition listing_result :: LogDatabase where
  "listing_result =
     \<lparr>log_entries = [example_row 3 ''{}'' ''b.ndjson'' 1, example_row 4 ''{}'' ''app.ndjson'' 1,
                     example_row 5 ''42'' ''b.ndjson'' 2],
      log_fields = [], sqlite_sequence = 5\<rparr>"

section \<open>Paged queries (LogDatabase.queryPage, application/services/LogQueryService.ts)\<close>

text \<open>
  The query options. \<^verbatim>\<open>cursor\<close> is a string in the code: the base64url text of a JSON
  text. Both codings are the library's and inverse to each other, so the option carries
  the JSON value the string decodes to, and \<open>None\<close> for a cursor that is absent, empty or
  does not decode. Text columns compare as SQLite's \<^verbatim>\<open>BINARY\<close> collation does, byte by
  byte, which is the order of \<open>string\<close>.
\<close>

record LogQueryOptions =
  opt_from :: "string option"
  opt_to :: "string option"
  opt_level :: "string option"
  opt_audit :: "bool option"
  opt_field :: "string option"
  opt_limit :: "rat option"
  opt_value :: "string option"
  opt_cursor :: "json option"

record LogCursor =
  cursor_id :: int
  cursor_timestamp :: string

record IndexedLogEntry = LogLocated +
  log_id :: int
  log_data :: json

record LogQueryPage =
  entries :: "IndexedLogEntry list"
  hasMore :: bool
  page_limit :: int
  nextCursor :: "json option"

text \<open>\<^verbatim>\<open>Math.max(1, Math.min(max, Math.trunc(input || fallback)))\<close>\<close>

definition normalizeLimit :: "rat option \<Rightarrow> rat \<Rightarrow> int \<Rightarrow> int" where
  "normalizeLimit input fallback maxLimit =
     max 1 (min maxLimit (js_trunc (case input of
                                       None \<Rightarrow> fallback
                                     | Some n \<Rightarrow> if n = 0 then fallback else n)))"

definition resolveLimit :: "rat option \<Rightarrow> int \<Rightarrow> int" where
  "resolveLimit input maxLimit = normalizeLimit input 100 maxLimit"

definition MAX_QUERY_LIMIT :: int where
  "MAX_QUERY_LIMIT = 1000"

definition encodeCursor :: "LogCursor \<Rightarrow> json" where
  "encodeCursor c = JObj [(''id'', JNum (of_int (cursor_id c))), (''timestamp'', JStr (cursor_timestamp c))]"

definition decodeCursor :: "json option \<Rightarrow> LogCursor option" where
  "decodeCursor cursor =
     (case cursor of
        None \<Rightarrow> None
      | Some parsed \<Rightarrow>
          (case get_prop parsed ''timestamp'' of
             None \<Rightarrow> None
           | Some (Some (JStr ts)) \<Rightarrow>
               (case property parsed ''id'' of
                  Some (JNum n) \<Rightarrow>
                    if n \<le> 0 then None
                    else Some \<lparr>cursor_id = js_trunc n, cursor_timestamp = ts\<rparr>
                | _ \<Rightarrow> None)
           | Some _ \<Rightarrow> None))"

text \<open>
  The \<^verbatim>\<open>WHERE\<close> clauses of \<^verbatim>\<open>buildFilterSql\<close> on a row: a bound applies when the
  option is a non-empty string, and the field pair joins \<^verbatim>\<open>log_fields\<close>.
\<close>

definition matchesFilter ::
  "runtime \<Rightarrow> LogDatabase \<Rightarrow> LogQueryOptions \<Rightarrow> LogEntryRow \<Rightarrow> bool"
where
  "matchesFilter rt d options row \<longleftrightarrow>
     (case opt_from options of
        Some f \<Rightarrow> if f \<noteq> [] then timestamp row \<ge> f else True
      | None \<Rightarrow> True)
     \<and> (case opt_to options of
          Some t \<Rightarrow> if t \<noteq> [] then timestamp row \<le> t else True
        | None \<Rightarrow> True)
     \<and> (case opt_level options of
          Some l \<Rightarrow> if l \<noteq> [] then level row = toUpperCase rt l else True
        | None \<Rightarrow> True)
     \<and> (case opt_audit options of
          Some a \<Rightarrow> is_audit row = a
        | None \<Rightarrow> True)
     \<and> (case opt_value options of
          Some v \<Rightarrow>
            (case opt_field options of
               Some k \<Rightarrow> if k \<noteq> [] then (row_id row, k, v) \<in> set (log_fields d) else True
             | None \<Rightarrow> True)
        | None \<Rightarrow> True)"

text \<open>\<^verbatim>\<open>(e.timestamp < ? OR (e.timestamp = ? AND e.id < ?))\<close>, when a cursor is given.\<close>

definition afterCursor :: "LogCursor option \<Rightarrow> LogEntryRow \<Rightarrow> bool" where
  "afterCursor cursor row =
     (case cursor of
        None \<Rightarrow> True
      | Some c \<Rightarrow>
          timestamp row < cursor_timestamp c
          \<or> (timestamp row = cursor_timestamp c \<and> row_id row < cursor_id c))"

text \<open>
  \<^verbatim>\<open>ORDER BY e.timestamp DESC, e.id DESC\<close>: the rows by descending
  \<open>(timestamp, id)\<close>.
\<close>

definition row_key :: "LogEntryRow \<Rightarrow> string \<times> int" where
  "row_key row = (timestamp row, row_id row)"

definition orderDesc :: "LogEntryRow list \<Rightarrow> LogEntryRow list" where
  "orderDesc rows = rev (sort_key row_key rows)"

text \<open>The rows the statement selects before \<^verbatim>\<open>LIMIT\<close>.\<close>

definition selectedRows ::
  "runtime \<Rightarrow> LogDatabase \<Rightarrow> LogQueryOptions \<Rightarrow> LogCursor option \<Rightarrow> LogEntryRow list"
where
  "selectedRows rt d options cursor =
     orderDesc (remdups (filter (\<lambda>row. matchesFilter rt d options row \<and> afterCursor cursor row)
                           (log_entries d)))"

text \<open>\<^verbatim>\<open>mapRows\<close>: \<^verbatim>\<open>JSON.parse(row.data_json)\<close> throws on text that is not JSON.\<close>

fun mapRows :: "runtime \<Rightarrow> LogEntryRow list \<Rightarrow> index_error + IndexedLogEntry list" where
  "mapRows rt [] = Inr []"
| "mapRows rt (row # rows) =
     (case json_parse rt (data_json row) of
        None \<Rightarrow> Inl SyntaxError
      | Some parsed \<Rightarrow>
          (case mapRows rt rows of
             Inl e \<Rightarrow> Inl e
           | Inr mapped \<Rightarrow>
               Inr (\<lparr>timestamp = timestamp row, level = level row, event = event row,
                      message = message row, sourceFile = source_file row,
                      lineNumber = line_number row, log_id = row_id row,
                      log_data = parsed\<rparr> # mapped)))"

text \<open>
  \<^verbatim>\<open>queryPage\<close>: \<open>limit + 1\<close> rows are fetched; the result is the entries, \<^verbatim>\<open>hasMore\<close>
  and the limit.
\<close>

definition queryPage ::
  "runtime \<Rightarrow> LogDatabase \<Rightarrow> LogQueryOptions \<Rightarrow> LogCursor option
    \<Rightarrow> index_error + (IndexedLogEntry list \<times> bool \<times> int)"
where
  "queryPage rt d options cursor =
     (let limit = resolveLimit (opt_limit options) 1000;
          rows = take (nat (limit + 1)) (selectedRows rt d options cursor);
          moreRows = (int (length rows) > limit);
          pageRows = (if moreRows then take (nat limit) rows else rows)
      in case mapRows rt pageRows of
           Inl e \<Rightarrow> Inl e
         | Inr mapped \<Rightarrow> Inr (mapped, moreRows, limit))"

definition queryLogsPage ::
  "runtime \<Rightarrow> LogDatabase \<Rightarrow> LogQueryOptions \<Rightarrow> index_error + LogQueryPage"
where
  "queryLogsPage rt d options =
     (let cursor = decodeCursor (opt_cursor options);
          limit = normalizeLimit (opt_limit options) 100 MAX_QUERY_LIMIT
      in case queryPage rt d (options\<lparr>opt_limit := Some (of_int limit)\<rparr>) cursor of
           Inl e \<Rightarrow> Inl e
         | Inr (pageEntries, moreRows, pageLimit) \<Rightarrow>
             Inr \<lparr>entries = pageEntries, hasMore = moreRows, page_limit = pageLimit,
                  nextCursor =
                    (if moreRows \<and> pageEntries \<noteq> []
                     then Some (encodeCursor \<lparr>cursor_id = log_id (last pageEntries),
                                              cursor_timestamp = timestamp (last pageEntries)\<rparr>)
                     else None)\<rparr>)"

text \<open>The sort key of a returned entry.\<close>

definition entry_key :: "IndexedLogEntry \<Rightarrow> string \<times> int" where
  "entry_key e = (timestamp e, log_id e)"

text \<open>
  What the primary key with \<^verbatim>\<open>AUTOINCREMENT\<close> gives the rows of a store: ids that are
  distinct and positive.
\<close>

definition wellformed_ids :: "LogDatabase \<Rightarrow> bool" where
  "wellformed_ids d \<longleftrightarrow>
     distinct (map row_id (log_entries d))
     \<and> (\<forall>row \<in> set (log_entries d). 0 < row_id row)
     \<and> 0 \<le> sqlite_sequence d"

text \<open>
  A store with three rows, a query for pages of two, and the two pages it is answered with.
\<close>

definition paged_database :: LogDatabase where
  "paged_database =
     \<lparr>log_entries =
        [\<lparr>timestamp = ''2024-01-01T00:00:00.000Z'', level = ''INFO'', event = ''a'',
          message = ''a'', row_id = 1, is_audit = False, data_json = ''{}'',
          source_file = ''app.ndjson'', line_number = 1\<rparr>,
         \<lparr>timestamp = ''2024-01-03T00:00:00.000Z'', level = ''INFO'', event = ''b'',
          message = ''b'', row_id = 2, is_audit = False, data_json = ''{}'',
          source_file = ''app.ndjson'', line_number = 2\<rparr>,
         \<lparr>timestamp = ''2024-01-02T00:00:00.000Z'', level = ''INFO'', event = ''c'',
          message = ''c'', row_id = 3, is_audit = False, data_json = ''{}'',
          source_file = ''app.ndjson'', line_number = 3\<rparr>],
      log_fields = [], sqlite_sequence = 3\<rparr>"

definition two_per_page :: LogQueryOptions where
  "two_per_page =
     \<lparr>opt_from = None, opt_to = None, opt_level = None, opt_audit = None, opt_field = None,
      opt_limit = Some 2, opt_value = None, opt_cursor = None\<rparr>"

definition first_page :: LogQueryPage where
  "first_page =
     \<lparr>entries =
        [\<lparr>timestamp = ''2024-01-03T00:00:00.000Z'', level = ''INFO'', event = ''b'',
          message = ''b'', sourceFile = ''app.ndjson'', lineNumber = 2, log_id = 2,
          log_data = JObj []\<rparr>,
         \<lparr>timestamp = ''2024-01-02T00:00:00.000Z'', level = ''INFO'', event = ''c'',
          message = ''c'', sourceFile = ''app.ndjson'', lineNumber = 3, log_id = 3,
          log_data = JObj []\<rparr>],
      hasMore = True, page_limit = 2,
      nextCursor = Some (JObj [(''id'', JNum 3), (''timestamp'', JStr ''2024-01-02T00:00:00.000Z'')])\<rparr>"

definition second_page :: LogQueryPage where
  "second_page =
     \<lparr>entries =
        [\<lparr>timestamp = ''2024-01-01T00:00:00.000Z'', level = ''INFO'', event = ''a'',
          message = ''a'', sourceFile = ''app.ndjson'', lineNumber = 1, log_id = 1,
          log_data = JObj []\<rparr>],
      hasMore = False, page_limit = 2, nextCursor = None\<rparr>"

section \<open>Alert webhook delivery (usecases/alerting.ts)\<close>

text \<open>
  The alert policy, field by field as \<^verbatim>\<open>AlertPolicy\<close> declares it. JavaScript numbers
  that may carry a fraction are rationals; \<^verbatim>\<open>webhookRetryAttempts\<close> is truncated to an
  integer wherever a policy is built, so it is an integer here.
\<close>

record AlertPolicy =
  enabled :: bool
  webhookUrl :: "string option"
  intervalMs :: rat
  windowMinutes :: rat
  errorThreshold :: rat
  noLogsThresholdMinutes :: rat
  cooldownMs :: rat
  webhookTimeoutMs :: rat
  webhookRetryAttempts :: int
  webhookBackoffMs :: rat

text \<open>
  What one \<^verbatim>\<open>fetch\<close> call can do: resolve with a response of some HTTP status, reject
  with an \<^verbatim>\<open>AbortError\<close> (the timeout fired), or reject with any other error.
\<close>

datatype fetch_outcome = Responded int | AbortError | NetworkError

text \<open>The \<^verbatim>\<open>AlertWebhookError\<close> that is thrown, with its \<^verbatim>\<open>retryable\<close> flag.\<close>

datatype AlertWebhookError =
    StatusFailure int bool
  | TimeoutFailure bool
  | OtherFailure bool
  | AfterRetries bool

fun retryable :: "AlertWebhookError \<Rightarrow> bool" where
  "retryable (StatusFailure _ r) = r"
| "retryable (TimeoutFailure r) = r"
| "retryable (OtherFailure r) = r"
| "retryable (AfterRetries r) = r"

definition shouldRetryWebhookStatus :: "int \<Rightarrow> bool" where
  "shouldRetryWebhookStatus status \<longleftrightarrow> status = 408 \<or> status = 429 \<or> status \<ge> 500"

text \<open>\<^verbatim>\<open>response.ok\<close> of the Fetch standard: the status is in the range 200 to 299.\<close>

definition response_ok :: "int \<Rightarrow> bool" where
  "response_ok status \<longleftrightarrow> 200 \<le> status \<and> status \<le> 299"

text \<open>\<^verbatim>\<open>Math.round(policy.webhookBackoffMs * 2 ** (attempt - 1))\<close>\<close>

definition delayMs :: "AlertPolicy \<Rightarrow> nat \<Rightarrow> int" where
  "delayMs policy attempt = js_round (webhookBackoffMs policy * 2 ^ (attempt - 1))"

text \<open>
  The \<^verbatim>\<open>try\<close> block of one attempt, up to the \<^verbatim>\<open>catch\<close> clause's \<^verbatim>\<open>reason\<close>:
  \<open>None\<close> when the response was ok (the function returns), the error otherwise.
\<close>

definition attempt_reason :: "fetch_outcome \<Rightarrow> AlertWebhookError option" where
  "attempt_reason outcome =
     (case outcome of
        Responded status \<Rightarrow>
          if response_ok status then None
          else Some (StatusFailure status (shouldRetryWebhookStatus status))
      | AbortError \<Rightarrow> Some (TimeoutFailure True)
      | NetworkError \<Rightarrow> Some (OtherFailure True))"

text \<open>
  What the delivery does to the outside world, in order: the \<open>k\<close>-th call of the target
  (\<open>Invoke k\<close>) and the sleeps between attempts (\<open>Sleep ms\<close>).
\<close>

datatype webhook_action = Invoke nat | Sleep int

text \<open>
  The loop of \<^verbatim>\<open>sendAlertWebhook\<close> from attempt \<open>attempt\<close> on. The target's behaviour is
  the function \<open>fetch\<close> from the attempt number to the outcome of that call. The result is
  the trace of actions and \<open>None\<close> for a normal return or the error thrown.
\<close>

function sendLoop ::
  "(nat \<Rightarrow> fetch_outcome) \<Rightarrow> AlertPolicy \<Rightarrow> nat \<Rightarrow> AlertWebhookError option
    \<Rightarrow> webhook_action list \<times> AlertWebhookError option"
where
  "sendLoop fetch policy attempt lastError =
     (if int attempt \<le> webhookRetryAttempts policy then
        (case attempt_reason (fetch attempt) of
           None \<Rightarrow> ([Invoke attempt], None)
         | Some reason \<Rightarrow>
             if \<not> retryable reason \<or> int attempt \<ge> webhookRetryAttempts policy
             then ([Invoke attempt], Some reason)
             else
               (let (actions, outcome) = sendLoop fetch policy (Suc attempt) (Some reason)
                in (Invoke attempt # Sleep (delayMs policy attempt) # actions, outcome)))
      else
        ([], Some (case lastError of Some e \<Rightarrow> e | None \<Rightarrow> AfterRetries False)))"
  by pat_completeness auto
termination
  by (relation "measure (\<lambda>(fetch, policy, attempt, lastError).
        nat (webhookRetryAttempts policy + 1 - int attempt))") auto

declare sendLoop.simps [simp del]

definition sendAlertWebhook ::
  "(nat \<Rightarrow> fetch_outcome) \<Rightarrow> AlertPolicy
    \<Rightarrow> webhook_action list \<times> AlertWebhookError option"
where
  "sendAlertWebhook fetch policy = sendLoop fetch policy 1 None"

text \<open>The attempts of a trace, in order, and the sleep that follows an attempt.\<close>

fun invocations :: "webhook_action list \<Rightarrow> nat list" where
  "invocations [] = []"
| "invocations (Invoke k # as) = k # invocations as"
| "invocations (Sleep _ # as) = invocations as"

text \<open>An attempt failed in a way the code retries.\<close>

definition retryable_failure :: "fetch_outcome \<Rightarrow> bool" where
  "retryable_failure outcome =
     (case outcome of
        Responded status \<Rightarrow> status = 408 \<or> status = 429 \<or> status \<ge> 500
      | AbortError \<Rightarrow> True
      | NetworkError \<Rightarrow> True)"

text \<open>An attempt ended with a status outside 2xx that is not retried.\<close>

definition terminal_failure :: "fetch_outcome \<Rightarrow> bool" where
  "terminal_failure outcome =
     (case outcome of
        Responded status \<Rightarrow>
          \<not> (200 \<le> status \<and> status \<le> 299) \<and> status \<noteq> 408 \<and> status \<noteq> 429 \<and> status < 500
      | AbortError \<Rightarrow> False
      | NetworkError \<Rightarrow> False)"

section \<open>The alerting cycle (usecases/alerting.ts, \<^verbatim>\<open>AlertingManager.runCycle\<close>)\<close>

text \<open>
  Instants are integers, milliseconds since the epoch: \<^verbatim>\<open>Date.now()\<close> returns one, and
  an ISO string written by \<^verbatim>\<open>toISOString\<close> is read back by \<^verbatim>\<open>Date.parse\<close> as the
  instant it was written from, so \<^verbatim>\<open>lastTriggerAtByRule\<close> maps a rule to the instant
  whose ISO string the code stores. A rule with no entry is \<open>None\<close> (the code's \<^verbatim>\<open>NaN\<close>).
  \<^verbatim>\<open>lastError\<close> keeps the error instead of its message: the \<^verbatim>\<open>RangeError\<close> of
  \<^verbatim>\<open>toISOString\<close> on an invalid date, or the error of a delivery.
\<close>

datatype cycle_error = RangeError | WebhookError AlertWebhookError

record AlertState =
  running :: bool
  runs :: nat
  sent :: nat
  suppressed :: nat
  lastRunAt :: "int option"
  lastSuccessAt :: "int option"
  lastDurationMs :: "rat option"
  lastError :: "cycle_error option"
  lastTriggerAtByRule :: "string \<rightharpoonup> int"

definition createAlertState :: AlertState where
  "createAlertState =
     \<lparr>running = False, runs = 0, sent = 0, suppressed = 0, lastRunAt = None,
      lastSuccessAt = None, lastDurationMs = None, lastError = None,
      lastTriggerAtByRule = Map.empty\<rparr>"

text \<open>
  Everything a cycle reads from outside: the clock (\<open>runAt\<close> for \<^verbatim>\<open>lastRunAt\<close>, \<open>nowMs\<close>
  for \<^verbatim>\<open>Date.now()\<close>, \<open>sentAt rule\<close> for the \<^verbatim>\<open>new Date()\<close> taken after the delivery for
  that rule returned, \<open>successAt\<close>, \<open>durationMs\<close>), the query service (\<open>countLogs from level\<close>,
  with \<open>from\<close> the instant of the ISO bound) and the webhook target (\<open>target rule attempt\<close>).
\<close>

record cycle_env =
  runAt :: int
  nowMs :: int
  countLogs :: "int \<Rightarrow> string option \<Rightarrow> int"
  target :: "string \<Rightarrow> nat \<Rightarrow> fetch_outcome"
  sentAt :: "string \<Rightarrow> int"
  successAt :: int
  durationMs :: rat

record trigger =
  rule :: string
  severity :: string
  details :: "(string \<times> rat) list"

text \<open>
  \<^verbatim>\<open>new Date(x)\<close> holds a valid date when \<open>x\<close> is within 8.64e15 milliseconds of the
  epoch; on any other date \<^verbatim>\<open>toISOString\<close> throws a \<^verbatim>\<open>RangeError\<close>.
\<close>

definition validTime :: "rat \<Rightarrow> bool" where
  "validTime x \<longleftrightarrow> \<bar>x\<bar> \<le> 8640000000000000"

text \<open>
  The triggers of a cycle, in the order the code pushes them, or the error thrown while
  they are collected: each window start is turned into an ISO string before the query
  service is asked.
\<close>

definition collectTriggers :: "AlertPolicy \<Rightarrow> cycle_env \<Rightarrow> cycle_error + trigger list" where
  "collectTriggers policy env =
     (let windowTime = of_int (nowMs env) - windowMinutes policy * 60000
      in if \<not> validTime windowTime then Inl RangeError
         else
           (let windowStart = js_trunc windowTime;
                errorCount = countLogs env windowStart (Some ''ERROR'');
                totalWindowCount = countLogs env windowStart None;
                errorTriggers =
                  (if of_int errorCount \<ge> errorThreshold policy
                   then [\<lparr>rule = ''error_threshold'', severity = ''critical'',
                           details = [(''errorCount'', of_int errorCount),
                                      (''threshold'', errorThreshold policy),
                                      (''totalWindowCount'', of_int totalWindowCount),
                                      (''windowMinutes'', windowMinutes policy)]\<rparr>]
                   else [])
            in if noLogsThresholdMinutes policy > 0
               then
                 (let noLogsTime = of_int (nowMs env) - noLogsThresholdMinutes policy * 60000
                  in if \<not> validTime noLogsTime then Inl RangeError
                     else
                       (let noLogsStart = js_trunc noLogsTime;
                            noLogsCount = countLogs env noLogsStart None
                        in Inr (errorTriggers @
                                  (if noLogsCount = 0
                                   then [\<lparr>rule = ''no_logs'', severity = ''warning'',
                                           details = [(''thresholdMinutes'',
                                                       noLogsThresholdMinutes policy)]\<rparr>]
                                   else []))))
               else Inr errorTriggers))"

text \<open>
  What a cycle did for a trigger: suppressed it, delivered it (with the trace of the
  delivery and the instant recorded for it) or failed to deliver it.
\<close>

datatype alert_event =
    Suppressed string
  | Delivered string "webhook_action list" int
  | DeliveryFailed string "webhook_action list" AlertWebhookError

text \<open>
  \<^verbatim>\<open>Number.isFinite(lastSentMs) && nowMs - lastSentMs < policy.cooldownMs\<close>
\<close>

definition inCooldown :: "AlertPolicy \<Rightarrow> cycle_env \<Rightarrow> AlertState \<Rightarrow> string \<Rightarrow> bool" where
  "inCooldown policy env st r =
     (case lastTriggerAtByRule st r of
        None \<Rightarrow> False
      | Some lastSentMs \<Rightarrow> of_int (nowMs env - lastSentMs) < cooldownMs policy)"

text \<open>
  The \<^verbatim>\<open>for (const trigger of triggers)\<close> loop. An error thrown by the delivery leaves
  the loop (third component), as the \<^verbatim>\<open>catch\<close> around it does.
\<close>

fun processTriggers ::
  "AlertPolicy \<Rightarrow> cycle_env \<Rightarrow> trigger list \<Rightarrow> AlertState
    \<Rightarrow> AlertState \<times> alert_event list \<times> AlertWebhookError option"
where
  "processTriggers policy env [] st = (st, [], None)"
| "processTriggers policy env (t # ts) st =
     (if inCooldown policy env st (rule t) then
        (let (st', events, err) =
               processTriggers policy env ts (st\<lparr>suppressed := suppressed st + 1\<rparr>)
         in (st', Suppressed (rule t) # events, err))
      else
        (case sendAlertWebhook (target env (rule t)) policy of
           (trace, Some err) \<Rightarrow> (st, [DeliveryFailed (rule t) trace err], Some err)
         | (trace, None) \<Rightarrow>
             (let (st', events, err) =
                    processTriggers policy env ts
                      (st\<lparr>lastTriggerAtByRule := (lastTriggerAtByRule st)(rule t \<mapsto> sentAt env (rule t)),
                          sent := sent st + 1\<rparr>)
              in (st', Delivered (rule t) trace (sentAt env (rule t)) # events, err))))"

definition runCycle ::
  "AlertPolicy \<Rightarrow> cycle_env \<Rightarrow> AlertState \<Rightarrow> AlertState \<times> alert_event list"
where
  "runCycle policy env st =
     (if \<not> enabled policy \<or> webhookUrl policy = None \<or> webhookUrl policy = Some [] then (st, [])
      else if running st then (st, [])
      else
        (let st1 = st\<lparr>running := True, runs := runs st + 1, lastRunAt := Some (runAt env)\<rparr>;
             (st2, events, err) =
               (case collectTriggers policy env of
                  Inl e \<Rightarrow> (st1, [], Some e)
                | Inr triggers \<Rightarrow>
                    (let (st', events', err') = processTriggers policy env triggers st1
                     in (st', events', map_option WebhookError err')));
             st3 = (case err of
                      None \<Rightarrow> st2\<lparr>lastSuccessAt := Some (successAt env), lastError := None\<rparr>
                    | Some e \<Rightarrow> st2\<lparr>lastError := Some e\<rparr>)
         in (st3\<lparr>lastDurationMs := Some (durationMs env), running := False\<rparr>, events)))"

text \<open>
  A sequence of cycles, each with the policy in force and its environment. The history
  lists every event with the \<^verbatim>\<open>nowMs\<close> of the cycle it belongs to.
\<close>

fun runCycles ::
  "(AlertPolicy \<times> cycle_env) list \<Rightarrow> AlertState \<Rightarrow> AlertState \<times> (int \<times> alert_event) list"
where
  "runCycles [] st = (st, [])"
| "runCycles ((policy, env) # cycles) st =
     (let (st1, events) = runCycle policy env st;
          (st2, later) = runCycles cycles st1
      in (st2, map (Pair (nowMs env)) events @ later))"

text \<open>The events of a cycle that called the webhook target for a rule.\<close>

fun webhook_rule :: "alert_event \<Rightarrow> string option" where
  "webhook_rule (Suppressed r) = None"
| "webhook_rule (Delivered r _ _) = Some r"
| "webhook_rule (DeliveryFailed r _ _) = Some r"

fun is_suppressed :: "alert_event \<Rightarrow> bool" where
  "is_suppressed (Suppressed r) = True"
| "is_suppressed _ = False"

fun is_failed :: "alert_event \<Rightarrow> bool" where
  "is_failed (DeliveryFailed r _ _) = True"
| "is_failed _ = False"

text \<open>The cycle gets past its two guards: alerting is on with a webhook URL, and no cycle is in flight.\<close>

definition cycle_runs :: "AlertPolicy \<Rightarrow> AlertState \<Rightarrow> bool" where
  "cycle_runs policy st \<longleftrightarrow>
     enabled policy \<and> webhookUrl policy \<noteq> None \<and> webhookUrl policy \<noteq> Some [] \<and> \<not> running st"

text \<open>
  Two predicates on a history, for the cooldown property: every recorded delivery of a rule
  is no later than the instant stored for that rule, and two deliveries of one rule are at
  least \<open>cd\<close> milliseconds apart (from the recorded instant of the earlier one to the start
  of the cycle of the later one).
\<close>

definition sends_bounded :: "(string \<rightharpoonup> int) \<Rightarrow> (int \<times> alert_event) list \<Rightarrow> bool" where
  "sends_bounded lastBy h \<longleftrightarrow>
     (\<forall>n r tr s. (n, Delivered r tr s) \<in> set h \<longrightarrow> (\<exists>l. lastBy r = Some l \<and> s \<le> l))"

definition separated :: "rat \<Rightarrow> (int \<times> alert_event) list \<Rightarrow> bool" where
  "separated cd h \<longleftrightarrow>
     (\<forall>i j n1 n2 r tr1 tr2 s1 s2.
        i < j \<and> j < length h \<and> h ! i = (n1, Delivered r tr1 s1) \<and> h ! j = (n2, Delivered r tr2 s2)
        \<longrightarrow> cd \<le> of_int (n2 - s1))"

text \<open>A policy and an environment to run the cycle on: 25 errors in every window, a target that answers 200.\<close>

definition demo_policy :: AlertPolicy where
  "demo_policy = \<lparr>enabled = True, webhookUrl = Some ''http://hook'', intervalMs = 30000,
      windowMinutes = 5, errorThreshold = 20, noLogsThresholdMinutes = 0, cooldownMs = 300000,
      webhookTimeoutMs = 5000, webhookRetryAttempts = 3, webhookBackoffMs = 250\<rparr>"

definition demo_env :: "int \<Rightarrow> cycle_env" where
  "demo_env t = \<lparr>runAt = t, nowMs = t, countLogs = (\<lambda>from level. 25),
      target = (\<lambda>r k. Responded 200), sentAt = (\<lambda>r. t + 50), successAt = t + 60,
      durationMs = 60\<rparr>"

text \<open>
  A cycle with two triggers of which the first cannot be delivered: 25 errors in the
  window of five minutes and no log in the last minute, a target that answers 400, and a
  state in which \<^verbatim>\<open>no_logs\<close> was sent ten seconds before the cycle.
\<close>

definition failing_policy :: AlertPolicy where
  "failing_policy = demo_policy\<lparr>noLogsThresholdMinutes := 1\<rparr>"

definition failing_env :: cycle_env where
  "failing_env = \<lparr>runAt = 1000000, nowMs = 1000000,
      countLogs = (\<lambda>from level. if from \<le> 700000 then 25 else 0),
      target = (\<lambda>r k. Responded 400), sentAt = (\<lambda>r. 1000050), successAt = 1000060,
      durationMs = 60\<rparr>"

definition cooling_state :: AlertState where
  "cooling_state = createAlertState\<lparr>lastTriggerAtByRule := [''no_logs'' \<mapsto> 990000]\<rparr>"

definition failing_triggers :: "trigger list" where
  "failing_triggers =
     [\<lparr>rule = ''error_threshold'', severity = ''critical'',
       details = [(''errorCount'', 25), (''threshold'', 20), (''totalWindowCount'', 25),
                  (''windowMinutes'', 5)]\<rparr>,
      \<lparr>rule = ''no_logs'', severity = ''warning'', details = [(''thresholdMinutes'', 1)]\<rparr>]"

definition demo_trigger :: trigger where
  "demo_trigger =
     \<lparr>rule = ''error_threshold'', severity = ''critical'',
      details = [(''errorCount'', 25), (''threshold'', 20), (''totalWindowCount'', 25),
                 (''windowMinutes'', 5)]\<rparr>"

section \<open>Authentication of producers (usecases/auth.ts)\<close>

record BasicAuthPolicy =
  basic_enabled :: bool
  basic_password :: "string option"
  basic_username :: "string option"

datatype config_error =
    BasicAuthIncomplete
  | InvalidMapping string
  | InvalidProducerId string
  | DuplicateToken

text \<open>
  \<^verbatim>\<open>createBasicAuthPolicy\<close>. The arguments are the option merged with the environment
  variable; the user name is trimmed and not examined further.
\<close>

definition createBasicAuthPolicy ::
  "runtime \<Rightarrow> string option \<Rightarrow> string option \<Rightarrow> config_error + BasicAuthPolicy"
where
  "createBasicAuthPolicy rt authUsername authPassword =
     (let name = trim rt (case authUsername of Some u \<Rightarrow> u | None \<Rightarrow> []);
          hasName = (name \<noteq> []);
          hasPassword = (case authPassword of Some p \<Rightarrow> p \<noteq> [] | None \<Rightarrow> False)
      in if (hasName \<and> \<not> hasPassword) \<or> (\<not> hasName \<and> hasPassword) then Inl BasicAuthIncomplete
         else if \<not> hasName \<or> \<not> hasPassword then
           Inr \<lparr>basic_enabled = False, basic_password = None, basic_username = None\<rparr>
         else
           Inr \<lparr>basic_enabled = True, basic_password = authPassword, basic_username = Some name\<rparr>)"

text \<open>\<^verbatim>\<open>s.split(c)\<close> for a separator of one character, and \<^verbatim>\<open>s.indexOf(c)\<close>.\<close>

fun splitOn :: "char \<Rightarrow> string \<Rightarrow> string \<Rightarrow> string list" where
  "splitOn c [] cur = [rev cur]"
| "splitOn c (x # xs) cur =
     (if x = c then rev cur # splitOn c xs [] else splitOn c xs (x # cur))"

definition split_str :: "char \<Rightarrow> string \<Rightarrow> string list" where
  "split_str c s = splitOn c s []"

fun indexOf :: "char \<Rightarrow> string \<Rightarrow> nat option" where
  "indexOf c [] = None"
| "indexOf c (x # xs) =
     (if x = c then Some 0 else (case indexOf c xs of None \<Rightarrow> None | Some i \<Rightarrow> Some (Suc i)))"

text \<open>
  \<^verbatim>\<open>const [scheme, token] = header.split(" ")\<close>: the first two parts, each
  \<^verbatim>\<open>undefined\<close> when missing.
\<close>

definition schemeAndToken :: "string \<Rightarrow> string option \<times> string option" where
  "schemeAndToken header =
     (case split_str CHR '' '' header of
        [] \<Rightarrow> (None, None)
      | [s] \<Rightarrow> (Some s, None)
      | s # t # _ \<Rightarrow> (Some s, Some t))"

definition getAuthorizationToken :: "runtime \<Rightarrow> string option \<Rightarrow> string option" where
  "getAuthorizationToken rt authorization =
     (case authorization of
        None \<Rightarrow> None
      | Some header \<Rightarrow>
          if header = [] then None
          else
            (case schemeAndToken header of
               (Some scheme, Some token) \<Rightarrow>
                 if toLowerCase rt scheme \<noteq> ''bearer'' \<or> token = [] then None else Some token
             | _ \<Rightarrow> None))"

text \<open>
  \<^verbatim>\<open>getBasicAuthCredentials\<close>, as \<open>(username, password)\<close>. \<open>b64\<close> is the library's
  base64 decoding of the header's second part.
\<close>

definition getBasicAuthCredentials ::
  "runtime \<Rightarrow> (string \<Rightarrow> string) \<Rightarrow> string option \<Rightarrow> (string \<times> string) option"
where
  "getBasicAuthCredentials rt b64 authorization =
     (case authorization of
        None \<Rightarrow> None
      | Some header \<Rightarrow>
          if header = [] then None
          else
            (case schemeAndToken header of
               (Some scheme, Some encoded) \<Rightarrow>
                 if toLowerCase rt scheme \<noteq> ''basic'' \<or> encoded = [] then None
                 else
                   (let decoded = b64 encoded
                    in case indexOf CHR '':'' decoded of
                         None \<Rightarrow> None
                       | Some separator \<Rightarrow>
                           if separator \<le> 0 then None
                           else Some (take separator decoded, drop (separator + 1) decoded))
             | _ \<Rightarrow> None))"

definition getAuthenticatedBasicUsername ::
  "runtime \<Rightarrow> (string \<Rightarrow> string) \<Rightarrow> string option \<Rightarrow> BasicAuthPolicy \<Rightarrow> string option"
where
  "getAuthenticatedBasicUsername rt b64 authorization policy =
     (if \<not> basic_enabled policy \<or> basic_username policy = None \<or> basic_username policy = Some []
         \<or> basic_password policy = None
      then None
      else
        (case getBasicAuthCredentials rt b64 authorization of
           None \<Rightarrow> None
         | Some (name, pass) \<Rightarrow>
             if Some name \<noteq> basic_username policy then None
             else if Some pass \<noteq> basic_password policy then None
             else Some name))"

text \<open>\<^verbatim>\<open>producerByToken\<close> is the list of the map's entries, each token once.\<close>

definition resolveIngestProducerId ::
  "runtime \<Rightarrow> (string \<Rightarrow> string) \<Rightarrow> string option \<Rightarrow> BasicAuthPolicy
    \<Rightarrow> (string \<times> string) list \<Rightarrow> string option"
where
  "resolveIngestProducerId rt b64 authorization basicAuth producerByToken =
     (case getAuthenticatedBasicUsername rt b64 authorization basicAuth of
        Some basicUsername \<Rightarrow>
          if basicUsername \<noteq> [] then Some basicUsername
          else (case getAuthorizationToken rt authorization of
                  None \<Rightarrow> None
                | Some token \<Rightarrow> map_of producerByToken token)
      | None \<Rightarrow>
          (case getAuthorizationToken rt authorization of
             None \<Rightarrow> None
           | Some token \<Rightarrow> map_of producerByToken token))"

section \<open>Ingest (usecases/ingest.ts, the \<^verbatim>\<open>/api/ingest\<close> branch of handleRequest.ts)\<close>

text \<open>\<^verbatim>\<open>/^[A-Za-z0-9][A-Za-z0-9._-]{0,127}$/\<close>\<close>

definition isAlphaNum :: "char \<Rightarrow> bool" where
  "isAlphaNum c \<longleftrightarrow>
     (CHR ''A'' \<le> c \<and> c \<le> CHR ''Z'') \<or> (CHR ''a'' \<le> c \<and> c \<le> CHR ''z'')
     \<or> (CHR ''0'' \<le> c \<and> c \<le> CHR ''9'')"

definition PRODUCER_ID_PATTERN :: "string \<Rightarrow> bool" where
  "PRODUCER_ID_PATTERN s =
     (case s of
        [] \<Rightarrow> False
      | c # cs \<Rightarrow>
          isAlphaNum c
          \<and> list_all (\<lambda>x. isAlphaNum x \<or> x = CHR ''.'' \<or> x = CHR ''_'' \<or> x = CHR ''-'') cs
          \<and> length cs \<le> 127)"

text \<open>The loop of \<^verbatim>\<open>parseIngestProducerMappings\<close> over the trimmed, non-empty entries.\<close>

fun addMappings ::
  "runtime \<Rightarrow> string list \<Rightarrow> (string \<times> string) list
    \<Rightarrow> config_error + (string \<times> string) list"
where
  "addMappings rt [] mappings = Inr mappings"
| "addMappings rt (entry # rest) mappings =
     (case indexOf CHR ''='' entry of
        None \<Rightarrow> Inl (InvalidMapping entry)
      | Some separatorIndex \<Rightarrow>
          if separatorIndex \<le> 0 \<or> separatorIndex = length entry - 1 then Inl (InvalidMapping entry)
          else
            (let token = trim rt (take separatorIndex entry);
                 producerId = trim rt (drop (separatorIndex + 1) entry)
             in if token = [] \<or> producerId = [] then Inl (InvalidMapping entry)
                else if \<not> PRODUCER_ID_PATTERN producerId then Inl (InvalidProducerId producerId)
                else if map_of mappings token \<noteq> None then Inl DuplicateToken
                else addMappings rt rest (mappings @ [(token, producerId)])))"

definition parseIngestProducerMappings ::
  "runtime \<Rightarrow> string option \<Rightarrow> config_error + (string \<times> string) list"
where
  "parseIngestProducerMappings rt v =
     (case v of
        None \<Rightarrow> Inr []
      | Some s \<Rightarrow>
          if trim rt s = [] then Inr []
          else addMappings rt (filter (\<lambda>entry. length entry > 0)
                                (map (trim rt) (split_str CHR '','' s))) [])"

text \<open>
  Assigning \<^verbatim>\<open>record.key = v\<close>: an existing property keeps its place, a new one goes
  last.
\<close>

definition setProperty :: "(string \<times> json) list \<Rightarrow> string \<Rightarrow> json \<Rightarrow> (string \<times> json) list" where
  "setProperty props key v =
     (if key \<in> fst ` set props
      then map (\<lambda>(k, old). if k = key then (k, v) else (k, old)) props
      else props @ [(key, v)])"

definition parseIngestPayload :: "json \<Rightarrow> json list option" where
  "parseIngestPayload payload =
     (case payload of
        JArr logs \<Rightarrow> Some logs
      | JObj props \<Rightarrow> (case map_of props ''logs'' of Some (JArr logs) \<Rightarrow> Some logs | _ \<Rightarrow> None)
      | _ \<Rightarrow> None)"

definition normalizeIngestRecord :: "json \<Rightarrow> string \<Rightarrow> string \<Rightarrow> json option" where
  "normalizeIngestRecord v producerId receivedAt =
     (case v of
        JObj props \<Rightarrow>
          Some (JObj (setProperty (setProperty props ''producerId'' (JStr producerId))
                        ''ingestedAt'' (JStr receivedAt)))
      | _ \<Rightarrow> None)"

text \<open>
  \<^verbatim>\<open>path.join\<close> on an absolute first part: the parts are joined with the separator and
  the result is normalised, so a \<^verbatim>\<open>..\<close> segment removes the segment before it.
\<close>

fun normalizeSegments :: "string list \<Rightarrow> string list \<Rightarrow> string list" where
  "normalizeSegments [] done = rev done"
| "normalizeSegments (s # rest) done =
     (if s = [] \<or> s = ''.'' then normalizeSegments rest done
      else if s = ''..'' then normalizeSegments rest (case done of [] \<Rightarrow> [] | _ # up \<Rightarrow> up)
      else normalizeSegments rest (s # done))"

definition joinPath :: "string list \<Rightarrow> string" where
  "joinPath parts =
     concat (map (\<lambda>s. ''/'' @ s)
       (normalizeSegments (concat (map (split_str CHR ''/'') parts)) []))"

text \<open>The file \<^verbatim>\<open>writeIngestBatch\<close> appends to, for a resolved logs path and a day label.\<close>

definition ingestTargetFile :: "string \<Rightarrow> string \<Rightarrow> string \<Rightarrow> string" where
  "ingestTargetFile resolvedLogsPath producerId dayLabel =
     joinPath [joinPath [resolvedLogsPath, ''ingest'', producerId], dayLabel @ ''.ndjson'']"

datatype body_error = PayloadTooLarge | InvalidJsonPayload

text \<open>
  \<^verbatim>\<open>readJsonBody\<close> on the bytes of the request body, which are decoded once all of
  them are in.
\<close>

definition readJsonBody :: "runtime \<Rightarrow> string \<Rightarrow> nat \<Rightarrow> body_error + json" where
  "readJsonBody rt body maxBodyBytes =
     (if length body > maxBodyBytes then Inl PayloadTooLarge
      else
        (let raw = trim rt (utf8_decode rt body)
         in if raw = [] then Inr (JArr [])
            else (case json_parse rt raw of None \<Rightarrow> Inl InvalidJsonPayload | Some v \<Rightarrow> Inr v)))"

record IngestQueueItem =
  producerId :: string
  records :: "json list"

record IngestResponse =
  accepted :: nat
  queued :: bool
  response_producerId :: string
  receivedAt :: string
  rejected :: nat

datatype response_body = ErrorBody string | IngestBody IngestResponse

text \<open>What the branch reads of the request context and of the request.\<close>

record IngestContext =
  ingestAuthEnabled :: bool
  maxBodyBytes :: nat
  producerByToken :: "(string \<times> string) list"
  basicAuth :: BasicAuthPolicy
  queueEnabled :: bool

record IngestRequest =
  authorization :: "string option"
  requestBody :: string

text \<open>The \<^verbatim>\<open>for (const log of logs)\<close> loop: the accepted records and the count of rejected ones.\<close>

fun normalizeAll :: "json list \<Rightarrow> string \<Rightarrow> string \<Rightarrow> json list \<times> nat" where
  "normalizeAll [] producer receivedNow = ([], 0)"
| "normalizeAll (item # logs) producer receivedNow =
     (let (acceptedRest, rejectedRest) = normalizeAll logs producer receivedNow
      in case normalizeIngestRecord item producer receivedNow of
           None \<Rightarrow> (acceptedRest, rejectedRest + 1)
         | Some normalized \<Rightarrow> (normalized # acceptedRest, rejectedRest))"

text \<open>
  The \<^verbatim>\<open>/api/ingest\<close> branch: the status, the body, and the batch that is handed to the
  queue (status 202) or written and indexed at once (status 200), when a record was
  accepted. \<open>receivedNow\<close> is the clock reading taken for the batch.
\<close>

definition handleIngest ::
  "runtime \<Rightarrow> (string \<Rightarrow> string) \<Rightarrow> IngestContext \<Rightarrow> string \<Rightarrow> IngestRequest
    \<Rightarrow> int \<times> response_body \<times> IngestQueueItem option"
where
  "handleIngest rt b64 ctx receivedNow req =
     (if \<not> ingestAuthEnabled ctx \<and> \<not> basic_enabled (basicAuth ctx)
      then (404, ErrorBody ''Ingest endpoint is not enabled.'', None)
      else
        (case resolveIngestProducerId rt b64 (authorization req) (basicAuth ctx) (producerByToken ctx) of
           None \<Rightarrow> (401, ErrorBody ''Unauthorized'', None)
         | Some producer \<Rightarrow>
             if producer = [] then (401, ErrorBody ''Unauthorized'', None)
             else
               (case readJsonBody rt (requestBody req) (maxBodyBytes ctx) of
                  Inl PayloadTooLarge \<Rightarrow> (413, ErrorBody ''Payload too large'', None)
                | Inl InvalidJsonPayload \<Rightarrow> (400, ErrorBody ''Invalid JSON payload.'', None)
                | Inr payload \<Rightarrow>
                    (case parseIngestPayload payload of
                       None \<Rightarrow> (400, ErrorBody ''Invalid ingest payload.'', None)
                     | Some logs \<Rightarrow>
                         (let (acceptedRecords, rejectedCount) = normalizeAll logs producer receivedNow;
                              isQueued = (acceptedRecords \<noteq> [] \<and> queueEnabled ctx)
                          in (if isQueued then 202 else 200,
                              IngestBody \<lparr>accepted = length acceptedRecords, queued = isQueued,
                                          response_producerId = producer, receivedAt = receivedNow,
                                          rejected = rejectedCount\<rparr>,
                              if acceptedRecords \<noteq> []
                              then Some \<lparr>producerId = producer, records = acceptedRecords\<rparr>
                              else None))))))"

text \<open>
  A payload element with the value of its claimed \<^verbatim>\<open>producerId\<close> blanked: two elements
  that agree after this differ in nothing but the claim.
\<close>

definition eraseClaim :: "json \<Rightarrow> json" where
  "eraseClaim v =
     (case v of
        JObj props \<Rightarrow> JObj (map (\<lambda>(k, old). (k, if k = ''producerId'' then JNull else old)) props)
      | _ \<Rightarrow> v)"

text \<open>
  A server with basic auth for the user \<^verbatim>\<open>..\<close> and no token mappings, and the decoding
  of the one \<^verbatim>\<open>Authorization\<close> header the example sends.
\<close>

definition dotdot_policy :: BasicAuthPolicy where
  "dotdot_policy = \<lparr>basic_enabled = True, basic_password = Some ''pw'', basic_username = Some ''..''\<rparr>"

definition example_b64 :: "string \<Rightarrow> string" where
  "example_b64 encoded = (if encoded = ''Li46cHc='' then ''..:pw'' else [])"

text \<open>
  A server with the mapping \<^verbatim>\<open>tokenA=frontend-web\<close>, and two requests with that token
  whose one record differs in the \<^verbatim>\<open>producerId\<close> it claims. The parser below is
  \<^verbatim>\<open>JSON.parse\<close> on these two bodies.
\<close>

definition spoofed_body :: string where
  \<open>spoofed_body = ''[{"producerId":"spoofed","level":"INFO","event":"x"},7]''\<close>

definition honest_body :: string where
  \<open>honest_body = ''[{"producerId":"frontend-web","level":"INFO","event":"x"},7]''\<close>

definition ingest_parse :: "string \<Rightarrow> json option" where
  "ingest_parse s =
     (if s = spoofed_body
      then Some (JArr [JObj [(''producerId'', JStr ''spoofed''), (''level'', JStr ''INFO''),
                             (''event'', JStr ''x'')], JNum 7])
      else if s = honest_body
      then Some (JArr [JObj [(''producerId'', JStr ''frontend-web''), (''level'', JStr ''INFO''),
                             (''event'', JStr ''x'')], JNum 7])
      else None)"

definition ingest_runtime :: runtime where
  "ingest_runtime = example_runtime\<lparr>json_parse := ingest_parse\<rparr>"

definition token_context :: IngestContext where
  "token_context =
     \<lparr>ingestAuthEnabled = True, maxBodyBytes = 1048576,
      producerByToken = [(''tokenA'', ''frontend-web'')],
      basicAuth = \<lparr>basic_enabled = False, basic_password = None, basic_username = None\<rparr>,
      queueEnabled = False\<rparr>"

definition spoofed_request :: IngestRequest where
  "spoofed_request = \<lparr>authorization = Some ''Bearer tokenA'', requestBody = spoofed_body\<rparr>"

definition honest_request :: IngestRequest where
  "honest_request = \<lparr>authorization = Some ''Bearer tokenA'', requestBody = honest_body\<rparr>"

text \<open>The context of that server, and a request with the credentials of the user \<^verbatim>\<open>..\<close>.\<close>

definition dotdot_context :: IngestContext where
  "dotdot_context =
     \<lparr>ingestAuthEnabled = False, maxBodyBytes = 1048576, producerByToken = [],
      basicAuth = dotdot_policy, queueEnabled = False\<rparr>"

definition dotdot_request :: IngestRequest where
  "dotdot_request = \<lparr>authorization = Some ''Basic Li46cHc='', requestBody = honest_body\<rparr>"

text \<open>The segments that normalising a path drops or resolves.\<close>

definition special_segment :: "string \<Rightarrow> bool" where
  "special_segment s \<longleftrightarrow> s = [] \<or> s = ''.'' \<or> s = ''..''"

chapter \<open>Verification\<close>

section \<open>Verification: normalising a record\<close>

lemma normalizeEvent_nonempty: "normalizeEvent record \<noteq> []"
  by (auto simp: normalizeEvent_def nonEmptyString_def
        split: option.splits json.splits if_splits)

lemma normalizeLevel_cases:
  "normalizeLevel rt v =
     (case nonEmptyString v of Some s \<Rightarrow> toUpperCase rt s | None \<Rightarrow> ''INFO'')"
  by (auto simp: normalizeLevel_def nonEmptyString_def split: option.splits json.splits)

lemma normalizeTimestamp_cases:
  "normalizeTimestamp now v = (case nonEmptyString v of Some s \<Rightarrow> s | None \<Rightarrow> now)"
  by (auto simp: normalizeTimestamp_def nonEmptyString_def split: option.splits json.splits)

text \<open>
  Claim C7, as amended. For a parsed record, the entry passed to the store has: as
  \<^verbatim>\<open>timestamp\<close> the record's value whenever that is a non-empty string, be it a date or
  not, and the current clock reading when the value is missing, empty or not a string; as
  \<^verbatim>\<open>level\<close> the record's value upper-cased when that is a non-empty string and \<^verbatim>\<open>INFO\<close>
  otherwise, which is not empty as upper-casing makes no non-empty string empty; as
  \<^verbatim>\<open>event\<close> a non-empty string, the record's \<^verbatim>\<open>event\<close> when that is a non-empty string,
  else its \<^verbatim>\<open>message\<close> when that is one, else \<^verbatim>\<open>log.event\<close>; as \<^verbatim>\<open>message\<close> the value
  when it is a string, the empty string when it is missing or \<^verbatim>\<open>null\<close>, and its JSON
  serialisation otherwise.
\<close>

theorem normalized_fields:
  fixes rt :: runtime and parsed :: json and filePath sf :: string and lineNo :: nat
  defines "E \<equiv> entryInput rt filePath sf lineNo parsed"
    and "now \<equiv> current_time rt sf (int lineNo)"
  shows
  "(\<forall>s. property parsed ''timestamp'' = Some (JStr s) \<and> s \<noteq> [] \<longrightarrow> timestamp E = s)
   \<and> (property parsed ''timestamp'' = None \<or> property parsed ''timestamp'' = Some (JStr [])
        \<or> (\<forall>s. property parsed ''timestamp'' \<noteq> Some (JStr s)) \<longrightarrow> timestamp E = now)
   \<and> (\<forall>s. property parsed ''level'' = Some (JStr s) \<and> s \<noteq> [] \<longrightarrow> level E = toUpperCase rt s)
   \<and> (property parsed ''level'' = None \<or> property parsed ''level'' = Some (JStr [])
        \<or> (\<forall>s. property parsed ''level'' \<noteq> Some (JStr s)) \<longrightarrow> level E = ''INFO'')
   \<and> ((\<forall>s. s \<noteq> [] \<longrightarrow> toUpperCase rt s \<noteq> []) \<longrightarrow> level E \<noteq> [])
   \<and> event E \<noteq> []
   \<and> (\<forall>e. nonEmptyString (property parsed ''event'') = Some e \<longrightarrow> event E = e)
   \<and> (\<forall>m. nonEmptyString (property parsed ''event'') = None
          \<and> nonEmptyString (property parsed ''message'') = Some m \<longrightarrow> event E = m)
   \<and> (nonEmptyString (property parsed ''event'') = None
          \<and> nonEmptyString (property parsed ''message'') = None \<longrightarrow> event E = ''log.event'')
   \<and> (\<forall>s. property parsed ''message'' = Some (JStr s) \<longrightarrow> message E = s)
   \<and> (property parsed ''message'' = None \<or> property parsed ''message'' = Some JNull
          \<longrightarrow> message E = [])
   \<and> (\<forall>v. property parsed ''message'' = Some v \<and> v \<noteq> JNull \<and> (\<forall>s. v \<noteq> JStr s)
          \<longrightarrow> message E = json_stringify rt v)"
proof -
  have ts: "timestamp E = normalizeTimestamp now (property parsed ''timestamp'')"
    and lv: "level E = normalizeLevel rt (property parsed ''level'')"
    and ev: "event E = normalizeEvent parsed"
    and ms: "message E = normalizeMessage rt (property parsed ''message'')"
    by (simp_all add: E_def now_def entryInput_def)
  have absent: "nonEmptyString v = None"
    if "v = None \<or> v = Some (JStr []) \<or> (\<forall>s. v \<noteq> Some (JStr s))" for v
    using that by (auto simp: nonEmptyString_def split: option.splits json.splits)
  have 1: "\<forall>s. property parsed ''timestamp'' = Some (JStr s) \<and> s \<noteq> [] \<longrightarrow> timestamp E = s"
    by (simp add: ts normalizeTimestamp_def)
  have 2: "property parsed ''timestamp'' = None \<or> property parsed ''timestamp'' = Some (JStr [])
        \<or> (\<forall>s. property parsed ''timestamp'' \<noteq> Some (JStr s)) \<longrightarrow> timestamp E = now"
    using absent[of "property parsed ''timestamp''"] by (auto simp: ts normalizeTimestamp_cases)
  have 3: "\<forall>s. property parsed ''level'' = Some (JStr s) \<and> s \<noteq> [] \<longrightarrow> level E = toUpperCase rt s"
    by (simp add: lv normalizeLevel_def)
  have 4: "property parsed ''level'' = None \<or> property parsed ''level'' = Some (JStr [])
        \<or> (\<forall>s. property parsed ''level'' \<noteq> Some (JStr s)) \<longrightarrow> level E = ''INFO''"
    using absent[of "property parsed ''level''"] by (auto simp: lv normalizeLevel_cases)
  have 5: "(\<forall>s. s \<noteq> [] \<longrightarrow> toUpperCase rt s \<noteq> []) \<longrightarrow> level E \<noteq> []"
    by (auto simp: lv normalizeLevel_cases nonEmptyString_def
          split: option.splits json.splits if_splits)
  have 6: "event E \<noteq> []"
    unfolding ev by (rule normalizeEvent_nonempty)
  have 7: "\<forall>e. nonEmptyString (property parsed ''event'') = Some e \<longrightarrow> event E = e"
    by (simp add: ev normalizeEvent_def)
  have 8: "\<forall>m. nonEmptyString (property parsed ''event'') = None
          \<and> nonEmptyString (property parsed ''message'') = Some m \<longrightarrow> event E = m"
    by (simp add: ev normalizeEvent_def)
  have 9: "nonEmptyString (property parsed ''event'') = None
          \<and> nonEmptyString (property parsed ''message'') = None \<longrightarrow> event E = ''log.event''"
    by (simp add: ev normalizeEvent_def)
  have 10: "\<forall>s. property parsed ''message'' = Some (JStr s) \<longrightarrow> message E = s"
    by (simp add: ms normalizeMessage_def)
  have 11: "property parsed ''message'' = None \<or> property parsed ''message'' = Some JNull
          \<longrightarrow> message E = []"
    by (auto simp: ms normalizeMessage_def)
  have 12: "\<forall>v. property parsed ''message'' = Some v \<and> v \<noteq> JNull \<and> (\<forall>s. v \<noteq> JStr s)
          \<longrightarrow> message E = json_stringify rt v"
    by (auto simp: ms normalizeMessage_def split: json.splits)
  from 1 2 3 4 5 6 7 8 9 10 11 12 show ?thesis by (intro conjI) blast+
qed

text \<open>
  The claim as first stated fails on the code: a timestamp that is a string but no date is
  stored as it is, not replaced by the clock reading.
\<close>

theorem timestamp_not_validated_counterexample:
  "timestamp (entryInput example_clock_runtime ''/srv/logs/app/a.ndjson'' ''app/a.ndjson'' 5
       (JObj [(''timestamp'', JStr ''not-a-date''), (''message'', JStr ''started'')]))
     = ''not-a-date''
   \<and> current_time example_clock_runtime ''app/a.ndjson'' 5 = ''2024-05-01T10:00:00.000Z''"
  by (simp add: entryInput_def normalizeTimestamp_def property_def example_clock_runtime_def
        ascii_runtime_def)

theorem normalized_fields_witness:
  "timestamp (entryInput example_clock_runtime ''/srv/logs/app/a.ndjson'' ''app/a.ndjson'' 3
       (JObj [(''level'', JStr ''warn''), (''message'', JNum 7)])) = ''2024-05-01T10:00:00.000Z''
   \<and> level (entryInput example_clock_runtime ''/srv/logs/app/a.ndjson'' ''app/a.ndjson'' 3
       (JObj [(''level'', JStr ''warn''), (''message'', JNum 7)])) = ''WARN''
   \<and> event (entryInput example_clock_runtime ''/srv/logs/app/a.ndjson'' ''app/a.ndjson'' 3
       (JObj [(''level'', JStr ''warn''), (''message'', JNum 7)])) = ''log.event''
   \<and> message (entryInput example_clock_runtime ''/srv/logs/app/a.ndjson'' ''app/a.ndjson'' 3
       (JObj [(''level'', JStr ''warn''), (''message'', JNum 7)])) = ''7''
   \<and> timestamp (entryInput example_clock_runtime ''/srv/logs/app/a.ndjson'' ''app/a.ndjson'' 4
       (JObj [(''timestamp'', JStr ''2024-04-30T09:00:00.000Z''), (''message'', JStr ''started'')]))
       = ''2024-04-30T09:00:00.000Z''
   \<and> level (entryInput example_clock_runtime ''/srv/logs/app/a.ndjson'' ''app/a.ndjson'' 4
       (JObj [(''timestamp'', JStr ''2024-04-30T09:00:00.000Z''), (''message'', JStr ''started'')]))
       = ''INFO''
   \<and> event (entryInput example_clock_runtime ''/srv/logs/app/a.ndjson'' ''app/a.ndjson'' 4
       (JObj [(''timestamp'', JStr ''2024-04-30T09:00:00.000Z''), (''message'', JStr ''started'')]))
       = ''started''
   \<and> message (entryInput example_clock_runtime ''/srv/logs/app/a.ndjson'' ''app/a.ndjson'' 4
       (JObj [(''timestamp'', JStr ''2024-04-30T09:00:00.000Z''), (''message'', JStr ''started'')]))
       = ''started''"
proof -
  let ?rt = example_clock_runtime
  let ?a = "JObj [(''level'', JStr ''warn''), (''message'', JNum 7)]"
  let ?b = "JObj [(''timestamp'', JStr ''2024-04-30T09:00:00.000Z''), (''message'', JStr ''started'')]"
  note A = normalized_fields[where rt = ?rt and parsed = ?a
      and filePath = "''/srv/logs/app/a.ndjson''" and sf = "''app/a.ndjson''" and lineNo = 3]
  note B = normalized_fields[where rt = ?rt and parsed = ?b
      and filePath = "''/srv/logs/app/a.ndjson''" and sf = "''app/a.ndjson''" and lineNo = 4]
  have up: "toUpperCase ?rt ''warn'' = ''WARN''"
    by code_simp
  have clock: "current_time ?rt ''app/a.ndjson'' 3 = ''2024-05-01T10:00:00.000Z''"
    "json_stringify ?rt (JNum 7) = ''7''"
    by (simp_all add: example_clock_runtime_def ascii_runtime_def)
  have a1: "timestamp (entryInput ?rt ''/srv/logs/app/a.ndjson'' ''app/a.ndjson'' 3 ?a)
      = ''2024-05-01T10:00:00.000Z''"
    using A clock by (simp add: property_def)
  have a2: "level (entryInput ?rt ''/srv/logs/app/a.ndjson'' ''app/a.ndjson'' 3 ?a) = ''WARN''"
    using A up by (simp add: property_def)
  have a3: "event (entryInput ?rt ''/srv/logs/app/a.ndjson'' ''app/a.ndjson'' 3 ?a) = ''log.event''"
    using A by (simp add: property_def nonEmptyString_def)
  have a4: "message (entryInput ?rt ''/srv/logs/app/a.ndjson'' ''app/a.ndjson'' 3 ?a) = ''7''"
    using A clock by (simp add: property_def)
  have b1: "timestamp (entryInput ?rt ''/srv/logs/app/a.ndjson'' ''app/a.ndjson'' 4 ?b)
      = ''2024-04-30T09:00:00.000Z''"
    using B by (simp add: property_def)
  have b2: "level (entryInput ?rt ''/srv/logs/app/a.ndjson'' ''app/a.ndjson'' 4 ?b) = ''INFO''"
    using B by (simp add: property_def)
  have b3: "event (entryInput ?rt ''/srv/logs/app/a.ndjson'' ''app/a.ndjson'' 4 ?b) = ''started''"
    using B by (simp add: property_def nonEmptyString_def)
  have b4: "message (entryInput ?rt ''/srv/logs/app/a.ndjson'' ''app/a.ndjson'' 4 ?b) = ''started''"
    using B by (simp add: property_def)
  from a1 a2 a3 a4 b1 b2 b3 b4 show ?thesis by (intro conjI)
qed

lemma startsWith_includes: "startsWith s sub \<Longrightarrow> includes_str s sub"
  by (cases s) (auto simp: startsWith_def)

lemma startsWith_Cons: "startsWith (c # cs) (d # sub) \<longleftrightarrow> c = d \<and> startsWith cs sub"
  by (auto simp: startsWith_def)

lemma startsWith_append:
  "startsWith s (xs @ ys) \<Longrightarrow> startsWith s xs"
proof -
  assume "startsWith s (xs @ ys)"
  then have a: "take (length xs + length ys) s = xs @ ys" by (simp add: startsWith_def)
  have "take (length xs) s = take (length xs) (take (length xs + length ys) s)" by simp
  also have "\<dots> = xs" unfolding a by simp
  finally show ?thesis by (simp add: startsWith_def)
qed

lemma startsWith_prefix_audit:
  "startsWith s ''audit/'' \<Longrightarrow> startsWith s ''audit''"
  using startsWith_append[of s "''audit''" "''/''"] by simp

lemma segment_includes_audit:
  "includes_str s (sep @ ''audit'' @ sep) \<Longrightarrow> includes_str s ''audit''"
proof (induction s)
  case Nil
  then show ?case by (simp add: sep_def)
next
  case (Cons c cs)
  from Cons.prems consider "startsWith (c # cs) ''/audit/''" | "includes_str cs (sep @ ''audit'' @ sep)"
    by (auto simp: sep_def)
  then show ?case
  proof cases
    case 1
    then have "startsWith cs ''audit/''" by (simp add: startsWith_Cons)
    then have "includes_str cs ''audit''"
      by (intro startsWith_includes startsWith_prefix_audit)
    then show ?thesis by simp
  next
    case 2
    with Cons.IH show ?thesis by simp
  qed
qed




text \<open>
  The indexer does not look at the basename, which \<^verbatim>\<open>isAuditLogFile\<close> does; and a
  directory whose name only contains \<^verbatim>\<open>audit\<close> makes no audit record.
\<close>

lemma audit_basename_divergence:
  "\<not> normalizeAudit example_clock_runtime (JObj []) ''/srv/logs/Audit-2024.ndjson''
   \<and> isAuditLogFile example_clock_runtime ''/srv/logs/Audit-2024.ndjson''
   \<and> spec_is_audit example_clock_runtime (JObj []) ''/srv/logs/Audit-2024.ndjson''
   \<and> \<not> normalizeAudit example_clock_runtime (JObj []) ''/srv/audit-logs/x.ndjson''
   \<and> \<not> isAuditLogFile example_clock_runtime ''/srv/audit-logs/x.ndjson''"
  by code_simp


section \<open>Verification: the indexer\<close>

lemma find_append:
  "find P (xs @ ys) = (case find P xs of Some x \<Rightarrow> Some x | None \<Rightarrow> find P ys)"
  by (induction xs) auto

lemma upsertField_entries [simp]: "log_entries (upsertField d eid key val) = log_entries d"
  by (simp add: upsertField_def)

lemma upsertFields_entries [simp]: "log_entries (upsertFields rt eid parsed d) = log_entries d"
proof -
  have "log_entries (fold (\<lambda>(key, v) acc. if isScalar (Some v)
            then upsertField acc eid key (scalarToString rt v) else acc) kvs d) = log_entries d"
    for kvs
    by (induction kvs arbitrary: d) (auto simp: split_beta)
  then show ?thesis by (simp add: upsertFields_def)
qed

lemma selectExisting_entries:
  "log_entries d = log_entries d' \<Longrightarrow> selectExisting d sf n = selectExisting d' sf n"
  by (simp add: selectExisting_def)

lemma upsertEntry_existing:
  "selectExisting d (sourceFile input) (lineNumber input) = Some row \<Longrightarrow>
     upsertEntry d input =
       Inr (d\<lparr>sqlite_sequence := nextRowId d\<rparr>, \<lparr>entryId = row_id row, inserted = False\<rparr>)"
  by (simp add: upsertEntry_def)

lemma upsertEntry_new:
  "selectExisting d (sourceFile input) (lineNumber input) = None \<Longrightarrow>
     \<exists>d' newId. upsertEntry d input = Inr (d', \<lparr>entryId = newId, inserted = True\<rparr>)
       \<and> log_entries d' = log_entries d @
            [\<lparr>timestamp = timestamp input, level = level input, event = event input,
              message = message input, row_id = newId, is_audit = isAudit input,
              data_json = dataJson input, source_file = sourceFile input,
              line_number = lineNumber input\<rparr>]
       \<and> log_fields d' = log_fields d"
  by (simp add: upsertEntry_def Let_def)

lemma processLine_blank:
  "trim rt line = [] \<Longrightarrow> processLine rt filePath sf line n st = Inr st"
  by (simp add: processLine_def)

lemma processLine_unparsed:
  "trim rt line \<noteq> [] \<Longrightarrow> json_parse rt (trim rt line) = None \<Longrightarrow>
     processLine rt filePath sf line n st =
       Inr (st\<lparr>st_report := (st_report st)\<lparr>parseErrors := parseErrors (st_report st) + 1\<rparr>\<rparr>)"
  by (simp add: processLine_def)

lemma processLine_null:
  "trim rt line \<noteq> [] \<Longrightarrow> json_parse rt (trim rt line) = Some JNull \<Longrightarrow>
     processLine rt filePath sf line n st = Inl TypeError"
  by (simp add: processLine_def)

lemma get_prop_not_null: "parsed \<noteq> JNull \<Longrightarrow> \<exists>v. get_prop parsed key = Some v"
  by (cases parsed) auto

lemma entryInput_key [simp]:
  "sourceFile (entryInput rt filePath sf n parsed) = sf"
  "lineNumber (entryInput rt filePath sf n parsed) = n"
  by (simp_all add: entryInput_def)

lemma processLine_existing:
  assumes "trim rt line \<noteq> []" "json_parse rt (trim rt line) = Some parsed" "parsed \<noteq> JNull"
    and "selectExisting (st_db st) sf n \<noteq> None"
  shows "processLine rt filePath sf line n st =
       Inr (st\<lparr>st_db := (st_db st)\<lparr>sqlite_sequence := nextRowId (st_db st)\<rparr>,
               st_report := (st_report st)\<lparr>recordsSkipped := recordsSkipped (st_report st) + 1\<rparr>\<rparr>)"
proof -
  from assms(4) obtain row where row: "selectExisting (st_db st) sf n = Some row" by auto
  from get_prop_not_null[OF assms(3)] obtain v where v: "get_prop parsed ''timestamp'' = Some v"
    by blast
  have "upsertEntry (st_db st) (entryInput rt filePath sf n parsed)
          = Inr ((st_db st)\<lparr>sqlite_sequence := nextRowId (st_db st)\<rparr>,
                 \<lparr>entryId = row_id row, inserted = False\<rparr>)"
    by (rule upsertEntry_existing) (simp add: row)
  with assms(1,2) v show ?thesis by (simp add: processLine_def)
qed

lemma processLine_new:
  assumes "trim rt line \<noteq> []" "json_parse rt (trim rt line) = Some parsed" "parsed \<noteq> JNull"
    and "selectExisting (st_db st) sf n = None"
  shows "\<exists>d' newId. processLine rt filePath sf line n st =
       Inr (st\<lparr>st_db := d',
               st_report := (st_report st)\<lparr>recordsInserted := recordsInserted (st_report st) + 1\<rparr>\<rparr>)
     \<and> log_entries d' = log_entries (st_db st) @
            [\<lparr>timestamp = timestamp (entryInput rt filePath sf n parsed),
              level = level (entryInput rt filePath sf n parsed),
              event = event (entryInput rt filePath sf n parsed),
              message = message (entryInput rt filePath sf n parsed),
              row_id = newId,
              is_audit = isAudit (entryInput rt filePath sf n parsed),
              data_json = dataJson (entryInput rt filePath sf n parsed),
              source_file = sf, line_number = n\<rparr>]"
proof -
  from get_prop_not_null[OF assms(3)] obtain v where v: "get_prop parsed ''timestamp'' = Some v"
    by blast
  have "selectExisting (st_db st) (sourceFile (entryInput rt filePath sf n parsed))
          (lineNumber (entryInput rt filePath sf n parsed)) = None"
    using assms(4) by simp
  from upsertEntry_new[OF this] obtain d' newId where
    up: "upsertEntry (st_db st) (entryInput rt filePath sf n parsed)
           = Inr (d', \<lparr>entryId = newId, inserted = True\<rparr>)"
    and ent: "log_entries d' = log_entries (st_db st) @
            [\<lparr>timestamp = timestamp (entryInput rt filePath sf n parsed),
              level = level (entryInput rt filePath sf n parsed),
              event = event (entryInput rt filePath sf n parsed),
              message = message (entryInput rt filePath sf n parsed),
              row_id = newId,
              is_audit = isAudit (entryInput rt filePath sf n parsed),
              data_json = dataJson (entryInput rt filePath sf n parsed),
              source_file = sf, line_number = n\<rparr>]"
    by auto
  have "processLine rt filePath sf line n st =
       Inr (st\<lparr>st_db := upsertFields rt newId parsed d',
               st_report := (st_report st)\<lparr>recordsInserted := recordsInserted (st_report st) + 1\<rparr>\<rparr>)"
    using assms(1,2) v up by (simp add: processLine_def)
  moreover have "log_entries (upsertFields rt newId parsed d') = log_entries d'" by simp
  ultimately show ?thesis using ent by metis
qed

text \<open>Every outcome of a line, in one case analysis.\<close>

lemma processLine_cases:
  obtains (blank) "trim rt line = []" "processLine rt filePath sf line n st = Inr st"
  | (unparsed) "trim rt line \<noteq> []" "json_parse rt (trim rt line) = None"
      "processLine rt filePath sf line n st =
         Inr (st\<lparr>st_report := (st_report st)\<lparr>parseErrors := parseErrors (st_report st) + 1\<rparr>\<rparr>)"
  | (null) "trim rt line \<noteq> []" "json_parse rt (trim rt line) = Some JNull"
      "processLine rt filePath sf line n st = Inl TypeError"
  | (existing) parsed where "trim rt line \<noteq> []" "json_parse rt (trim rt line) = Some parsed"
      "parsed \<noteq> JNull" "selectExisting (st_db st) sf n \<noteq> None"
      "processLine rt filePath sf line n st =
         Inr (st\<lparr>st_db := (st_db st)\<lparr>sqlite_sequence := nextRowId (st_db st)\<rparr>,
                 st_report := (st_report st)\<lparr>recordsSkipped := recordsSkipped (st_report st) + 1\<rparr>\<rparr>)"
  | (new) parsed d' newId where "trim rt line \<noteq> []" "json_parse rt (trim rt line) = Some parsed"
      "parsed \<noteq> JNull" "selectExisting (st_db st) sf n = None"
      "processLine rt filePath sf line n st =
         Inr (st\<lparr>st_db := d',
               st_report := (st_report st)\<lparr>recordsInserted := recordsInserted (st_report st) + 1\<rparr>\<rparr>)"
      "log_entries d' = log_entries (st_db st) @
            [\<lparr>timestamp = timestamp (entryInput rt filePath sf n parsed),
              level = level (entryInput rt filePath sf n parsed),
              event = event (entryInput rt filePath sf n parsed),
              message = message (entryInput rt filePath sf n parsed),
              row_id = newId,
              is_audit = isAudit (entryInput rt filePath sf n parsed),
              data_json = dataJson (entryInput rt filePath sf n parsed),
              source_file = sf, line_number = n\<rparr>]"
proof (cases "trim rt line = []")
  case True
  then show ?thesis using blank processLine_blank by blast
next
  case ne: False
  show ?thesis
  proof (cases "json_parse rt (trim rt line)")
    case None
    then show ?thesis using unparsed ne processLine_unparsed by blast
  next
    case (Some parsed)
    show ?thesis
    proof (cases "parsed = JNull")
      case True
      with Some ne show ?thesis using null processLine_null by blast
    next
      case nn: False
      show ?thesis
      proof (cases "selectExisting (st_db st) sf n")
        case None
        from processLine_new[OF ne Some nn None, of filePath] obtain d' newId where
          "processLine rt filePath sf line n st =
            Inr (st\<lparr>st_db := d',
               st_report := (st_report st)\<lparr>recordsInserted := recordsInserted (st_report st) + 1\<rparr>\<rparr>)"
          "log_entries d' = log_entries (st_db st) @
            [\<lparr>timestamp = timestamp (entryInput rt filePath sf n parsed),
              level = level (entryInput rt filePath sf n parsed),
              event = event (entryInput rt filePath sf n parsed),
              message = message (entryInput rt filePath sf n parsed),
              row_id = newId,
              is_audit = isAudit (entryInput rt filePath sf n parsed),
              data_json = dataJson (entryInput rt filePath sf n parsed),
              source_file = sf, line_number = n\<rparr>]"
          by blast
        with ne Some nn None show ?thesis using new by blast
      next
        case (Some row)
        then have "selectExisting (st_db st) sf n \<noteq> None" by simp
        from processLine_existing[OF ne \<open>json_parse rt (trim rt line) = Some parsed\<close> nn this]
          ne \<open>json_parse rt (trim rt line) = Some parsed\<close> nn this
        show ?thesis using existing by blast
      qed
    qed
  qed
qed


lemma selectExisting_append:
  "selectExisting d sf n \<noteq> None \<Longrightarrow> log_entries d' = log_entries d @ added \<Longrightarrow>
     selectExisting d' sf n \<noteq> None"
  by (auto simp: selectExisting_def find_append split: option.splits)

lemma settled_append:
  "settled rt d sf n line \<Longrightarrow> log_entries d' = log_entries d @ added \<Longrightarrow>
     settled rt d' sf n line"
  unfolding settled_def using selectExisting_append by blast

lemma lines_settled_append:
  "lines_settled rt d sf n ls \<Longrightarrow> log_entries d' = log_entries d @ added \<Longrightarrow>
     lines_settled rt d' sf n ls"
  unfolding lines_settled_def using settled_append by blast

lemma lines_settled_Nil [simp]: "lines_settled rt d sf n []"
  by (simp add: lines_settled_def)

lemma lines_settled_Cons:
  "lines_settled rt d sf n (l # ls) \<longleftrightarrow>
     settled rt d sf (n + 1) l \<and> lines_settled rt d sf (n + 1) ls"
proof
  assume a: "lines_settled rt d sf n (l # ls)"
  then have "settled rt d sf (n + 0 + 1) ((l # ls) ! 0)"
    unfolding lines_settled_def by (metis length_greater_0_conv list.distinct(1))
  moreover have "settled rt d sf (n + 1 + i + 1) (ls ! i)" if "i < length ls" for i
  proof -
    from that have "Suc i < length (l # ls)" by simp
    with a have "settled rt d sf (n + Suc i + 1) ((l # ls) ! Suc i)"
      unfolding lines_settled_def by blast
    then show ?thesis by simp
  qed
  ultimately show "settled rt d sf (n + 1) l \<and> lines_settled rt d sf (n + 1) ls"
    by (simp add: lines_settled_def)
next
  assume a: "settled rt d sf (n + 1) l \<and> lines_settled rt d sf (n + 1) ls"
  show "lines_settled rt d sf n (l # ls)"
    unfolding lines_settled_def
  proof (intro allI impI)
    fix i assume "i < length (l # ls)"
    show "settled rt d sf (n + i + 1) ((l # ls) ! i)"
    proof (cases i)
      case 0
      with a show ?thesis by simp
    next
      case (Suc j)
      with \<open>i < length (l # ls)\<close> have "j < length ls" by simp
      with a have "settled rt d sf (n + 1 + j + 1) (ls ! j)"
        unfolding lines_settled_def by blast
      with Suc show ?thesis by simp
    qed
  qed
qed

text \<open>After a line is processed it is settled, and rows are only added at the end.\<close>

lemma processLine_settles:
  assumes "processLine rt filePath sf line n st = Inr st'"
  shows "settled rt (st_db st') sf n line
     \<and> (\<exists>added. log_entries (st_db st') = log_entries (st_db st) @ added)"
proof (cases rule: processLine_cases[of rt line filePath sf n st])
  case blank
  with assms show ?thesis by (simp add: settled_def)
next
  case unparsed
  with assms show ?thesis by (auto simp: settled_def)
next
  case null
  with assms show ?thesis by simp
next
  case (existing parsed)
  with assms have "log_entries (st_db st') = log_entries (st_db st)" by auto
  with existing show ?thesis by (simp add: settled_def selectExisting_def)
next
  case (new parsed d' newId)
  with assms have d: "st_db st' = d'" by auto
  have "selectExisting d' sf n \<noteq> None"
    unfolding selectExisting_def new(6) by (simp add: find_append split: option.splits)
  with new d show ?thesis by (auto simp: settled_def)
qed

lemma scanLines_settles:
  "scanLines rt filePath sf ls n st = Inr (n', st') \<Longrightarrow>
     n' = n + length ls \<and> lines_settled rt (st_db st') sf n ls
     \<and> (\<exists>added. log_entries (st_db st') = log_entries (st_db st) @ added)"
proof (induction ls arbitrary: n st)
  case Nil
  then show ?case by simp
next
  case (Cons l ls)
  let ?st0 = "st\<lparr>st_report := (st_report st)\<lparr>linesScanned := linesScanned (st_report st) + 1\<rparr>\<rparr>"
  from Cons.prems obtain st1 where
    p: "processLine rt filePath sf l (n + 1) ?st0 = Inr st1"
    and r: "scanLines rt filePath sf ls (n + 1) st1 = Inr (n', st')"
    by (auto split: sum.splits)
  from processLine_settles[OF p] obtain added1 where
    s1: "settled rt (st_db st1) sf (n + 1) l"
    and a1: "log_entries (st_db st1) = log_entries (st_db st) @ added1" by auto
  from Cons.IH[OF r] obtain added2 where
    n': "n' = n + 1 + length ls" and s2: "lines_settled rt (st_db st') sf (n + 1) ls"
    and a2: "log_entries (st_db st') = log_entries (st_db st1) @ added2" by auto
  from settled_append[OF s1 a2] s2 have "lines_settled rt (st_db st') sf n (l # ls)"
    by (simp add: lines_settled_Cons)
  moreover from a1 a2 have "log_entries (st_db st') = log_entries (st_db st) @ (added1 @ added2)"
    by simp
  ultimately show ?case using n' by auto
qed

lemma settled_entries:
  "log_entries d' = log_entries d \<Longrightarrow> settled rt d' sf n line = settled rt d sf n line"
  by (simp add: settled_def selectExisting_def)

lemma lines_settled_entries:
  "log_entries d' = log_entries d \<Longrightarrow> lines_settled rt d' sf n ls = lines_settled rt d sf n ls"
  by (simp add: lines_settled_def settled_entries[of d' d])

lemma files_settled_entries:
  "log_entries d' = log_entries d \<Longrightarrow> files_settled rt d' rootPath files = files_settled rt d rootPath files"
  by (simp add: files_settled_def lines_settled_entries[of d' d])

lemma settled_clock [simp]:
  "settled (rt\<lparr>current_time := clock\<rparr>) d sf n line = settled rt d sf n line"
  by (simp add: settled_def)

text \<open>A line that is settled changes no row and no field, under any clock.\<close>

lemma processLine_idle:
  assumes "settled rt (st_db st) sf n line"
  shows "\<exists>st'. processLine (rt\<lparr>current_time := clock\<rparr>) filePath sf line n st = Inr st'
     \<and> log_entries (st_db st') = log_entries (st_db st)
     \<and> log_fields (st_db st') = log_fields (st_db st)
     \<and> linesScanned (st_report st') = linesScanned (st_report st)
     \<and> filesScanned (st_report st') = filesScanned (st_report st)
     \<and> recordsInserted (st_report st') = recordsInserted (st_report st)
     \<and> recordsSkipped (st_report st') = recordsSkipped (st_report st) + parsedLines rt [line]
     \<and> parseErrors (st_report st') = parseErrors (st_report st) + unparsedLines rt [line]"
proof (cases rule: processLine_cases[of "rt\<lparr>current_time := clock\<rparr>" line filePath sf n st])
  case blank
  then show ?thesis by (simp add: parsedLines_def unparsedLines_def)
next
  case unparsed
  then show ?thesis by (simp add: parsedLines_def unparsedLines_def)
next
  case null
  with assms show ?thesis by (simp add: settled_def)
next
  case (existing parsed)
  then show ?thesis by (simp add: parsedLines_def unparsedLines_def)
next
  case (new parsed d' newId)
  with assms show ?thesis by (simp add: settled_def)
qed

lemma counts_Cons:
  "parsedLines rt (l # ls) = parsedLines rt [l] + parsedLines rt ls"
  "unparsedLines rt (l # ls) = unparsedLines rt [l] + unparsedLines rt ls"
  "blankLines rt (l # ls) = blankLines rt [l] + blankLines rt ls"
  by (simp_all add: parsedLines_def unparsedLines_def blankLines_def)

lemma counts_append:
  "parsedLines rt (xs @ ys) = parsedLines rt xs + parsedLines rt ys"
  "unparsedLines rt (xs @ ys) = unparsedLines rt xs + unparsedLines rt ys"
  "blankLines rt (xs @ ys) = blankLines rt xs + blankLines rt ys"
  by (simp_all add: parsedLines_def unparsedLines_def blankLines_def)

lemma counts_total:
  "parsedLines rt ls + unparsedLines rt ls + blankLines rt ls = length ls"
  by (induction ls) (auto simp: parsedLines_def unparsedLines_def blankLines_def)

lemma scanLines_idle:
  "lines_settled rt (st_db st) sf n ls \<Longrightarrow>
     \<exists>st'. scanLines (rt\<lparr>current_time := clock\<rparr>) filePath sf ls n st = Inr (n + length ls, st')
     \<and> log_entries (st_db st') = log_entries (st_db st)
     \<and> log_fields (st_db st') = log_fields (st_db st)
     \<and> linesScanned (st_report st') = linesScanned (st_report st) + length ls
     \<and> filesScanned (st_report st') = filesScanned (st_report st)
     \<and> recordsInserted (st_report st') = recordsInserted (st_report st)
     \<and> recordsSkipped (st_report st') = recordsSkipped (st_report st) + parsedLines rt ls
     \<and> parseErrors (st_report st') = parseErrors (st_report st) + unparsedLines rt ls"
proof (induction ls arbitrary: n st)
  case Nil
  then show ?case by (simp add: parsedLines_def unparsedLines_def)
next
  case (Cons l ls)
  let ?rt2 = "rt\<lparr>current_time := clock\<rparr>"
  let ?st0 = "st\<lparr>st_report := (st_report st)\<lparr>linesScanned := linesScanned (st_report st) + 1\<rparr>\<rparr>"
  from Cons.prems have s: "settled rt (st_db ?st0) sf (n + 1) l"
    and rest: "lines_settled rt (st_db st) sf (n + 1) ls"
    by (simp_all add: lines_settled_Cons)
  from processLine_idle[OF s, of clock filePath] obtain st1 where
    p: "processLine ?rt2 filePath sf l (n + 1) ?st0 = Inr st1"
    and d1: "log_entries (st_db st1) = log_entries (st_db st)"
      "log_fields (st_db st1) = log_fields (st_db st)"
    and c1: "linesScanned (st_report st1) = linesScanned (st_report st) + 1"
      "filesScanned (st_report st1) = filesScanned (st_report st)"
      "recordsInserted (st_report st1) = recordsInserted (st_report st)"
      "recordsSkipped (st_report st1) = recordsSkipped (st_report st) + parsedLines rt [l]"
      "parseErrors (st_report st1) = parseErrors (st_report st) + unparsedLines rt [l]"
    by auto
  from rest d1(1) have "lines_settled rt (st_db st1) sf (n + 1) ls"
    by (simp add: lines_settled_entries[of "st_db st1" "st_db st"])
  from Cons.IH[OF this] obtain st' where
    r: "scanLines ?rt2 filePath sf ls (n + 1) st1 = Inr (n + 1 + length ls, st')"
    and d2: "log_entries (st_db st') = log_entries (st_db st1)"
      "log_fields (st_db st') = log_fields (st_db st1)"
    and c2: "linesScanned (st_report st') = linesScanned (st_report st1) + length ls"
      "filesScanned (st_report st') = filesScanned (st_report st1)"
      "recordsInserted (st_report st') = recordsInserted (st_report st1)"
      "recordsSkipped (st_report st') = recordsSkipped (st_report st1) + parsedLines rt ls"
      "parseErrors (st_report st') = parseErrors (st_report st1) + unparsedLines rt ls"
    by auto
  have "scanLines ?rt2 filePath sf (l # ls) n st = Inr (n + length (l # ls), st')"
    using p r by simp
  with d1 d2 c1 c2 counts_Cons(1)[of rt l ls] counts_Cons(2)[of rt l ls] show ?case
    by simp
qed


lemma indexFileFull_settles:
  assumes "indexFileFull rt rootPath file st = Inr st'"
  shows "lines_settled rt (st_db st') (sourceFileOf rootPath (file_path file)) 0
            (readLines (utf8_decode rt (file_content file)))
     \<and> (\<exists>added. log_entries (st_db st') = log_entries (st_db st) @ added)"
proof -
  from assms obtain n' where
    "scanLines rt (file_path file) (sourceFileOf rootPath (file_path file))
       (readLines (utf8_decode rt (file_content file))) 0 st = Inr (n', st')"
    by (auto simp: indexFileFull_def split: sum.splits)
  from scanLines_settles[OF this] show ?thesis by simp
qed

lemma files_settled_append:
  "files_settled rt d rootPath files \<Longrightarrow> log_entries d' = log_entries d @ added \<Longrightarrow>
     files_settled rt d' rootPath files"
  unfolding files_settled_def using lines_settled_append by blast

lemma indexFiles_settles:
  "indexFiles rt rootPath files st = Inr st' \<Longrightarrow>
     files_settled rt (st_db st') rootPath files
     \<and> (\<exists>added. log_entries (st_db st') = log_entries (st_db st) @ added)"
proof (induction files arbitrary: st)
  case Nil
  then show ?case by (simp add: files_settled_def)
next
  case (Cons f fs)
  from Cons.prems obtain st1 where
    f: "indexFileFull rt rootPath f st = Inr st1"
    and r: "indexFiles rt rootPath fs st1 = Inr st'"
    by (auto split: sum.splits)
  from indexFileFull_settles[OF f] obtain added1 where
    s1: "lines_settled rt (st_db st1) (sourceFileOf rootPath (file_path f)) 0
            (readLines (utf8_decode rt (file_content f)))"
    and a1: "log_entries (st_db st1) = log_entries (st_db st) @ added1" by auto
  from Cons.IH[OF r] obtain added2 where
    s2: "files_settled rt (st_db st') rootPath fs"
    and a2: "log_entries (st_db st') = log_entries (st_db st1) @ added2" by auto
  from lines_settled_append[OF s1 a2] s2
  have "files_settled rt (st_db st') rootPath (f # fs)"
    by (simp add: files_settled_def)
  moreover from a1 a2 have "log_entries (st_db st') = log_entries (st_db st) @ (added1 @ added2)"
    by simp
  ultimately show ?case by blast
qed

lemma indexFiles_idle:
  "files_settled rt (st_db st) rootPath files \<Longrightarrow>
     \<exists>st'. indexFiles (rt\<lparr>current_time := clock\<rparr>) rootPath files st = Inr st'
     \<and> log_entries (st_db st') = log_entries (st_db st)
     \<and> log_fields (st_db st') = log_fields (st_db st)
     \<and> linesScanned (st_report st') = linesScanned (st_report st) + length (treeLines rt files)
     \<and> filesScanned (st_report st') = filesScanned (st_report st)
     \<and> recordsInserted (st_report st') = recordsInserted (st_report st)
     \<and> recordsSkipped (st_report st') = recordsSkipped (st_report st) + parsedLines rt (treeLines rt files)
     \<and> parseErrors (st_report st') = parseErrors (st_report st) + unparsedLines rt (treeLines rt files)"
proof (induction files arbitrary: st)
  case Nil
  then show ?case by (simp add: treeLines_def parsedLines_def unparsedLines_def)
next
  case (Cons f fs)
  let ?rt2 = "rt\<lparr>current_time := clock\<rparr>"
  let ?ls = "readLines (utf8_decode rt (file_content f))"
  from Cons.prems have s: "lines_settled rt (st_db st) (sourceFileOf rootPath (file_path f)) 0 ?ls"
    and rest: "files_settled rt (st_db st) rootPath fs"
    by (simp_all add: files_settled_def)
  from scanLines_idle[OF s, of clock "file_path f"] obtain st1 where
    p: "scanLines ?rt2 (file_path f) (sourceFileOf rootPath (file_path f)) ?ls 0 st
          = Inr (0 + length ?ls, st1)"
    and d1: "log_entries (st_db st1) = log_entries (st_db st)"
      "log_fields (st_db st1) = log_fields (st_db st)"
    and c1: "linesScanned (st_report st1) = linesScanned (st_report st) + length ?ls"
      "filesScanned (st_report st1) = filesScanned (st_report st)"
      "recordsInserted (st_report st1) = recordsInserted (st_report st)"
      "recordsSkipped (st_report st1) = recordsSkipped (st_report st) + parsedLines rt ?ls"
      "parseErrors (st_report st1) = parseErrors (st_report st) + unparsedLines rt ?ls"
    by auto
  from p have f: "indexFileFull ?rt2 rootPath f st = Inr st1"
    by (simp add: indexFileFull_def)
  from rest d1(1) have "files_settled rt (st_db st1) rootPath fs"
    by (simp add: files_settled_entries[of "st_db st1" "st_db st"])
  from Cons.IH[OF this] obtain st' where
    r: "indexFiles ?rt2 rootPath fs st1 = Inr st'"
    and d2: "log_entries (st_db st') = log_entries (st_db st1)"
      "log_fields (st_db st') = log_fields (st_db st1)"
    and c2: "linesScanned (st_report st') = linesScanned (st_report st1) + length (treeLines rt fs)"
      "filesScanned (st_report st') = filesScanned (st_report st1)"
      "recordsInserted (st_report st') = recordsInserted (st_report st1)"
      "recordsSkipped (st_report st') = recordsSkipped (st_report st1) + parsedLines rt (treeLines rt fs)"
      "parseErrors (st_report st') = parseErrors (st_report st1) + unparsedLines rt (treeLines rt fs)"
    by auto
  have t: "treeLines rt (f # fs) = ?ls @ treeLines rt fs" by (simp add: treeLines_def)
  have "indexFiles ?rt2 rootPath (f # fs) st = Inr st'" using f r by simp
  with d1 d2 c1 c2 show ?case
    unfolding t counts_append by simp
qed

text \<open>A query reads the rows and the fields of the store, and nothing else of it.\<close>

lemma queryPage_tables:
  assumes "log_entries d' = log_entries d" and "log_fields d' = log_fields d"
  shows "queryPage rt d' options cursor = queryPage rt d options cursor"
proof -
  have "matchesFilter rt d' options = matchesFilter rt d options"
    by (rule ext) (unfold matchesFilter_def assms(2), rule refl)
  then have "selectedRows rt d' options cursor = selectedRows rt d options cursor"
    by (simp add: selectedRows_def assms(1))
  then show ?thesis by (simp add: queryPage_def)
qed

text \<open>
  Claim C5, as amended. When a full index pass over a tree completes, a second pass over
  the same tree (the same library, any clock) completes too and leaves the rows and the
  fields of the store as they are, so every query answers as before; the counter of
  \<^verbatim>\<open>AUTOINCREMENT\<close> is all that may move. The report of the second pass has
  \<^verbatim>\<open>recordsInserted = 0\<close>, and \<^verbatim>\<open>recordsSkipped\<close> is \<^verbatim>\<open>linesScanned\<close> less
  \<^verbatim>\<open>parseErrors\<close> less the number of lines that are empty once trimmed, which are scanned
  and counted nowhere else.
\<close>

theorem full_index_idempotent:
  assumes first: "indexDirectory rt logsPath files started finished d = Inr (d1, report1)"
  shows "\<exists>d2 report2.
       indexDirectory (rt\<lparr>current_time := clock2\<rparr>) logsPath files started2 finished2 d1
         = Inr (d2, report2)
     \<and> log_entries d2 = log_entries d1 \<and> log_fields d2 = log_fields d1
     \<and> (\<forall>options cursor. queryPage rt d2 options cursor = queryPage rt d1 options cursor)
     \<and> recordsInserted report2 = 0
     \<and> linesScanned report2 = length (treeLines rt files)
     \<and> recordsSkipped report2 + parseErrors report2 + blankLines rt (treeLines rt files)
          = linesScanned report2"
proof -
  let ?rt2 = "rt\<lparr>current_time := clock2\<rparr>"
  let ?st0 = "\<lparr>st_db = d, st_report = (createReport Full started)\<lparr>filesScanned := length files\<rparr>\<rparr>"
  let ?st1 = "\<lparr>st_db = d1, st_report = (createReport Full started2)\<lparr>filesScanned := length files\<rparr>\<rparr>"
  from first obtain st where run1: "indexFiles rt logsPath files ?st0 = Inr st" and d1: "d1 = st_db st"
    by (auto simp: indexDirectory_def split: sum.splits)
  from indexFiles_settles[OF run1] d1 have "files_settled rt (st_db ?st1) logsPath files" by simp
  from indexFiles_idle[OF this, of clock2] obtain st' where
    run2: "indexFiles ?rt2 logsPath files ?st1 = Inr st'"
    and same: "log_entries (st_db st') = log_entries d1" "log_fields (st_db st') = log_fields d1"
    and c: "linesScanned (st_report st') = length (treeLines rt files)"
      "recordsInserted (st_report st') = 0"
      "recordsSkipped (st_report st') = parsedLines rt (treeLines rt files)"
      "parseErrors (st_report st') = unparsedLines rt (treeLines rt files)"
    by (auto simp: createReport_def)
  let ?report2 = "(st_report st')\<lparr>finishedAt := finished2\<rparr>"
  have "indexDirectory ?rt2 logsPath files started2 finished2 d1 = Inr (st_db st', ?report2)"
    using run2 by (simp add: indexDirectory_def)
  moreover have "\<forall>options cursor.
      queryPage rt (st_db st') options cursor = queryPage rt d1 options cursor"
    using queryPage_tables[OF same] by blast
  moreover have "recordsInserted ?report2 = 0" using c by simp
  moreover have "linesScanned ?report2 = length (treeLines rt files)" using c by simp
  moreover have "recordsSkipped ?report2 + parseErrors ?report2 + blankLines rt (treeLines rt files)
          = linesScanned ?report2"
    using c counts_total[of rt "treeLines rt files"] by simp
  ultimately show ?thesis using same by blast
qed

lemma example_first_pass:
  "indexDirectory example_runtime ''/srv/logs'' example_tree ''t0'' ''t1'' empty_database
     = Inr (example_indexed,
            \<lparr>filesScanned = 1, linesScanned = 4, recordsInserted = 2, recordsSkipped = 0,
             parseErrors = 1, startedAt = ''t0'', finishedAt = ''t1'', mode = Full\<rparr>)"
  by code_simp

lemma example_second_pass:
  "indexDirectory (example_runtime\<lparr>current_time := (\<lambda>f n. ''2024-06-01T00:00:00.000Z'')\<rparr>)
       ''/srv/logs'' example_tree ''t2'' ''t3'' example_indexed
     = Inr (example_indexed\<lparr>sqlite_sequence := 4\<rparr>,
            \<lparr>filesScanned = 1, linesScanned = 4, recordsInserted = 0, recordsSkipped = 2,
             parseErrors = 1, startedAt = ''t2'', finishedAt = ''t3'', mode = Full\<rparr>)"
  by code_simp

theorem full_index_idempotent_witness:
  "indexDirectory example_runtime ''/srv/logs'' example_tree ''t0'' ''t1'' empty_database
     = Inr (example_indexed,
            \<lparr>filesScanned = 1, linesScanned = 4, recordsInserted = 2, recordsSkipped = 0,
             parseErrors = 1, startedAt = ''t0'', finishedAt = ''t1'', mode = Full\<rparr>)
   \<and> (\<exists>d2 report2.
       indexDirectory (example_runtime\<lparr>current_time := (\<lambda>f n. ''2024-06-01T00:00:00.000Z'')\<rparr>)
         ''/srv/logs'' example_tree ''t2'' ''t3'' example_indexed = Inr (d2, report2)
     \<and> log_entries d2 = log_entries example_indexed \<and> log_fields d2 = log_fields example_indexed
     \<and> (\<forall>options cursor. queryPage example_runtime d2 options cursor
            = queryPage example_runtime example_indexed options cursor)
     \<and> recordsInserted report2 = 0
     \<and> linesScanned report2 = length (treeLines example_runtime example_tree)
     \<and> recordsSkipped report2 + parseErrors report2
          + blankLines example_runtime (treeLines example_runtime example_tree)
          = linesScanned report2)
   \<and> blankLines example_runtime (treeLines example_runtime example_tree) = 1"
proof -
  have blank: "blankLines example_runtime (treeLines example_runtime example_tree) = 1"
    by code_simp
  from full_index_idempotent[OF example_first_pass] example_first_pass blank
  show ?thesis by blast
qed

text \<open>
  The claim as first stated fails on a tree with a blank line: the second pass scans four
  lines, counts one parse error and skips two records, not three. It moves the counter of
  \<^verbatim>\<open>AUTOINCREMENT\<close> by the two ignored inserts and nothing else of the store.
\<close>

theorem full_index_skipped_counterexample:
  "indexDirectory example_runtime ''/srv/logs'' example_tree ''t0'' ''t1'' empty_database
     = Inr (example_indexed,
            \<lparr>filesScanned = 1, linesScanned = 4, recordsInserted = 2, recordsSkipped = 0,
             parseErrors = 1, startedAt = ''t0'', finishedAt = ''t1'', mode = Full\<rparr>)
   \<and> indexDirectory example_runtime ''/srv/logs'' example_tree ''t2'' ''t3'' example_indexed
     = Inr (example_indexed\<lparr>sqlite_sequence := 4\<rparr>,
            \<lparr>filesScanned = 1, linesScanned = 4, recordsInserted = 0, recordsSkipped = 2,
             parseErrors = 1, startedAt = ''t2'', finishedAt = ''t3'', mode = Full\<rparr>)
   \<and> (2::nat) \<noteq> 4 - 1"
  by code_simp

text \<open>
  Claim C4. A blank line is skipped and a line that is not JSON is counted in
  \<^verbatim>\<open>parseErrors\<close> (\<open>processLine_blank\<close>, \<open>processLine_unparsed\<close>). A line whose JSON
  value is not an object is not rejected by the code: the line \<^verbatim>\<open>42\<close> is inserted as an
  entry and counted in \<^verbatim>\<open>recordsInserted\<close>, with no parse error, and the line \<^verbatim>\<open>null\<close>
  throws a \<^verbatim>\<open>TypeError\<close> out of \<^verbatim>\<open>processLine\<close>.
\<close>

theorem processLine_non_object_line:
  "processLine example_runtime ''/srv/logs/app.ndjson'' ''app.ndjson'' ''42'' 1 fresh_state
     = Inr \<lparr>st_db =
              \<lparr>log_entries =
                 [\<lparr>timestamp = ''2024-05-01T10:00:00.000Z'', level = ''INFO'',
                   event = ''log.event'', message = [], row_id = 1, is_audit = False,
                   data_json = ''42'', source_file = ''app.ndjson'', line_number = 1\<rparr>],
               log_fields = [], sqlite_sequence = 1\<rparr>,
            st_report =
              \<lparr>filesScanned = 0, linesScanned = 0, recordsInserted = 1, recordsSkipped = 0,
               parseErrors = 0, startedAt = ''2024-05-01T10:00:00.000Z'', finishedAt = [],
               mode = Full\<rparr>\<rparr>
   \<and> processLine example_runtime ''/srv/logs/app.ndjson'' ''app.ndjson'' ''null'' 1 fresh_state
     = Inl TypeError"
  by code_simp

section \<open>Verification: incremental indexing\<close>

lemma deleteEntries_rows:
  "log_entries (fst (deleteEntriesForSourceFile d sf))
     = filter (\<lambda>row. source_file row \<noteq> sf) (log_entries d)"
  by (simp add: deleteEntriesForSourceFile_def Let_def)

lemma deleteEntries_fields:
  "log_fields (fst (deleteEntriesForSourceFile d sf))
     = filter (\<lambda>(eid, key, val).
          eid \<notin> row_id ` {row \<in> set (log_entries d). source_file row = sf}) (log_fields d)"
proof -
  have "set (map row_id (filter (\<lambda>row. source_file row = sf) (log_entries d)))
      = row_id ` {row \<in> set (log_entries d). source_file row = sf}" by auto
  then show ?thesis by (simp add: deleteEntriesForSourceFile_def Let_def)
qed

lemma processLine_rows:
  assumes "processLine rt filePath sf line n st = Inr st'"
    and "row \<in> set (log_entries (st_db st'))"
  shows "row \<in> set (log_entries (st_db st))
     \<or> (line_number row = n
         \<and> (\<exists>parsed. json_parse rt (trim rt line) = Some parsed
               \<and> stored_as (entryInput rt filePath sf n parsed) row))"
proof (cases rule: processLine_cases[of rt line filePath sf n st])
  case blank
  with assms show ?thesis by simp
next
  case unparsed
  with assms show ?thesis by auto
next
  case null
  with assms show ?thesis by simp
next
  case (existing parsed)
  with assms show ?thesis by auto
next
  case (new parsed d' newId)
  with assms(1) have d: "st_db st' = d'" by auto
  from assms(2) consider "row \<in> set (log_entries (st_db st))"
    | "row = \<lparr>timestamp = timestamp (entryInput rt filePath sf n parsed),
              level = level (entryInput rt filePath sf n parsed),
              event = event (entryInput rt filePath sf n parsed),
              message = message (entryInput rt filePath sf n parsed),
              row_id = newId,
              is_audit = isAudit (entryInput rt filePath sf n parsed),
              data_json = dataJson (entryInput rt filePath sf n parsed),
              source_file = sf, line_number = n\<rparr>"
    unfolding d new(6) by auto
  then show ?thesis
  proof cases
    case 1
    then show ?thesis by simp
  next
    case 2
    then have "line_number row = n" "stored_as (entryInput rt filePath sf n parsed) row"
      by (simp_all add: stored_as_def)
    with new(2) show ?thesis by blast
  qed
qed

lemma derived_from_first:
  assumes "line_number row = n + 1" "json_parse rt (trim rt l) = Some parsed"
    "stored_as (entryInput rt filePath sf (n + 1) parsed) row"
  shows "derived_from rt filePath sf n (l # ls) row"
  using assms by (auto simp: derived_from_def)

lemma derived_from_rest:
  assumes "derived_from rt filePath sf (n + 1) ls row"
  shows "derived_from rt filePath sf n (l # ls) row"
proof -
  from assms obtain parsed where
    b: "n + 1 < line_number row" "line_number row \<le> n + 1 + length ls"
    and p: "json_parse rt (trim rt (ls ! (line_number row - (n + 1) - 1))) = Some parsed"
    and s: "stored_as (entryInput rt filePath sf (line_number row) parsed) row"
    by (auto simp: derived_from_def)
  from b have "line_number row - n - 1 = Suc (line_number row - (n + 1) - 1)" by simp
  then have "(l # ls) ! (line_number row - n - 1) = ls ! (line_number row - (n + 1) - 1)"
    by simp
  with b p s show ?thesis unfolding derived_from_def by auto
qed

lemma scanLines_rows:
  "scanLines rt filePath sf ls n st = Inr (n', st') \<Longrightarrow>
   row \<in> set (log_entries (st_db st')) \<Longrightarrow>
     row \<in> set (log_entries (st_db st)) \<or> derived_from rt filePath sf n ls row"
proof (induction ls arbitrary: n st)
  case Nil
  then show ?case by simp
next
  case (Cons l ls)
  let ?st0 = "st\<lparr>st_report := (st_report st)\<lparr>linesScanned := linesScanned (st_report st) + 1\<rparr>\<rparr>"
  from Cons.prems(1) obtain st1 where
    p: "processLine rt filePath sf l (n + 1) ?st0 = Inr st1"
    and r: "scanLines rt filePath sf ls (n + 1) st1 = Inr (n', st')"
    by (auto split: sum.splits)
  from Cons.IH[OF r Cons.prems(2)]
  consider "row \<in> set (log_entries (st_db st1))" | "derived_from rt filePath sf (n + 1) ls row"
    by blast
  then show ?case
  proof cases
    case 1
    from processLine_rows[OF p 1] show ?thesis
      using derived_from_first[of row n rt l _ filePath sf ls] by auto
  next
    case 2
    then show ?thesis using derived_from_rest by blast
  qed
qed

lemma shouldResume_iff:
  "shouldResume (Some p) sizeNow mtimeNow \<longleftrightarrow> \<not> rewrittenInPlace (Some p) sizeNow mtimeNow"
  by (auto simp: shouldResume_def rewrittenInPlace_def)

lemma rewrittenInPlace_iff:
  "rewrittenInPlace (Some p) sizeNow mtimeNow \<longleftrightarrow>
     sizeNow < byteOffset p \<or> (sizeNow = byteOffset p \<and> mtimeNow \<noteq> checkpointMtimeMs p)"
  by (auto simp: rewrittenInPlace_def)

lemma incremental_rewritten:
  assumes "incrementalState filePath = Some p"
    and "rewrittenInPlace (Some p) (length (file_content fileStats)) (file_mtimeMs fileStats)"
  shows "indexFileIncremental rt rootPath filePath (Some fileStats) (st, incrementalState) =
     (case scanLines rt filePath (sourceFileOf rootPath filePath)
             (readLines (utf8_decode rt (file_content fileStats))) 0
             (st\<lparr>st_db := fst (deleteEntriesForSourceFile (st_db st)
                                  (sourceFileOf rootPath filePath))\<rparr>) of
        Inl e \<Rightarrow> Inl e
      | Inr (lineNo, st2) \<Rightarrow>
          Inr (st2, incrementalState(filePath \<mapsto>
                 \<lparr>byteOffset = length (utf8_decode rt (file_content fileStats)),
                  fileSize = length (file_content fileStats),
                  lastLine = lineNo, checkpointMtimeMs = file_mtimeMs fileStats\<rparr>)))"
proof (cases "scanLines rt filePath (sourceFileOf rootPath filePath)
             (readLines (utf8_decode rt (file_content fileStats))) 0
             (st\<lparr>st_db := fst (deleteEntriesForSourceFile (st_db st)
                                  (sourceFileOf rootPath filePath))\<rparr>)")
  case (Inl e)
  with assms show ?thesis
    by (simp add: indexFileIncremental_def Let_def shouldResume_iff)
next
  case (Inr res)
  then obtain lineNo st2 where "res = (lineNo, st2)" by (cases res)
  with Inr assms show ?thesis
    by (simp add: indexFileIncremental_def Let_def shouldResume_iff)
qed

lemma incremental_resumed:
  assumes "incrementalState filePath = Some p"
    and "\<not> rewrittenInPlace (Some p) (length (file_content fileStats)) (file_mtimeMs fileStats)"
  shows "indexFileIncremental rt rootPath filePath (Some fileStats) (st, incrementalState) =
     (case scanLines rt filePath (sourceFileOf rootPath filePath)
             (readLines (utf8_decode rt (drop (byteOffset p) (file_content fileStats))))
             (lastLine p) st of
        Inl e \<Rightarrow> Inl e
      | Inr (lineNo, st2) \<Rightarrow>
          Inr (st2, incrementalState(filePath \<mapsto>
                 \<lparr>byteOffset = byteOffset p
                     + length (utf8_decode rt (drop (byteOffset p) (file_content fileStats))),
                  fileSize = length (file_content fileStats),
                  lastLine = lineNo, checkpointMtimeMs = file_mtimeMs fileStats\<rparr>)))"
proof (cases "scanLines rt filePath (sourceFileOf rootPath filePath)
           (readLines (utf8_decode rt (drop (byteOffset p) (file_content fileStats))))
           (lastLine p) st")
  case (Inl e)
  with assms show ?thesis
    by (simp add: indexFileIncremental_def Let_def shouldResume_iff)
next
  case (Inr res)
  then obtain lineNo st2 where "res = (lineNo, st2)" by (cases res)
  with Inr assms show ?thesis
    by (simp add: indexFileIncremental_def Let_def shouldResume_iff)
qed

lemma incremental_first:
  assumes "incrementalState filePath = None"
  shows "indexFileIncremental rt rootPath filePath (Some fileStats) (st, incrementalState) =
     (case scanLines rt filePath (sourceFileOf rootPath filePath)
             (readLines (utf8_decode rt (file_content fileStats))) 0 st of
        Inl e \<Rightarrow> Inl e
      | Inr (lineNo, st2) \<Rightarrow>
          Inr (st2, incrementalState(filePath \<mapsto>
                 \<lparr>byteOffset = length (utf8_decode rt (file_content fileStats)),
                  fileSize = length (file_content fileStats),
                  lastLine = lineNo, checkpointMtimeMs = file_mtimeMs fileStats\<rparr>)))"
proof (cases "scanLines rt filePath (sourceFileOf rootPath filePath)
             (readLines (utf8_decode rt (file_content fileStats))) 0 st")
  case (Inl e)
  with assms show ?thesis
    by (simp add: indexFileIncremental_def Let_def shouldResume_def)
next
  case (Inr res)
  then obtain lineNo st2 where "res = (lineNo, st2)" by (cases res)
  with Inr assms show ?thesis
    by (simp add: indexFileIncremental_def Let_def shouldResume_def)
qed

lemma scanLines_keeps:
  "scanLines rt filePath sf ls n st = Inr (n', st') \<Longrightarrow>
   row \<in> set (log_entries (st_db st)) \<Longrightarrow> row \<in> set (log_entries (st_db st'))"
  using scanLines_settles[of rt filePath sf ls n st n' st'] by auto

text \<open>The rows of one source file, and what a pass does to those of the other files.\<close>

lemma selectExisting_rows:
  "selectExisting d sf n =
     find (\<lambda>row. line_number row = n) (filter (\<lambda>row. source_file row = sf) (log_entries d))"
proof -
  have "find (\<lambda>row. source_file row = sf \<and> line_number row = n) rows =
        find (\<lambda>row. line_number row = n) (filter (\<lambda>row. source_file row = sf) rows)" for rows
    by (induction rows) auto
  then show ?thesis by (simp add: selectExisting_def)
qed

lemma lines_settled_rows:
  assumes "filter (\<lambda>row. source_file row = sf) (log_entries d')
         = filter (\<lambda>row. source_file row = sf) (log_entries d)"
  shows "lines_settled rt d' sf n ls = lines_settled rt d sf n ls"
  by (simp add: lines_settled_def settled_def selectExisting_rows assms)

lemma processLine_other_rows:
  assumes "processLine rt filePath sf line n st = Inr st'" and "other \<noteq> sf"
  shows "filter (\<lambda>row. source_file row = other) (log_entries (st_db st'))
       = filter (\<lambda>row. source_file row = other) (log_entries (st_db st))"
proof (cases rule: processLine_cases[of rt line filePath sf n st])
  case blank
  with assms show ?thesis by simp
next
  case unparsed
  with assms show ?thesis by auto
next
  case null
  with assms show ?thesis by simp
next
  case (existing parsed)
  with assms show ?thesis by auto
next
  case (new parsed d' newId)
  with assms(1) have "st_db st' = d'" by auto
  with new(6) assms(2) show ?thesis by simp
qed

lemma scanLines_other_rows:
  "scanLines rt filePath sf ls n st = Inr (n', st') \<Longrightarrow> other \<noteq> sf \<Longrightarrow>
     filter (\<lambda>row. source_file row = other) (log_entries (st_db st'))
       = filter (\<lambda>row. source_file row = other) (log_entries (st_db st))"
proof (induction ls arbitrary: n st)
  case Nil
  then show ?case by simp
next
  case (Cons l ls)
  let ?st0 = "st\<lparr>st_report := (st_report st)\<lparr>linesScanned := linesScanned (st_report st) + 1\<rparr>\<rparr>"
  from Cons.prems(1) obtain st1 where
    p: "processLine rt filePath sf l (n + 1) ?st0 = Inr st1"
    and r: "scanLines rt filePath sf ls (n + 1) st1 = Inr (n', st')"
    by (auto split: sum.splits)
  from processLine_other_rows[OF p Cons.prems(2)] Cons.IH[OF r Cons.prems(2)]
  show ?case by simp
qed

lemma deleteEntries_other_rows:
  "other \<noteq> sf \<Longrightarrow>
     filter (\<lambda>row. source_file row = other) (log_entries (fst (deleteEntriesForSourceFile d sf)))
       = filter (\<lambda>row. source_file row = other) (log_entries d)"
  by (auto simp: deleteEntries_rows intro: filter_cong)

lemma indexFileIncremental_other:
  assumes run: "indexFileIncremental rt rootPath filePath stat (st, incrementalState)
                  = Inr (st', tracked)"
  shows "(other \<noteq> sourceFileOf rootPath filePath \<longrightarrow>
            filter (\<lambda>row. source_file row = other) (log_entries (st_db st'))
              = filter (\<lambda>row. source_file row = other) (log_entries (st_db st)))
       \<and> (path \<noteq> filePath \<longrightarrow> tracked path = incrementalState path)"
proof (cases stat)
  case None
  with run show ?thesis by (auto simp: indexFileIncremental_def)
next
  case (Some fileStats)
  let ?sf = "sourceFileOf rootPath filePath"
  let ?deleted = "st\<lparr>st_db := fst (deleteEntriesForSourceFile (st_db st) ?sf)\<rparr>"
  have "\<exists>ls n start n'. scanLines rt filePath ?sf ls n start = Inr (n', st')
          \<and> (start = st \<or> start = ?deleted)
          \<and> (\<forall>path. path \<noteq> filePath \<longrightarrow> tracked path = incrementalState path)"
  proof (cases "incrementalState filePath")
    case None
    note eq = incremental_first[where incrementalState = incrementalState
        and filePath = filePath and rt = rt and rootPath = rootPath and fileStats = fileStats
        and st = st, OF None]
    from run[unfolded Some eq] obtain n' cp where
      "scanLines rt filePath ?sf (readLines (utf8_decode rt (file_content fileStats))) 0 st
         = Inr (n', st')"
      and "tracked = incrementalState(filePath \<mapsto> cp)"
      by (auto split: sum.splits)
    then show ?thesis by (intro exI[of _ st] exI conjI) auto
  next
    case prev: (Some p)
    show ?thesis
    proof (cases "rewrittenInPlace (Some p) (length (file_content fileStats)) (file_mtimeMs fileStats)")
      case True
      note eq = incremental_rewritten[where incrementalState = incrementalState
          and filePath = filePath and rt = rt and rootPath = rootPath and fileStats = fileStats
          and st = st and p = p, OF prev True]
      from run[unfolded Some eq] obtain n' cp where
        "scanLines rt filePath ?sf (readLines (utf8_decode rt (file_content fileStats))) 0 ?deleted
           = Inr (n', st')"
        and "tracked = incrementalState(filePath \<mapsto> cp)"
        by (auto split: sum.splits)
      then show ?thesis by (intro exI[of _ ?deleted] exI conjI) auto
    next
      case False
      note eq = incremental_resumed[where incrementalState = incrementalState
          and filePath = filePath and rt = rt and rootPath = rootPath and fileStats = fileStats
          and st = st and p = p, OF prev False]
      from run[unfolded Some eq] obtain n' cp where
        "scanLines rt filePath ?sf
           (readLines (utf8_decode rt (drop (byteOffset p) (file_content fileStats))))
           (lastLine p) st = Inr (n', st')"
        and "tracked = incrementalState(filePath \<mapsto> cp)"
        by (auto split: sum.splits)
      then show ?thesis by (intro exI[of _ st] exI conjI) auto
    qed
  qed
  then obtain ls n start n' where scan: "scanLines rt filePath ?sf ls n start = Inr (n', st')"
    and start: "start = st \<or> start = ?deleted"
    and keep: "\<forall>path. path \<noteq> filePath \<longrightarrow> tracked path = incrementalState path"
    by blast
  show ?thesis
  proof (intro conjI impI)
    assume ne: "other \<noteq> ?sf"
    from start deleteEntries_other_rows[OF ne, of "st_db st"]
    have "filter (\<lambda>row. source_file row = other) (log_entries (st_db start))
        = filter (\<lambda>row. source_file row = other) (log_entries (st_db st))" by auto
    with scanLines_other_rows[OF scan ne]
    show "filter (\<lambda>row. source_file row = other) (log_entries (st_db st'))
              = filter (\<lambda>row. source_file row = other) (log_entries (st_db st))" by simp
  next
    assume "path \<noteq> filePath"
    with keep show "tracked path = incrementalState path" by blast
  qed
qed

lemma indexFilesIncremental_other:
  "indexFilesIncremental rt rootPath files (st, incrementalState) = Inr (st', tracked) \<Longrightarrow>
     ((\<forall>listed \<in> fst ` set files. other \<noteq> sourceFileOf rootPath listed) \<longrightarrow>
        filter (\<lambda>row. source_file row = other) (log_entries (st_db st'))
          = filter (\<lambda>row. source_file row = other) (log_entries (st_db st)))
     \<and> (path \<notin> fst ` set files \<longrightarrow> tracked path = incrementalState path)"
proof (induction files arbitrary: st incrementalState)
  case Nil
  then show ?case by simp
next
  case (Cons f fs)
  obtain filePath stat where f: "f = (filePath, stat)" by (cases f)
  from Cons.prems f obtain st1 tracked1 where
    one: "indexFileIncremental rt rootPath filePath stat (st, incrementalState) = Inr (st1, tracked1)"
    and rest: "indexFilesIncremental rt rootPath fs (st1, tracked1) = Inr (st', tracked)"
    by (auto split: sum.splits)
  note a = indexFileIncremental_other[OF one, of other path]
  note b = Cons.IH[OF rest]
  from a b f show ?case by auto
qed

lemma indexFilesIncremental_append:
  "indexFilesIncremental rt rootPath (xs @ ys) state =
     (case indexFilesIncremental rt rootPath xs state of
        Inl e \<Rightarrow> Inl e
      | Inr state1 \<Rightarrow> indexFilesIncremental rt rootPath ys state1)"
  by (induction xs arbitrary: state) (auto split: sum.splits)

lemma sourceFileOf_inj:
  assumes "startsWith p (rootPath @ sep)" "startsWith q (rootPath @ sep)"
    and "sourceFileOf rootPath p = sourceFileOf rootPath q"
  shows "p = q"
proof -
  from assms(1,2) have t: "take (length rootPath + 1) p = take (length rootPath + 1) q"
    by (simp add: startsWith_def sep_def)
  from assms have d: "drop (length rootPath + 1) p = drop (length rootPath + 1) q"
    by (simp add: sourceFileOf_def)
  have "p = take (length rootPath + 1) p @ drop (length rootPath + 1) p" by simp
  also have "\<dots> = take (length rootPath + 1) q @ drop (length rootPath + 1) q"
    by (simp only: t d)
  finally show ?thesis by simp
qed

text \<open>
  What a pass does for one listed file that has a checkpoint: \<open>sa\<close> is the state the pass
  is in when it reaches the file and \<open>sb\<close> the state it leaves it in.
\<close>

lemma pass_around_file:
  assumes listing: "distinct (map fst files)"
      "\<forall>listed \<in> fst ` set files. startsWith listed (rootPath @ sep)"
    and mem: "(filePath, stat) \<in> set files"
    and pass: "indexFilesIncremental rt rootPath files (st, incrementalState) = Inr (st', tracked)"
  shows "\<exists>sa ia sb ib.
       indexFileIncremental rt rootPath filePath stat (sa, ia) = Inr (sb, ib)
     \<and> ia filePath = incrementalState filePath
     \<and> tracked filePath = ib filePath
     \<and> filter (\<lambda>row. source_file row = sourceFileOf rootPath filePath) (log_entries (st_db sa))
         = filter (\<lambda>row. source_file row = sourceFileOf rootPath filePath) (log_entries (st_db st))
     \<and> filter (\<lambda>row. source_file row = sourceFileOf rootPath filePath) (log_entries (st_db st'))
         = filter (\<lambda>row. source_file row = sourceFileOf rootPath filePath) (log_entries (st_db sb))"
proof -
  let ?sf = "sourceFileOf rootPath filePath"
  from mem obtain before after where split: "files = before @ (filePath, stat) # after"
    by (auto dest: split_list)
  from listing(1) split have fresh: "filePath \<notin> fst ` set before" "filePath \<notin> fst ` set after"
    by auto
  have other: "?sf \<noteq> sourceFileOf rootPath listed"
    if "listed \<in> fst ` set before \<union> fst ` set after" for listed
  proof
    assume eq: "?sf = sourceFileOf rootPath listed"
    from that split have "listed \<in> fst ` set files" by auto
    with listing(2) have l: "startsWith listed (rootPath @ sep)" by blast
    from mem listing(2) have "startsWith filePath (rootPath @ sep)" by force
    from sourceFileOf_inj[OF this l eq] that fresh show False by auto
  qed
  from pass[unfolded split indexFilesIncremental_append] obtain sa ia where
    first: "indexFilesIncremental rt rootPath before (st, incrementalState) = Inr (sa, ia)"
    and more: "indexFilesIncremental rt rootPath ((filePath, stat) # after) (sa, ia)
                 = Inr (st', tracked)"
    by (auto split: sum.splits)
  from more obtain sb ib where
    one: "indexFileIncremental rt rootPath filePath stat (sa, ia) = Inr (sb, ib)"
    and last: "indexFilesIncremental rt rootPath after (sb, ib) = Inr (st', tracked)"
    by (auto split: sum.splits)
  from indexFilesIncremental_other[OF first, of ?sf filePath] other fresh(1)
  have a: "filter (\<lambda>row. source_file row = ?sf) (log_entries (st_db sa))
         = filter (\<lambda>row. source_file row = ?sf) (log_entries (st_db st))"
    "ia filePath = incrementalState filePath" by auto
  from indexFilesIncremental_other[OF last, of ?sf filePath] other fresh(2)
  have b: "filter (\<lambda>row. source_file row = ?sf) (log_entries (st_db st'))
         = filter (\<lambda>row. source_file row = ?sf) (log_entries (st_db sb))"
    "tracked filePath = ib filePath" by auto
  from one a b show ?thesis by blast
qed

lemma rows_of_source:
  assumes "filter (\<lambda>row. source_file row = sf) xs = filter (\<lambda>row. source_file row = sf) ys"
    and "row \<in> set xs" "source_file row = sf"
  shows "row \<in> set ys"
proof -
  from assms(2,3) have "row \<in> set (filter (\<lambda>row. source_file row = sf) xs)" by simp
  then have "row \<in> set (filter (\<lambda>row. source_file row = sf) ys)" by (simp only: assms(1))
  then show ?thesis by simp
qed

text \<open>
  Claim C2. For a file with a checkpoint, \<^verbatim>\<open>indexFileIncremental\<close> takes the rewrite path
  exactly when the file's size is below the checkpoint's byte offset, or equal to it with a
  modification time other than the checkpointed one: the rows (and their fields) of the
  source file are deleted and the file is scanned from offset 0 with line numbers from 1.
  Otherwise the size is at least the offset and the scan resumes at the byte offset,
  numbering lines on from the checkpoint's last line number, with nothing deleted. And so
  for a whole incremental pass over a listing of distinct files below the root: for each
  listed file with a checkpoint, after the pass, on the rewrite path every row of its
  source file is derived from a line of the new content, every line of the new content is
  settled in the store, and the checkpoint holds the byte length of the decoded new
  content and its number of lines; on the resume path the old rows of the source file are
  kept, every other row of it is derived from a line after the offset, numbered on from
  the last line number, and the checkpoint has advanced by what was read.
\<close>

theorem incremental_rewrite_detection:
  fixes rt :: runtime and fileStats :: log_file and p :: IncrementalFileState
    and rootPath filePath :: string
  defines "sf \<equiv> sourceFileOf rootPath filePath"
    and "content \<equiv> file_content fileStats"
    and "rewritten \<equiv> length (file_content fileStats) < byteOffset p
           \<or> (length (file_content fileStats) = byteOffset p
               \<and> file_mtimeMs fileStats \<noteq> checkpointMtimeMs p)"
    and "fresh \<equiv> readLines (utf8_decode rt (file_content fileStats))"
    and "rest \<equiv> readLines (utf8_decode rt (drop (byteOffset p) (file_content fileStats)))"
  assumes prev: "incrementalState filePath = Some p"
  shows
  "(rewritten
     \<longrightarrow> indexFileIncremental rt rootPath filePath (Some fileStats) (st, incrementalState) =
         (case scanLines rt filePath sf fresh 0
                 (st\<lparr>st_db := fst (deleteEntriesForSourceFile (st_db st) sf)\<rparr>) of
            Inl e \<Rightarrow> Inl e
          | Inr (lineNo, st2) \<Rightarrow>
              Inr (st2, incrementalState(filePath \<mapsto>
                     \<lparr>byteOffset = length (utf8_decode rt content),
                      fileSize = length content,
                      lastLine = lineNo, checkpointMtimeMs = file_mtimeMs fileStats\<rparr>))))
   \<and> (\<not> rewritten
     \<longrightarrow> byteOffset p \<le> length content
       \<and> indexFileIncremental rt rootPath filePath (Some fileStats) (st, incrementalState) =
         (case scanLines rt filePath sf rest (lastLine p) st of
            Inl e \<Rightarrow> Inl e
          | Inr (lineNo, st2) \<Rightarrow>
              Inr (st2, incrementalState(filePath \<mapsto>
                     \<lparr>byteOffset = byteOffset p
                         + length (utf8_decode rt (drop (byteOffset p) content)),
                      fileSize = length content,
                      lastLine = lineNo, checkpointMtimeMs = file_mtimeMs fileStats\<rparr>))))
   \<and> log_entries (fst (deleteEntriesForSourceFile (st_db st) sf))
        = filter (\<lambda>row. source_file row \<noteq> sf) (log_entries (st_db st))
   \<and> log_fields (fst (deleteEntriesForSourceFile (st_db st) sf))
        = filter (\<lambda>(eid, key, val). eid \<notin> row_id `
             {row \<in> set (log_entries (st_db st)). source_file row = sf})
            (log_fields (st_db st))
   \<and> (\<forall>d' tracked' report.
         distinct (map fst files)
         \<and> (\<forall>listed \<in> fst ` set files. startsWith listed (rootPath @ sep))
         \<and> (filePath, Some fileStats) \<in> set files
         \<and> indexDirectoryIncremental rt rootPath files started finished (d, incrementalState)
               = Inr (d', tracked', report)
       \<longrightarrow> (rewritten \<longrightarrow>
              (\<forall>row \<in> set (log_entries d').
                 source_file row = sf \<longrightarrow> derived_from rt filePath sf 0 fresh row)
              \<and> lines_settled rt d' sf 0 fresh
              \<and> tracked' filePath =
                  Some \<lparr>byteOffset = length (utf8_decode rt content),
                        fileSize = length content, lastLine = length fresh,
                        checkpointMtimeMs = file_mtimeMs fileStats\<rparr>)
           \<and> (\<not> rewritten \<longrightarrow>
              (\<forall>row \<in> set (log_entries d').
                 source_file row = sf \<longrightarrow>
                   row \<in> set (log_entries d) \<or> derived_from rt filePath sf (lastLine p) rest row)
              \<and> (\<forall>row \<in> set (log_entries d).
                   source_file row = sf \<longrightarrow> row \<in> set (log_entries d'))
              \<and> lines_settled rt d' sf (lastLine p) rest
              \<and> tracked' filePath =
                  Some \<lparr>byteOffset = byteOffset p
                            + length (utf8_decode rt (drop (byteOffset p) content)),
                        fileSize = length content, lastLine = lastLine p + length rest,
                        checkpointMtimeMs = file_mtimeMs fileStats\<rparr>))"
proof -
  have iff: "rewrittenInPlace (Some p) (length content) (file_mtimeMs fileStats) \<longleftrightarrow> rewritten"
    unfolding rewritten_def content_def by (rule rewrittenInPlace_iff)
  have A: "indexFileIncremental rt rootPath filePath (Some fileStats) (s, tracked) =
         (case scanLines rt filePath sf fresh 0
                 (s\<lparr>st_db := fst (deleteEntriesForSourceFile (st_db s) sf)\<rparr>) of
            Inl e \<Rightarrow> Inl e
          | Inr (lineNo, st2) \<Rightarrow>
              Inr (st2, tracked(filePath \<mapsto>
                     \<lparr>byteOffset = length (utf8_decode rt content),
                      fileSize = length content,
                      lastLine = lineNo, checkpointMtimeMs = file_mtimeMs fileStats\<rparr>)))"
    if "rewritten" "tracked filePath = Some p" for s tracked
    using incremental_rewritten[where incrementalState = tracked and filePath = filePath
        and p = p and fileStats = fileStats and rt = rt and rootPath = rootPath and st = s]
      that iff
    unfolding sf_def fresh_def content_def by blast
  have B: "byteOffset p \<le> length content
       \<and> indexFileIncremental rt rootPath filePath (Some fileStats) (s, tracked) =
         (case scanLines rt filePath sf rest (lastLine p) s of
            Inl e \<Rightarrow> Inl e
          | Inr (lineNo, st2) \<Rightarrow>
              Inr (st2, tracked(filePath \<mapsto>
                     \<lparr>byteOffset = byteOffset p
                         + length (utf8_decode rt (drop (byteOffset p) content)),
                      fileSize = length content,
                      lastLine = lineNo, checkpointMtimeMs = file_mtimeMs fileStats\<rparr>)))"
    if "\<not> rewritten" "tracked filePath = Some p" for s tracked
  proof -
    from that(1) have "byteOffset p \<le> length content"
      unfolding rewritten_def content_def by auto
    moreover from that(1) iff
    have "\<not> rewrittenInPlace (Some p) (length (file_content fileStats)) (file_mtimeMs fileStats)"
      unfolding content_def by blast
    note incremental_resumed[where incrementalState = tracked and filePath = filePath
        and p = p and fileStats = fileStats and rt = rt and rootPath = rootPath and st = s,
        OF that(2) this]
    ultimately show ?thesis unfolding sf_def rest_def content_def by blast
  qed
  have D1: "log_entries (fst (deleteEntriesForSourceFile (st_db s) sf))
        = filter (\<lambda>row. source_file row \<noteq> sf) (log_entries (st_db s))" for s
    by (rule deleteEntries_rows)
  have D2: "log_fields (fst (deleteEntriesForSourceFile (st_db st) sf))
        = filter (\<lambda>(eid, key, val). eid \<notin> row_id `
             {row \<in> set (log_entries (st_db st)). source_file row = sf}) (log_fields (st_db st))"
    by (rule deleteEntries_fields)
  have P: "(rewritten \<longrightarrow>
              (\<forall>row \<in> set (log_entries d').
                 source_file row = sf \<longrightarrow> derived_from rt filePath sf 0 fresh row)
              \<and> lines_settled rt d' sf 0 fresh
              \<and> tracked' filePath =
                  Some \<lparr>byteOffset = length (utf8_decode rt content),
                        fileSize = length content, lastLine = length fresh,
                        checkpointMtimeMs = file_mtimeMs fileStats\<rparr>)
           \<and> (\<not> rewritten \<longrightarrow>
              (\<forall>row \<in> set (log_entries d').
                 source_file row = sf \<longrightarrow>
                   row \<in> set (log_entries d) \<or> derived_from rt filePath sf (lastLine p) rest row)
              \<and> (\<forall>row \<in> set (log_entries d).
                   source_file row = sf \<longrightarrow> row \<in> set (log_entries d'))
              \<and> lines_settled rt d' sf (lastLine p) rest
              \<and> tracked' filePath =
                  Some \<lparr>byteOffset = byteOffset p
                            + length (utf8_decode rt (drop (byteOffset p) content)),
                        fileSize = length content, lastLine = lastLine p + length rest,
                        checkpointMtimeMs = file_mtimeMs fileStats\<rparr>)"
    if listing: "distinct (map fst files)"
        "\<forall>listed \<in> fst ` set files. startsWith listed (rootPath @ sep)"
      and mem: "(filePath, Some fileStats) \<in> set files"
      and pass: "indexDirectoryIncremental rt rootPath files started finished (d, incrementalState)
               = Inr (d', tracked', report)"
    for d' tracked' report
  proof -
    let ?st0 = "\<lparr>st_db = d,
        st_report = (createReport Incremental started)\<lparr>filesScanned := length files\<rparr>\<rparr>"
    from pass obtain st' tracked where
      run: "indexFilesIncremental rt rootPath files (?st0, incrementalState) = Inr (st', tracked)"
      and d': "d' = st_db st'"
      and t': "tracked' = (\<lambda>trackedFile. if trackedFile \<in> set (map fst files)
                                           then tracked trackedFile else None)"
      by (auto simp: indexDirectoryIncremental_def split: sum.splits)
    from mem have "filePath \<in> set (map fst files)" by force
    with t' have t: "tracked' filePath = tracked filePath" by simp
    from pass_around_file[OF listing mem run] obtain sa ia sb ib where
      one: "indexFileIncremental rt rootPath filePath (Some fileStats) (sa, ia) = Inr (sb, ib)"
      and ia: "ia filePath = Some p"
      and ib: "tracked filePath = ib filePath"
      and ra: "filter (\<lambda>row. source_file row = sf) (log_entries (st_db sa))
             = filter (\<lambda>row. source_file row = sf) (log_entries d)"
      and rb: "filter (\<lambda>row. source_file row = sf) (log_entries d')
             = filter (\<lambda>row. source_file row = sf) (log_entries (st_db sb))"
      unfolding sf_def d' using prev by auto
    show ?thesis
    proof (intro conjI impI)
      assume r: rewritten
      let ?deleted = "sa\<lparr>st_db := fst (deleteEntriesForSourceFile (st_db sa) sf)\<rparr>"
      from one[unfolded A[of ia sa, OF r ia]] obtain lineNo where
        scan: "scanLines rt filePath sf fresh 0 ?deleted = Inr (lineNo, sb)"
        and cp: "ib = ia(filePath \<mapsto>
                     \<lparr>byteOffset = length (utf8_decode rt content),
                      fileSize = length content,
                      lastLine = lineNo, checkpointMtimeMs = file_mtimeMs fileStats\<rparr>)"
        by (auto split: sum.splits)
      from scanLines_settles[OF scan] have n: "lineNo = length fresh"
        and settled: "lines_settled rt (st_db sb) sf 0 fresh" by auto
      show "\<forall>row \<in> set (log_entries d').
                 source_file row = sf \<longrightarrow> derived_from rt filePath sf 0 fresh row"
      proof (intro ballI impI)
        fix row assume "row \<in> set (log_entries d')" and s: "source_file row = sf"
        from rows_of_source[OF rb this] have "row \<in> set (log_entries (st_db sb))" .
        from scanLines_rows[OF scan this] s D1[of sa]
        show "derived_from rt filePath sf 0 fresh row" by auto
      qed
      from settled show "lines_settled rt d' sf 0 fresh"
        by (simp only: lines_settled_rows[OF rb])
      from t ib cp n show "tracked' filePath =
                  Some \<lparr>byteOffset = length (utf8_decode rt content),
                        fileSize = length content, lastLine = length fresh,
                        checkpointMtimeMs = file_mtimeMs fileStats\<rparr>" by simp
    next
      assume r: "\<not> rewritten"
      from one B[of ia sa, OF r ia] obtain lineNo where
        scan: "scanLines rt filePath sf rest (lastLine p) sa = Inr (lineNo, sb)"
        and cp: "ib = ia(filePath \<mapsto>
                     \<lparr>byteOffset = byteOffset p
                         + length (utf8_decode rt (drop (byteOffset p) content)),
                      fileSize = length content,
                      lastLine = lineNo, checkpointMtimeMs = file_mtimeMs fileStats\<rparr>)"
        by (auto split: sum.splits)
      from scanLines_settles[OF scan] have n: "lineNo = lastLine p + length rest"
        and settled: "lines_settled rt (st_db sb) sf (lastLine p) rest" by auto
      show "\<forall>row \<in> set (log_entries d').
                 source_file row = sf \<longrightarrow>
                   row \<in> set (log_entries d) \<or> derived_from rt filePath sf (lastLine p) rest row"
      proof (intro ballI impI)
        fix row assume "row \<in> set (log_entries d')" and s: "source_file row = sf"
        from rows_of_source[OF rb this] have "row \<in> set (log_entries (st_db sb))" .
        from scanLines_rows[OF scan this]
        consider "row \<in> set (log_entries (st_db sa))"
          | "derived_from rt filePath sf (lastLine p) rest row" by blast
        then show "row \<in> set (log_entries d) \<or> derived_from rt filePath sf (lastLine p) rest row"
        proof cases
          case 1
          from rows_of_source[OF ra 1 s] show ?thesis by simp
        next
          case 2
          then show ?thesis by simp
        qed
      qed
      show "\<forall>row \<in> set (log_entries d). source_file row = sf \<longrightarrow> row \<in> set (log_entries d')"
      proof (intro ballI impI)
        fix row assume "row \<in> set (log_entries d)" and s: "source_file row = sf"
        from rows_of_source[OF ra[symmetric] this] have "row \<in> set (log_entries (st_db sa))" .
        from scanLines_keeps[OF scan this] have "row \<in> set (log_entries (st_db sb))" .
        from rows_of_source[OF rb[symmetric] this s] show "row \<in> set (log_entries d')" .
      qed
      from settled show "lines_settled rt d' sf (lastLine p) rest"
        by (simp only: lines_settled_rows[OF rb])
      from t ib cp n show "tracked' filePath =
                  Some \<lparr>byteOffset = byteOffset p
                            + length (utf8_decode rt (drop (byteOffset p) content)),
                        fileSize = length content, lastLine = lastLine p + length rest,
                        checkpointMtimeMs = file_mtimeMs fileStats\<rparr>" by simp
    qed
  qed
  show ?thesis
  proof (intro conjI allI impI)
    assume rewritten
    from A[of incrementalState st, OF this prev] show "indexFileIncremental rt rootPath filePath (Some fileStats)
        (st, incrementalState) =
         (case scanLines rt filePath sf fresh 0
                 (st\<lparr>st_db := fst (deleteEntriesForSourceFile (st_db st) sf)\<rparr>) of
            Inl e \<Rightarrow> Inl e
          | Inr (lineNo, st2) \<Rightarrow>
              Inr (st2, incrementalState(filePath \<mapsto>
                     \<lparr>byteOffset = length (utf8_decode rt content),
                      fileSize = length content,
                      lastLine = lineNo, checkpointMtimeMs = file_mtimeMs fileStats\<rparr>)))" .
  next
    assume n: "\<not> rewritten"
    from B[of incrementalState st, OF n prev] show "byteOffset p \<le> length content" by blast
    from B[of incrementalState st, OF n prev]
    show "indexFileIncremental rt rootPath filePath (Some fileStats) (st, incrementalState) =
         (case scanLines rt filePath sf rest (lastLine p) st of
            Inl e \<Rightarrow> Inl e
          | Inr (lineNo, st2) \<Rightarrow>
              Inr (st2, incrementalState(filePath \<mapsto>
                     \<lparr>byteOffset = byteOffset p
                         + length (utf8_decode rt (drop (byteOffset p) content)),
                      fileSize = length content,
                      lastLine = lineNo, checkpointMtimeMs = file_mtimeMs fileStats\<rparr>)))"
      by blast
  next
    show "log_entries (fst (deleteEntriesForSourceFile (st_db st) sf))
        = filter (\<lambda>row. source_file row \<noteq> sf) (log_entries (st_db st))" by (rule D1)
  next
    show "log_fields (fst (deleteEntriesForSourceFile (st_db st) sf))
        = filter (\<lambda>(eid, key, val). eid \<notin> row_id `
             {row \<in> set (log_entries (st_db st)). source_file row = sf})
            (log_fields (st_db st))" by (rule D2)
  next
    fix d' tracked' report
    assume h: "distinct (map fst files)
         \<and> (\<forall>listed \<in> fst ` set files. startsWith listed (rootPath @ sep))
         \<and> (filePath, Some fileStats) \<in> set files
         \<and> indexDirectoryIncremental rt rootPath files started finished (d, incrementalState)
               = Inr (d', tracked', report)"
    then have h1: "distinct (map fst files)"
      and h2: "\<forall>listed \<in> fst ` set files. startsWith listed (rootPath @ sep)"
      and h3: "(filePath, Some fileStats) \<in> set files"
      and h4: "indexDirectoryIncremental rt rootPath files started finished (d, incrementalState)
               = Inr (d', tracked', report)" by blast+
    note res = P[OF h1 h2 h3 h4]
    {
      assume r: rewritten
      from res r show "\<forall>row \<in> set (log_entries d').
                 source_file row = sf \<longrightarrow> derived_from rt filePath sf 0 fresh row" by blast
      from res r show "lines_settled rt d' sf 0 fresh" by blast
      from res r show "tracked' filePath =
                  Some \<lparr>byteOffset = length (utf8_decode rt content),
                        fileSize = length content, lastLine = length fresh,
                        checkpointMtimeMs = file_mtimeMs fileStats\<rparr>" by blast
    }
    {
      assume r: "\<not> rewritten"
      from res r show "\<forall>row \<in> set (log_entries d').
                 source_file row = sf \<longrightarrow>
                   row \<in> set (log_entries d) \<or> derived_from rt filePath sf (lastLine p) rest row"
        by blast
      from res r show "\<forall>row \<in> set (log_entries d).
                   source_file row = sf \<longrightarrow> row \<in> set (log_entries d')" by blast
      from res r show "lines_settled rt d' sf (lastLine p) rest" by blast
      from res r show "tracked' filePath =
                  Some \<lparr>byteOffset = byteOffset p
                            + length (utf8_decode rt (drop (byteOffset p) content)),
                        fileSize = length content, lastLine = lastLine p + length rest,
                        checkpointMtimeMs = file_mtimeMs fileStats\<rparr>" by blast
    }
  qed
qed

lemma example_pass:
  "indexDirectoryIncremental example_runtime ''/srv/logs'' incremental_listing ''t0'' ''t1''
       (listing_store, incremental_checkpoints)
     = Inr (listing_result,
            (\<lambda>trackedFile. if trackedFile \<in> set (map fst incremental_listing)
               then (incremental_checkpoints
                      (''/srv/logs/app.ndjson'' \<mapsto>
                         \<lparr>byteOffset = 3, fileSize = 3, lastLine = 1, checkpointMtimeMs = 2000\<rparr>,
                       ''/srv/logs/b.ndjson'' \<mapsto>
                         \<lparr>byteOffset = 6, fileSize = 6, lastLine = 2, checkpointMtimeMs = 3000\<rparr>))
                      trackedFile
               else None),
            \<lparr>filesScanned = 2, linesScanned = 2, recordsInserted = 2, recordsSkipped = 0,
             parseErrors = 0, startedAt = ''t0'', finishedAt = ''t1'', mode = Incremental\<rparr>)"
proof -
  let ?app = "''/srv/logs/app.ndjson''" and ?b = "''/srv/logs/b.ndjson''"
  let ?st0 = "\<lparr>st_db = listing_store,
      st_report = (createReport Incremental ''t0'')\<lparr>filesScanned := 2\<rparr>\<rparr>"
  let ?cpA = "\<lparr>byteOffset = 3, fileSize = 3, lastLine = 1, checkpointMtimeMs = 2000\<rparr>"
  let ?cpB = "\<lparr>byteOffset = 6, fileSize = 6, lastLine = 2, checkpointMtimeMs = 3000\<rparr>"
  let ?st1 = "\<lparr>st_db = \<lparr>log_entries = [example_row 3 ''{}'' ''b.ndjson'' 1,
                                         example_row 4 ''{}'' ''app.ndjson'' 1],
                          log_fields = [], sqlite_sequence = 4\<rparr>,
              st_report = \<lparr>filesScanned = 2, linesScanned = 1, recordsInserted = 1,
                recordsSkipped = 0, parseErrors = 0, startedAt = ''t0'', finishedAt = [],
                mode = Incremental\<rparr>\<rparr>"
  let ?st2 = "\<lparr>st_db = listing_result,
              st_report = \<lparr>filesScanned = 2, linesScanned = 2, recordsInserted = 2,
                recordsSkipped = 0, parseErrors = 0, startedAt = ''t0'', finishedAt = [],
                mode = Incremental\<rparr>\<rparr>"
  have sfA: "sourceFileOf ''/srv/logs'' ?app = ''app.ndjson''"
    and sfB: "sourceFileOf ''/srv/logs'' ?b = ''b.ndjson''"
    by code_simp+
  have decode: "utf8_decode example_runtime = (\<lambda>bytes. bytes)"
    by (simp add: example_runtime_def ascii_runtime_def)
  have prevA: "incremental_checkpoints ?app = Some example_checkpoint"
    by (simp add: incremental_checkpoints_def)
  have rewA: "rewrittenInPlace (Some example_checkpoint) (length (file_content rewritten_file))
      (file_mtimeMs rewritten_file)"
    by (simp add: rewrittenInPlace_def rewritten_file_def example_checkpoint_def)
  have scanA: "scanLines example_runtime ?app ''app.ndjson''
      (readLines (file_content rewritten_file)) 0
      (?st0\<lparr>st_db := fst (deleteEntriesForSourceFile (st_db ?st0) ''app.ndjson'')\<rparr>)
      = Inr (1, ?st1)"
    by code_simp
  have sizeA: "length (file_content rewritten_file) = 3" "file_mtimeMs rewritten_file = 2000"
    by (simp_all add: rewritten_file_def)
  have oneA: "indexFileIncremental example_runtime ''/srv/logs'' ?app (Some rewritten_file)
      (?st0, incremental_checkpoints) = Inr (?st1, incremental_checkpoints(?app \<mapsto> ?cpA))"
    unfolding incremental_rewritten[where incrementalState = incremental_checkpoints
        and filePath = ?app and p = example_checkpoint and fileStats = rewritten_file
        and rt = example_runtime and rootPath = "''/srv/logs''" and st = ?st0, OF prevA rewA]
      sfA decode
    by (simp only: scanA sizeA) simp
  have prevB: "(incremental_checkpoints(?app \<mapsto> ?cpA)) ?b = Some grown_checkpoint"
    by (simp add: incremental_checkpoints_def)
  have resB: "\<not> rewrittenInPlace (Some grown_checkpoint) (length (file_content grown_file))
      (file_mtimeMs grown_file)"
    by (simp add: rewrittenInPlace_def grown_file_def grown_checkpoint_def)
  have scanB: "scanLines example_runtime ?b ''b.ndjson''
      (readLines (drop (byteOffset grown_checkpoint) (file_content grown_file)))
      (lastLine grown_checkpoint) ?st1 = Inr (2, ?st2)"
    by code_simp
  have sizeB: "length (file_content grown_file) = 6" "file_mtimeMs grown_file = 3000"
    "byteOffset grown_checkpoint
       + length (drop (byteOffset grown_checkpoint) (file_content grown_file)) = 6"
    by (simp_all add: grown_file_def grown_checkpoint_def)
  have oneB: "indexFileIncremental example_runtime ''/srv/logs'' ?b (Some grown_file)
      (?st1, incremental_checkpoints(?app \<mapsto> ?cpA))
      = Inr (?st2, incremental_checkpoints(?app \<mapsto> ?cpA, ?b \<mapsto> ?cpB))"
    unfolding incremental_resumed[where incrementalState = "incremental_checkpoints(?app \<mapsto> ?cpA)"
        and filePath = ?b and p = grown_checkpoint and fileStats = grown_file
        and rt = example_runtime and rootPath = "''/srv/logs''" and st = ?st1, OF prevB resB]
      sfB decode
    by (simp only: scanB sizeB) simp
  have st0: "\<lparr>st_db = listing_store,
      st_report = (createReport Incremental ''t0'')\<lparr>filesScanned := length incremental_listing\<rparr>\<rparr>
      = ?st0"
    by (simp add: incremental_listing_def)
  have run: "indexFilesIncremental example_runtime ''/srv/logs'' incremental_listing
      (?st0, incremental_checkpoints)
      = Inr (?st2, incremental_checkpoints(?app \<mapsto> ?cpA, ?b \<mapsto> ?cpB))"
    unfolding incremental_listing_def
    by (simp only: indexFilesIncremental.simps oneA oneB sum.case)
  show ?thesis
    by (simp only: indexDirectoryIncremental_def Let_def prod.case st0 run sum.case)
       (simp add: createReport_def)
qed

theorem incremental_rewrite_detection_witness:
  "length (file_content rewritten_file) < byteOffset example_checkpoint
   \<and> \<not> (length (file_content grown_file) < byteOffset grown_checkpoint
        \<or> (length (file_content grown_file) = byteOffset grown_checkpoint
             \<and> file_mtimeMs grown_file \<noteq> checkpointMtimeMs grown_checkpoint))
   \<and> (case indexDirectoryIncremental example_runtime ''/srv/logs'' incremental_listing
             ''t0'' ''t1'' (listing_store, incremental_checkpoints) of
        Inl e \<Rightarrow> False
      | Inr (d', tracked', report) \<Rightarrow>
          d' = listing_result
          \<and> tracked' ''/srv/logs/app.ndjson''
               = Some \<lparr>byteOffset = 3, fileSize = 3, lastLine = 1, checkpointMtimeMs = 2000\<rparr>
          \<and> tracked' ''/srv/logs/b.ndjson''
               = Some \<lparr>byteOffset = 6, fileSize = 6, lastLine = 2, checkpointMtimeMs = 3000\<rparr>)
   \<and> derived_from example_runtime ''/srv/logs/app.ndjson'' ''app.ndjson'' 0
        (readLines (utf8_decode example_runtime (file_content rewritten_file)))
        (example_row 4 ''{}'' ''app.ndjson'' 1)
   \<and> lines_settled example_runtime listing_result ''app.ndjson'' 0
        (readLines (utf8_decode example_runtime (file_content rewritten_file)))
   \<and> derived_from example_runtime ''/srv/logs/b.ndjson'' ''b.ndjson'' 1
        (readLines (utf8_decode example_runtime (drop 3 (file_content grown_file))))
        (example_row 5 ''42'' ''b.ndjson'' 2)
   \<and> example_row 3 ''{}'' ''b.ndjson'' 1 \<in> set (log_entries listing_result)"
proof -
  let ?app = "''/srv/logs/app.ndjson''" and ?b = "''/srv/logs/b.ndjson''"
  let ?tracked = "\<lambda>trackedFile. if trackedFile \<in> set (map fst incremental_listing)
               then (incremental_checkpoints
                      (''/srv/logs/app.ndjson'' \<mapsto>
                         \<lparr>byteOffset = 3, fileSize = 3, lastLine = 1, checkpointMtimeMs = 2000\<rparr>,
                       ''/srv/logs/b.ndjson'' \<mapsto>
                         \<lparr>byteOffset = 6, fileSize = 6, lastLine = 2, checkpointMtimeMs = 3000\<rparr>))
                      trackedFile
               else None"
  let ?report = "\<lparr>filesScanned = 2, linesScanned = 2, recordsInserted = 2, recordsSkipped = 0,
             parseErrors = 0, startedAt = ''t0'', finishedAt = ''t1'', mode = Incremental\<rparr>"
  have sfA: "sourceFileOf ''/srv/logs'' ?app = ''app.ndjson''"
    and sfB: "sourceFileOf ''/srv/logs'' ?b = ''b.ndjson''"
    by code_simp+
  have prevA: "incremental_checkpoints ?app = Some example_checkpoint"
    and prevB: "incremental_checkpoints ?b = Some grown_checkpoint"
    by (simp_all add: incremental_checkpoints_def)
  have rew: "length (file_content rewritten_file) < byteOffset example_checkpoint"
    by (simp add: rewritten_file_def example_checkpoint_def)
  have res: "\<not> (length (file_content grown_file) < byteOffset grown_checkpoint
        \<or> (length (file_content grown_file) = byteOffset grown_checkpoint
             \<and> file_mtimeMs grown_file \<noteq> checkpointMtimeMs grown_checkpoint))"
    by (simp add: grown_file_def grown_checkpoint_def)
  have listed: "distinct (map fst incremental_listing)"
    "\<forall>listed \<in> fst ` set incremental_listing. startsWith listed (''/srv/logs'' @ sep)"
    "(?app, Some rewritten_file) \<in> set incremental_listing"
    "(?b, Some grown_file) \<in> set incremental_listing"
    by (simp_all add: incremental_listing_def startsWith_def sep_def)
  note hypA = conjI[OF listed(1) conjI[OF listed(2) conjI[OF listed(3) example_pass]]]
  note hypB = conjI[OF listed(1) conjI[OF listed(2) conjI[OF listed(4) example_pass]]]
  note A = incremental_rewrite_detection[where incrementalState = incremental_checkpoints
      and filePath = ?app and p = example_checkpoint and fileStats = rewritten_file
      and rt = example_runtime and rootPath = "''/srv/logs''" and files = incremental_listing
      and started = "''t0''" and finished = "''t1''" and d = listing_store, OF prevA,
      THEN conjunct2, THEN conjunct2, THEN conjunct2, THEN conjunct2, rule_format, OF hypA,
      THEN conjunct1, rule_format, OF disjI1[OF rew]]
  note B = incremental_rewrite_detection[where incrementalState = incremental_checkpoints
      and filePath = ?b and p = grown_checkpoint and fileStats = grown_file
      and rt = example_runtime and rootPath = "''/srv/logs''" and files = incremental_listing
      and started = "''t0''" and finished = "''t1''" and d = listing_store, OF prevB,
      THEN conjunct2, THEN conjunct2, THEN conjunct2, THEN conjunct2, rule_format, OF hypB,
      THEN conjunct2, rule_format, OF res]
  have rowA: "example_row 4 ''{}'' ''app.ndjson'' 1 \<in> set (log_entries listing_result)"
    "source_file (example_row 4 ''{}'' ''app.ndjson'' 1) = ''app.ndjson''"
    and rowB: "example_row 5 ''42'' ''b.ndjson'' 2 \<in> set (log_entries listing_result)"
    "source_file (example_row 5 ''42'' ''b.ndjson'' 2) = ''b.ndjson''"
    "example_row 5 ''42'' ''b.ndjson'' 2 \<notin> set (log_entries listing_store)"
    and old: "example_row 3 ''{}'' ''b.ndjson'' 1 \<in> set (log_entries listing_store)"
    "source_file (example_row 3 ''{}'' ''b.ndjson'' 1) = ''b.ndjson''"
    by (simp_all add: listing_result_def listing_store_def example_row_def)
  from A[unfolded sfA] rowA
  have a1: "derived_from example_runtime ?app ''app.ndjson'' 0
        (readLines (utf8_decode example_runtime (file_content rewritten_file)))
        (example_row 4 ''{}'' ''app.ndjson'' 1)"
    and a2: "lines_settled example_runtime listing_result ''app.ndjson'' 0
        (readLines (utf8_decode example_runtime (file_content rewritten_file)))"
    by blast+
  have off: "byteOffset grown_checkpoint = 3" "lastLine grown_checkpoint = 1"
    by (simp_all add: grown_checkpoint_def)
  from B[unfolded sfB off] rowB
  have b1: "derived_from example_runtime ?b ''b.ndjson'' 1
        (readLines (utf8_decode example_runtime (drop 3 (file_content grown_file))))
        (example_row 5 ''42'' ''b.ndjson'' 2)"
    by blast
  from B[unfolded sfB off] old
  have b2: "example_row 3 ''{}'' ''b.ndjson'' 1 \<in> set (log_entries listing_result)"
    by blast
  have pass: "(case indexDirectoryIncremental example_runtime ''/srv/logs'' incremental_listing
             ''t0'' ''t1'' (listing_store, incremental_checkpoints) of
        Inl e \<Rightarrow> False
      | Inr (d', tracked', report) \<Rightarrow>
          d' = listing_result
          \<and> tracked' ''/srv/logs/app.ndjson''
               = Some \<lparr>byteOffset = 3, fileSize = 3, lastLine = 1, checkpointMtimeMs = 2000\<rparr>
          \<and> tracked' ''/srv/logs/b.ndjson''
               = Some \<lparr>byteOffset = 6, fileSize = 6, lastLine = 2, checkpointMtimeMs = 3000\<rparr>)"
    unfolding example_pass by (simp add: incremental_listing_def)
  from rew res pass a1 a2 b1 b2 show ?thesis by (intro conjI)
qed

section \<open>Verification: paged queries\<close>

lemma fold_max_bounds:
  "(a::int) \<le> fold max xs a \<and> (\<forall>x \<in> set xs. x \<le> fold max xs a)"
proof (induction xs arbitrary: a)
  case Nil
  show ?case by simp
next
  case (Cons x xs)
  from Cons.IH[of "max x a"] show ?case by auto
qed

lemma nextRowId_fresh:
  "sqlite_sequence d < nextRowId d \<and> (\<forall>row \<in> set (log_entries d). row_id row < nextRowId d)"
  using fold_max_bounds[of "sqlite_sequence d" "map row_id (log_entries d)"]
  by (auto simp: nextRowId_def)

lemma empty_database_wellformed: "wellformed_ids empty_database"
  by (simp add: wellformed_ids_def empty_database_def)

lemma upsertEntry_wellformed:
  assumes "wellformed_ids d" "upsertEntry d input = Inr (d', res)"
  shows "wellformed_ids d'"
proof (cases "selectExisting d (sourceFile input) (lineNumber input)")
  case (Some row)
  with assms(2) have "log_entries d' = log_entries d" "sqlite_sequence d' = nextRowId d"
    by (auto simp: upsertEntry_def)
  with assms(1) nextRowId_fresh[of d] show ?thesis by (simp add: wellformed_ids_def)
next
  case None
  with assms(2) have e: "map row_id (log_entries d') = map row_id (log_entries d) @ [nextRowId d]"
    and s: "sqlite_sequence d' = nextRowId d"
    by (auto simp: upsertEntry_def Let_def)
  from nextRowId_fresh[of d] assms(1) have fresh: "nextRowId d \<notin> set (map row_id (log_entries d))"
    and pos: "0 < nextRowId d" by (auto simp: wellformed_ids_def)
  from assms(1) have old: "distinct (map row_id (log_entries d))"
    "\<forall>x \<in> set (map row_id (log_entries d)). 0 < x"
    by (auto simp: wellformed_ids_def)
  have 1: "distinct (map row_id (log_entries d'))"
    unfolding e using old(1) fresh by simp
  have "\<forall>x \<in> set (map row_id (log_entries d')). 0 < x"
    unfolding e using old(2) pos by simp
  then have 2: "\<forall>row \<in> set (log_entries d'). 0 < row_id row" by simp
  from 1 2 s pos show ?thesis by (simp add: wellformed_ids_def)
qed

lemma upsertField_wellformed: "wellformed_ids d \<Longrightarrow> wellformed_ids (upsertField d eid key val)"
  by (simp add: wellformed_ids_def upsertField_def)

lemma deleteEntries_wellformed:
  "wellformed_ids d \<Longrightarrow> wellformed_ids (fst (deleteEntriesForSourceFile d sf))"
  by (simp add: wellformed_ids_def deleteEntriesForSourceFile_def Let_def distinct_map_filter)

lemma js_trunc_of_int [simp]: "js_trunc (of_int n) = n"
  by (simp add: js_trunc_def)

lemma normalizeLimit_bounds:
  "1 \<le> maxLimit \<Longrightarrow> 1 \<le> normalizeLimit input fallback maxLimit \<and> normalizeLimit input fallback maxLimit \<le> maxLimit"
  by (simp add: normalizeLimit_def)

lemma resolveLimit_normalized:
  assumes "1 \<le> maxLimit"
  shows "resolveLimit (Some (of_int (normalizeLimit input fallback maxLimit))) maxLimit
     = normalizeLimit input fallback maxLimit"
proof -
  let ?n = "normalizeLimit input fallback maxLimit"
  from normalizeLimit_bounds[OF assms, of input fallback] have b: "1 \<le> ?n" "?n \<le> maxLimit" by auto
  then have "(of_int ?n :: rat) \<noteq> 0" by simp
  with b show ?thesis by (simp add: resolveLimit_def normalizeLimit_def[of "Some (of_int ?n)"])
qed

lemma matchesFilter_limit [simp]:
  "matchesFilter rt d (options\<lparr>opt_limit := x\<rparr>) = matchesFilter rt d options"
  by (rule ext) (simp add: matchesFilter_def cong: option.case_cong split del: if_split)

lemma matchesFilter_cursor [simp]:
  "matchesFilter rt d (options\<lparr>opt_cursor := x\<rparr>) = matchesFilter rt d options"
  by (rule ext) (simp add: matchesFilter_def cong: option.case_cong split del: if_split)

lemma selectedRows_limit [simp]:
  "selectedRows rt d (options\<lparr>opt_limit := x\<rparr>) cursor = selectedRows rt d options cursor"
  by (simp add: selectedRows_def)

lemma selectedRows_cursor [simp]:
  "selectedRows rt d (options\<lparr>opt_cursor := x\<rparr>) cursor = selectedRows rt d options cursor"
  by (simp add: selectedRows_def)

text \<open>The page rows are the first \<open>limit\<close> selected rows.\<close>

lemma page_rows:
  fixes selected :: "'a list" and limit :: int
  assumes "1 \<le> limit"
  defines "rows \<equiv> take (nat (limit + 1)) selected"
  shows "(if int (length rows) > limit then take (nat limit) rows else rows) = take (nat limit) selected"
    and "(int (length rows) > limit) = (int (length selected) > limit)"
proof -
  have len: "length rows = min (length selected) (nat (limit + 1))" by (simp add: rows_def)
  show m: "(int (length rows) > limit) = (int (length selected) > limit)"
    using assms(1) len by auto
  show "(if int (length rows) > limit then take (nat limit) rows else rows) = take (nat limit) selected"
  proof (cases "int (length rows) > limit")
    case True
    have "take (nat limit) rows = take (nat limit) selected"
      using assms(1) by (simp add: rows_def min_def)
    with True show ?thesis by simp
  next
    case False
    with m have "length selected \<le> nat limit" by simp
    then have "rows = selected" "take (nat limit) selected = selected" by (simp_all add: rows_def)
    with False show ?thesis by simp
  qed
qed

lemma mapRows_keys:
  "mapRows rt rows = Inr mapped \<Longrightarrow> map entry_key mapped = map row_key rows"
proof (induction rows arbitrary: mapped)
  case Nil
  then show ?case by simp
next
  case (Cons row rows)
  then show ?case
    by (auto simp: entry_key_def row_key_def split: option.splits sum.splits)
qed

lemma queryPage_unfold:
  "queryPage rt d options cursor =
     (case mapRows rt
             (if int (length (take (nat (resolveLimit (opt_limit options) 1000 + 1))
                                (selectedRows rt d options cursor)))
                   > resolveLimit (opt_limit options) 1000
              then take (nat (resolveLimit (opt_limit options) 1000))
                     (take (nat (resolveLimit (opt_limit options) 1000 + 1))
                        (selectedRows rt d options cursor))
              else take (nat (resolveLimit (opt_limit options) 1000 + 1))
                     (selectedRows rt d options cursor)) of
        Inl e \<Rightarrow> Inl e
      | Inr mapped \<Rightarrow>
          Inr (mapped,
               int (length (take (nat (resolveLimit (opt_limit options) 1000 + 1))
                                (selectedRows rt d options cursor)))
                 > resolveLimit (opt_limit options) 1000,
               resolveLimit (opt_limit options) 1000))"
  unfolding queryPage_def Let_def ..

lemma queryPage_result:
  assumes "queryPage rt d options cursor = Inr (pageEntries, moreRows, limit)"
  shows "limit = resolveLimit (opt_limit options) 1000"
    and "moreRows = (int (length (selectedRows rt d options cursor)) > limit)"
    and "map entry_key pageEntries = map row_key (take (nat limit) (selectedRows rt d options cursor))"
proof -
  define L where "L = resolveLimit (opt_limit options) 1000"
  define sel where "sel = selectedRows rt d options cursor"
  define rows where "rows = take (nat (L + 1)) sel"
  define pageRows where "pageRows = (if int (length rows) > L then take (nat L) rows else rows)"
  define flag where "flag = (int (length rows) > L)"
  have L1: "1 \<le> L" by (simp add: L_def resolveLimit_def normalizeLimit_def)
  have unfold: "queryPage rt d options cursor =
      (case mapRows rt pageRows of Inl e \<Rightarrow> Inl e | Inr mapped \<Rightarrow> Inr (mapped, flag, L))"
    unfolding queryPage_unfold pageRows_def flag_def rows_def sel_def L_def ..
  have pr: "pageRows = take (nat L) sel"
    unfolding pageRows_def rows_def by (rule page_rows(1)[OF L1])
  have fl: "flag = (int (length sel) > L)"
    unfolding flag_def rows_def by (rule page_rows(2)[OF L1])
  from assms unfold have
    c: "(case mapRows rt pageRows of Inl e \<Rightarrow> Inl e | Inr mapped \<Rightarrow> Inr (mapped, flag, L))
          = Inr (pageEntries, moreRows, limit)" by (simp only:)
  then obtain mapped where m: "mapRows rt pageRows = Inr mapped"
    by (cases "mapRows rt pageRows") simp_all
  with c have r: "pageEntries = mapped" "moreRows = flag" "limit = L" by simp_all
  show "limit = resolveLimit (opt_limit options) 1000" using r L_def by (simp only:)
  show "moreRows = (int (length (selectedRows rt d options cursor)) > limit)"
    using r fl sel_def by (simp only:)
  from mapRows_keys[OF m] pr r sel_def
  show "map entry_key pageEntries = map row_key (take (nat limit) (selectedRows rt d options cursor))"
    by (simp only:)
qed


lemma orderDesc_set [simp]: "set (orderDesc rows) = set rows"
  by (simp add: orderDesc_def)

lemma orderDesc_sorted:
  "sorted_wrt (\<lambda>a b. row_key a \<ge> row_key b) (orderDesc rows)"
proof -
  have "sorted (map row_key (sort_key row_key rows))" by (rule sorted_sort_key)
  then have "sorted_wrt (\<lambda>a b. row_key a \<le> row_key b) (sort_key row_key rows)"
    by (simp add: sorted_map)
  then show ?thesis by (simp add: orderDesc_def sorted_wrt_rev)
qed

lemma orderDesc_filter: "filter P (orderDesc rows) = orderDesc (filter P rows)"
  by (simp add: orderDesc_def filter_sort rev_filter[symmetric])

lemma orderDesc_distinct: "distinct (map row_key rows) \<Longrightarrow> distinct (map row_key (orderDesc rows))"
  by (simp add: orderDesc_def distinct_map)

lemma strict_from_distinct:
  assumes "sorted_wrt (\<lambda>a b. row_key a \<ge> row_key b) rows" "distinct (map row_key rows)"
  shows "sorted_wrt (\<lambda>a b. row_key a > row_key b) rows"
  using assms
proof (induction rows)
  case Nil
  then show ?case by simp
next
  case (Cons r rows)
  then show ?case by (auto simp: less_le image_iff)
qed

text \<open>In a strictly descending list, the rows below the one at index \<open>i\<close> are those after it.\<close>

lemma filter_below_nth:
  assumes "sorted_wrt (\<lambda>a b. row_key a > row_key b) rows" "i < length rows"
  shows "filter (\<lambda>r. row_key r < row_key (rows ! i)) rows = drop (Suc i) rows"
proof -
  have split: "rows = take i rows @ rows ! i # drop (Suc i) rows"
    using assms(2) by (rule id_take_nth_drop)
  from assms(1) have s: "sorted_wrt (\<lambda>a b. row_key a > row_key b)
      (take i rows @ rows ! i # drop (Suc i) rows)" using split by simp
  then have before: "\<forall>r \<in> set (take i rows). row_key r > row_key (rows ! i)"
    and after: "\<forall>r \<in> set (drop (Suc i) rows). row_key (rows ! i) > row_key r"
    by (auto simp: sorted_wrt_append)
  have "filter (\<lambda>r. row_key r < row_key (rows ! i)) (take i rows) = []"
    using before by (auto simp: filter_empty_conv)
  moreover have "filter (\<lambda>r. row_key r < row_key (rows ! i)) (drop (Suc i) rows) = drop (Suc i) rows"
    using after by (auto simp: filter_id_conv)
  ultimately have "filter (\<lambda>r. row_key r < row_key (rows ! i))
      (take i rows @ rows ! i # drop (Suc i) rows) = drop (Suc i) rows" by simp
  with split show ?thesis by simp
qed

lemma afterCursor_key:
  "afterCursor (Some c) row \<longleftrightarrow> row_key row < (cursor_timestamp c, cursor_id c)"
  by (auto simp: afterCursor_def row_key_def less_prod_def)

lemma selectedRows_sorted:
  "sorted_wrt (\<lambda>a b. row_key a \<ge> row_key b) (selectedRows rt d options cursor)"
  by (simp add: selectedRows_def orderDesc_sorted)

lemma selectedRows_after:
  "row \<in> set (selectedRows rt d options cursor) \<Longrightarrow>
     afterCursor cursor row \<and> matchesFilter rt d options row \<and> row \<in> set (log_entries d)"
  by (simp add: selectedRows_def)

lemma distinct_ids_keys:
  "distinct (map row_id rows) \<Longrightarrow> distinct (map row_key rows)"
  by (auto simp: distinct_map inj_on_def row_key_def)


lemma next_page_rows:
  assumes dist: "distinct (map row_id (log_entries d))"
    and i: "i < length (selectedRows rt d options cursor)"
  shows "selectedRows rt d options
           (Some \<lparr>cursor_id = row_id (selectedRows rt d options cursor ! i),
                  cursor_timestamp = timestamp (selectedRows rt d options cursor ! i)\<rparr>)
         = drop (Suc i) (selectedRows rt d options cursor)"
proof -
  define sel where "sel = selectedRows rt d options cursor"
  define e where "e = sel ! i"
  define below where "below = (\<lambda>r. row_key r < row_key e)"
  let ?match = "\<lambda>row. matchesFilter rt d options row \<and> afterCursor cursor row"
  let ?next = "Some \<lparr>cursor_id = row_id e, cursor_timestamp = timestamp e\<rparr>"
  have "distinct (log_entries d)" using dist by (simp add: distinct_map)
  then have rd: "remdups (filter ?match (log_entries d)) = filter ?match (log_entries d)"
    by (simp add: distinct_remdups_id)
  have dk: "distinct (map row_key (remdups (filter ?match (log_entries d))))"
    unfolding rd by (intro distinct_ids_keys distinct_map_filter dist)
  have strict: "sorted_wrt (\<lambda>a b. row_key a > row_key b) sel"
    unfolding sel_def selectedRows_def
    by (intro strict_from_distinct orderDesc_sorted orderDesc_distinct dk)
  from i have e_in: "e \<in> set sel" by (simp add: e_def sel_def)
  then have e_after: "afterCursor cursor e"
    using selectedRows_after[of e rt d options cursor] by (simp add: sel_def)
  have drop: "filter below sel = drop (Suc i) sel"
    unfolding below_def e_def using strict i by (intro filter_below_nth) (simp_all add: sel_def)
  have next_key: "afterCursor ?next r \<longleftrightarrow> below r" for r
    by (simp add: afterCursor_key below_def row_key_def)
  have implied: "below r \<Longrightarrow> afterCursor cursor r" for r
  proof (cases cursor)
    case None
    then show ?thesis by (simp add: afterCursor_def)
  next
    case (Some c)
    assume "below r"
    moreover from e_after Some have "row_key e < (cursor_timestamp c, cursor_id c)"
      by (simp add: afterCursor_key)
    ultimately have "row_key r < (cursor_timestamp c, cursor_id c)"
      unfolding below_def by (rule less_trans)
    with Some show ?thesis by (simp add: afterCursor_key)
  qed
  have "filter below sel
      = orderDesc (remdups (filter below (filter ?match (log_entries d))))"
    unfolding sel_def selectedRows_def by (simp add: orderDesc_filter remdups_filter)
  also have "filter below (filter ?match (log_entries d))
      = filter (\<lambda>row. matchesFilter rt d options row \<and> afterCursor ?next row) (log_entries d)"
    unfolding filter_filter
    by (rule filter_cong) (use next_key implied in auto)
  finally have "filter below sel = selectedRows rt d options ?next"
    by (simp add: selectedRows_def)
  with drop show ?thesis by (simp add: sel_def e_def)
qed

lemma decode_encode:
  "0 < cursor_id c \<Longrightarrow> decodeCursor (Some (encodeCursor c)) = Some c"
  by (simp add: decodeCursor_def encodeCursor_def property_def)

lemma queryLogsPage_result:
  assumes "queryLogsPage rt d options = Inr page"
  defines "L \<equiv> normalizeLimit (opt_limit options) 100 MAX_QUERY_LIMIT"
    and "sel \<equiv> selectedRows rt d options (decodeCursor (opt_cursor options))"
  shows "page_limit page = L" and "1 \<le> L" and "L \<le> 1000"
    and "hasMore page = (int (length sel) > L)"
    and "map entry_key (entries page) = map row_key (take (nat L) sel)"
    and "nextCursor page =
           (if hasMore page \<and> entries page \<noteq> []
            then Some (encodeCursor \<lparr>cursor_id = log_id (last (entries page)),
                                     cursor_timestamp = timestamp (last (entries page))\<rparr>)
            else None)"
proof -
  have b: "1 \<le> L" "L \<le> 1000"
    unfolding L_def MAX_QUERY_LIMIT_def using normalizeLimit_bounds[of 1000] by simp_all
  define options1 where "options1 = options\<lparr>opt_limit := Some (of_int L)\<rparr>"
  define cursor where "cursor = decodeCursor (opt_cursor options)"
  have unfold: "queryLogsPage rt d options =
      (case queryPage rt d options1 cursor of
         Inl e \<Rightarrow> Inl e
       | Inr (pageEntries, moreRows, pageLimit) \<Rightarrow>
           Inr \<lparr>entries = pageEntries, hasMore = moreRows, page_limit = pageLimit,
                nextCursor =
                  (if moreRows \<and> pageEntries \<noteq> []
                   then Some (encodeCursor \<lparr>cursor_id = log_id (last pageEntries),
                                            cursor_timestamp = timestamp (last pageEntries)\<rparr>)
                   else None)\<rparr>)"
    unfolding queryLogsPage_def Let_def options1_def cursor_def L_def ..
  from assms(1) unfold obtain pageEntries moreRows pageLimit where
    q: "queryPage rt d options1 cursor = Inr (pageEntries, moreRows, pageLimit)"
    and p: "page = \<lparr>entries = pageEntries, hasMore = moreRows, page_limit = pageLimit,
                nextCursor =
                  (if moreRows \<and> pageEntries \<noteq> []
                   then Some (encodeCursor \<lparr>cursor_id = log_id (last pageEntries),
                                            cursor_timestamp = timestamp (last pageEntries)\<rparr>)
                   else None)\<rparr>"
    by (cases "queryPage rt d options1 cursor") (auto split: prod.splits)
  have lim: "resolveLimit (opt_limit options1) 1000 = L"
    unfolding options1_def L_def MAX_QUERY_LIMIT_def
    using resolveLimit_normalized[of 1000 "opt_limit options" 100] by simp
  have sel1: "selectedRows rt d options1 cursor = sel"
    by (simp add: options1_def sel_def cursor_def)
  note r = queryPage_result[OF q]
  show "page_limit page = L" using r(1) lim p by simp
  then have pl: "pageLimit = L" using p by simp
  show "1 \<le> L" "L \<le> 1000" by (rule b)+
  show "hasMore page = (int (length sel) > L)" using r(2) sel1 pl p by simp
  show "map entry_key (entries page) = map row_key (take (nat L) sel)" using r(3) sel1 pl p by simp
  show "nextCursor page =
           (if hasMore page \<and> entries page \<noteq> []
            then Some (encodeCursor \<lparr>cursor_id = log_id (last (entries page)),
                                     cursor_timestamp = timestamp (last (entries page))\<rparr>)
            else None)" using p by simp
qed


lemma key_order:
  "entry_key a \<ge> entry_key b \<longleftrightarrow>
     timestamp a > timestamp b \<or> (timestamp a = timestamp b \<and> log_id a \<ge> log_id b)"
  by (auto simp: entry_key_def less_eq_prod_def)

text \<open>
  Claim C1. A page that the query service returns is ordered by \<open>(timestamp, id)\<close>
  descending. When the request carries a cursor, every returned entry is below it:
  its timestamp is smaller, or equal with a smaller id. The page is the first \<open>limit\<close> of
  the selected rows (the store is asked for \<open>limit + 1\<close>), \<^verbatim>\<open>hasMore\<close> says that there
  are more than \<open>limit\<close> of them, and then the page has exactly \<open>limit\<close> entries and
  \<^verbatim>\<open>nextCursor\<close> points at its last entry. In a store whose ids are distinct and positive,
  the page fetched with that \<^verbatim>\<open>nextCursor\<close> is the next \<open>limit\<close> of the selected rows:
  the two pages are adjacent and share no entry.
\<close>

theorem query_pages_ordered_and_adjacent:
  fixes rt :: runtime and d :: LogDatabase and options :: LogQueryOptions and page :: LogQueryPage
  assumes page: "queryLogsPage rt d options = Inr page"
  defines "L \<equiv> normalizeLimit (opt_limit options) 100 MAX_QUERY_LIMIT"
    and "sel \<equiv> selectedRows rt d options (decodeCursor (opt_cursor options))"
  shows
  "sorted_wrt (\<lambda>a b. timestamp a > timestamp b \<or> (timestamp a = timestamp b \<and> log_id a \<ge> log_id b))
      (entries page)
   \<and> (\<forall>c. decodeCursor (opt_cursor options) = Some c \<longrightarrow>
          (\<forall>e \<in> set (entries page).
             timestamp e < cursor_timestamp c
             \<or> (timestamp e = cursor_timestamp c \<and> log_id e < cursor_id c)))
   \<and> map entry_key (entries page) = map row_key (take (nat L) sel)
   \<and> length (entries page) \<le> nat L \<and> 1 \<le> L \<and> L \<le> 1000
   \<and> hasMore page = (int (length sel) > L)
   \<and> (hasMore page \<longrightarrow>
         length (entries page) = nat L
         \<and> nextCursor page =
             Some (encodeCursor \<lparr>cursor_id = log_id (last (entries page)),
                                 cursor_timestamp = timestamp (last (entries page))\<rparr>))
   \<and> (\<forall>page2.
         distinct (map row_id (log_entries d)) \<and> (\<forall>row \<in> set (log_entries d). 0 < row_id row)
         \<and> hasMore page
         \<and> queryLogsPage rt d (options\<lparr>opt_cursor := nextCursor page\<rparr>) = Inr page2
       \<longrightarrow> map entry_key (entries page2) = map row_key (take (nat L) (drop (nat L) sel))
           \<and> set (map log_id (entries page)) \<inter> set (map log_id (entries page2)) = {})"
proof -
  note r = queryLogsPage_result[OF page, folded L_def sel_def]
  have keys: "map entry_key (entries page) = map row_key (take (nat L) sel)" by (rule r(5))
  have len: "length (entries page) = length (take (nat L) sel)"
    using keys by (metis length_map)
  have S: "sorted_wrt (\<lambda>a b. timestamp a > timestamp b
              \<or> (timestamp a = timestamp b \<and> log_id a \<ge> log_id b)) (entries page)"
  proof -
    have "sorted_wrt (\<lambda>a b. row_key a \<ge> row_key b) (take (nat L) sel)"
      unfolding sel_def by (intro sorted_wrt_take selectedRows_sorted)
    then have "sorted_wrt (\<lambda>x y. x \<ge> y) (map row_key (take (nat L) sel))"
      by (simp add: sorted_wrt_map)
    then have "sorted_wrt (\<lambda>x y. x \<ge> y) (map entry_key (entries page))"
      by (simp only: keys)
    then have "sorted_wrt (\<lambda>a b. entry_key a \<ge> entry_key b) (entries page)"
      by (simp add: sorted_wrt_map)
    then show ?thesis by (simp only: key_order)
  qed
  have C: "\<forall>c. decodeCursor (opt_cursor options) = Some c \<longrightarrow>
          (\<forall>e \<in> set (entries page).
             timestamp e < cursor_timestamp c
             \<or> (timestamp e = cursor_timestamp c \<and> log_id e < cursor_id c))"
  proof (intro allI impI ballI)
    fix c e assume c: "decodeCursor (opt_cursor options) = Some c" and e: "e \<in> set (entries page)"
    from e have "entry_key e \<in> set (map entry_key (entries page))" by simp
    then have "entry_key e \<in> set (map row_key (take (nat L) sel))" by (simp only: keys)
    then obtain row where row: "row \<in> set sel" "row_key row = entry_key e"
      by (auto dest: in_set_takeD)
    from selectedRows_after[of row rt d options "decodeCursor (opt_cursor options)"] row(1) c
    have "afterCursor (Some c) row" by (simp add: sel_def)
    then have "entry_key e < (cursor_timestamp c, cursor_id c)"
      using row(2) by (simp add: afterCursor_key)
    then show "timestamp e < cursor_timestamp c
             \<or> (timestamp e = cursor_timestamp c \<and> log_id e < cursor_id c)"
      by (auto simp: entry_key_def less_prod_def)
  qed
  have B: "length (entries page) \<le> nat L" using len by simp
  have M: "hasMore page = (int (length sel) > L)" by (rule r(4))
  have N: "hasMore page \<longrightarrow>
         length (entries page) = nat L
         \<and> nextCursor page =
             Some (encodeCursor \<lparr>cursor_id = log_id (last (entries page)),
                                 cursor_timestamp = timestamp (last (entries page))\<rparr>)"
  proof
    assume h: "hasMore page"
    with M r(2) have "nat L < length sel" by linarith
    with len have l: "length (entries page) = nat L" by simp
    with r(2) have "entries page \<noteq> []" by auto
    with h r(6) l show "length (entries page) = nat L
         \<and> nextCursor page =
             Some (encodeCursor \<lparr>cursor_id = log_id (last (entries page)),
                                 cursor_timestamp = timestamp (last (entries page))\<rparr>)"
      by simp
  qed
  have A: "\<forall>page2.
         distinct (map row_id (log_entries d)) \<and> (\<forall>row \<in> set (log_entries d). 0 < row_id row)
         \<and> hasMore page
         \<and> queryLogsPage rt d (options\<lparr>opt_cursor := nextCursor page\<rparr>) = Inr page2
       \<longrightarrow> map entry_key (entries page2) = map row_key (take (nat L) (drop (nat L) sel))
           \<and> set (map log_id (entries page)) \<inter> set (map log_id (entries page2)) = {}"
  proof (intro allI impI)
    fix page2
    assume a: "distinct (map row_id (log_entries d)) \<and> (\<forall>row \<in> set (log_entries d). 0 < row_id row)
         \<and> hasMore page
         \<and> queryLogsPage rt d (options\<lparr>opt_cursor := nextCursor page\<rparr>) = Inr page2"
    then have dist: "distinct (map row_id (log_entries d))"
      and pos: "\<forall>row \<in> set (log_entries d). 0 < row_id row"
      and h: "hasMore page"
      and p2: "queryLogsPage rt d (options\<lparr>opt_cursor := nextCursor page\<rparr>) = Inr page2"
      by blast+
    from h M r(2) have big: "nat L < length sel" "0 < nat L" by linarith+
    define i where "i = nat L - 1"
    from big have i: "i < length sel" "Suc i = nat L" by (simp_all add: i_def)
    define e where "e = sel ! i"
    from N h have l: "length (entries page) = nat L" and ne: "entries page \<noteq> []"
      using big by auto
    have "entry_key (last (entries page)) = last (map entry_key (entries page))"
      using ne by (simp add: last_map)
    also have "\<dots> = last (map row_key (take (nat L) sel))" by (simp only: keys)
    also have "\<dots> = row_key (sel ! i)"
    proof -
      have tk: "take (nat L) sel \<noteq> []" using big by auto
      have ln: "length (take (nat L) sel) = nat L" using big by simp
      have "last (take (nat L) sel) = take (nat L) sel ! (length (take (nat L) sel) - 1)"
        using tk by (rule last_conv_nth)
      also have "\<dots> = sel ! i" unfolding ln i_def using big by simp
      finally show ?thesis using tk by (simp add: last_map)
    qed
    finally have lk: "log_id (last (entries page)) = row_id e" "timestamp (last (entries page)) = timestamp e"
      by (simp_all add: entry_key_def row_key_def e_def)
    from i have "e \<in> set sel" by (simp add: e_def)
    then have "e \<in> set (log_entries d)"
      using selectedRows_after[of e rt d options "decodeCursor (opt_cursor options)"] by (simp add: sel_def)
    with pos have epos: "0 < row_id e" by blast
    from N h lk have nc: "nextCursor page
        = Some (encodeCursor \<lparr>cursor_id = row_id e, cursor_timestamp = timestamp e\<rparr>)" by simp
    have dc: "decodeCursor (opt_cursor (options\<lparr>opt_cursor := nextCursor page\<rparr>))
        = Some \<lparr>cursor_id = row_id e, cursor_timestamp = timestamp e\<rparr>"
      using decode_encode[of "\<lparr>cursor_id = row_id e, cursor_timestamp = timestamp e\<rparr>"] epos nc
      by simp
    note r2 = queryLogsPage_result[OF p2]
    have "selectedRows rt d (options\<lparr>opt_cursor := nextCursor page\<rparr>)
            (Some \<lparr>cursor_id = row_id e, cursor_timestamp = timestamp e\<rparr>)
          = drop (Suc i) sel"
      using next_page_rows[OF dist, of i rt options "decodeCursor (opt_cursor options)"] i(1)
      by (simp add: sel_def e_def)
    with r2(5) dc i(2) have k2: "map entry_key (entries page2)
        = map row_key (take (nat L) (drop (nat L) sel))"
      by (simp add: L_def)
    have ids1: "map log_id (entries page) = map row_id (take (nat L) sel)"
    proof -
      have "map snd (map entry_key (entries page)) = map snd (map row_key (take (nat L) sel))"
        by (simp only: keys)
      then show ?thesis by (simp add: entry_key_def row_key_def comp_def)
    qed
    have ids2: "map log_id (entries page2) = map row_id (take (nat L) (drop (nat L) sel))"
    proof -
      have "map snd (map entry_key (entries page2))
          = map snd (map row_key (take (nat L) (drop (nat L) sel)))"
        by (simp only: k2)
      then show ?thesis by (simp add: entry_key_def row_key_def comp_def)
    qed
    have "distinct (log_entries d)" using dist by (simp add: distinct_map)
    then have rd: "sel = orderDesc (filter (\<lambda>row. matchesFilter rt d options row
        \<and> afterCursor (decodeCursor (opt_cursor options)) row) (log_entries d))"
      by (simp add: sel_def selectedRows_def distinct_remdups_id)
    have "distinct (map row_id (filter (\<lambda>row. matchesFilter rt d options row
        \<and> afterCursor (decodeCursor (opt_cursor options)) row) (log_entries d)))"
      by (intro distinct_map_filter dist)
    then have "distinct (filter (\<lambda>row. matchesFilter rt d options row
        \<and> afterCursor (decodeCursor (opt_cursor options)) row) (log_entries d))"
      and "inj_on row_id (set (filter (\<lambda>row. matchesFilter rt d options row
        \<and> afterCursor (decodeCursor (opt_cursor options)) row) (log_entries d)))"
      unfolding distinct_map by blast+
    then have "distinct (map row_id sel)"
      unfolding rd orderDesc_def distinct_map by simp
    then have "distinct (take (nat L) (map row_id sel) @ drop (nat L) (map row_id sel))" by simp
    then have "set (take (nat L) (map row_id sel)) \<inter> set (drop (nat L) (map row_id sel)) = {}"
      by (simp only: distinct_append)
    moreover have "set (map row_id (take (nat L) (drop (nat L) sel)))
        \<subseteq> set (drop (nat L) (map row_id sel))"
      by (auto simp: drop_map dest: in_set_takeD)
    ultimately have "set (map row_id (take (nat L) sel))
        \<inter> set (map row_id (take (nat L) (drop (nat L) sel))) = {}"
      by (auto simp: take_map)
    with k2 ids1 ids2 show "map entry_key (entries page2) = map row_key (take (nat L) (drop (nat L) sel))
           \<and> set (map log_id (entries page)) \<inter> set (map log_id (entries page2)) = {}"
      by simp
  qed
  from S C keys B r(2) r(3) M N A show ?thesis by (intro conjI)
qed

lemma example_first_page: "queryLogsPage example_runtime paged_database two_per_page = Inr first_page"
  by code_simp

lemma example_second_page: "queryLogsPage example_runtime paged_database
      (two_per_page\<lparr>opt_cursor := nextCursor first_page\<rparr>) = Inr second_page"
  by code_simp


theorem query_pages_ordered_and_adjacent_witness:
  "queryLogsPage example_runtime paged_database two_per_page = Inr first_page
   \<and> queryLogsPage example_runtime paged_database
        (two_per_page\<lparr>opt_cursor := nextCursor first_page\<rparr>) = Inr second_page
   \<and> sorted_wrt (\<lambda>a b. timestamp a > timestamp b \<or> (timestamp a = timestamp b \<and> log_id a \<ge> log_id b))
        (entries first_page)
   \<and> map log_id (entries first_page) = [2, 3]
   \<and> map log_id (entries second_page) = [1]
   \<and> (timestamp (hd (entries second_page)) < ''2024-01-02T00:00:00.000Z''
        \<or> (timestamp (hd (entries second_page)) = ''2024-01-02T00:00:00.000Z''
            \<and> log_id (hd (entries second_page)) < 3))
   \<and> map entry_key (entries second_page)
        = map row_key (take (nat (normalizeLimit (opt_limit two_per_page) 100 MAX_QUERY_LIMIT))
            (drop (nat (normalizeLimit (opt_limit two_per_page) 100 MAX_QUERY_LIMIT))
               (selectedRows example_runtime paged_database two_per_page (decodeCursor (opt_cursor two_per_page)))))
   \<and> set (map log_id (entries first_page)) \<inter> set (map log_id (entries second_page)) = {}"
proof -
  let ?o2 = "two_per_page\<lparr>opt_cursor := nextCursor first_page\<rparr>"
  note one = query_pages_ordered_and_adjacent[OF example_first_page]
  note two = query_pages_ordered_and_adjacent[OF example_second_page]
  have ids: "distinct (map row_id (log_entries paged_database))
      \<and> (\<forall>row \<in> set (log_entries paged_database). 0 < row_id row)"
    by (simp add: paged_database_def)
  have more: "hasMore first_page" by (simp add: first_page_def)
  from one have sorted1: "sorted_wrt (\<lambda>a b. timestamp a > timestamp b
      \<or> (timestamp a = timestamp b \<and> log_id a \<ge> log_id b)) (entries first_page)"
    by (rule conjunct1)
  have adj: "map entry_key (entries second_page)
        = map row_key (take (nat (normalizeLimit (opt_limit two_per_page) 100 MAX_QUERY_LIMIT))
            (drop (nat (normalizeLimit (opt_limit two_per_page) 100 MAX_QUERY_LIMIT))
               (selectedRows example_runtime paged_database two_per_page (decodeCursor (opt_cursor two_per_page)))))
      \<and> set (map log_id (entries first_page)) \<inter> set (map log_id (entries second_page)) = {}"
    using one ids more example_second_page by blast
  have dc: "decodeCursor (opt_cursor ?o2)
      = Some \<lparr>cursor_id = 3, cursor_timestamp = ''2024-01-02T00:00:00.000Z''\<rparr>"
    by code_simp
  have mem: "hd (entries second_page) \<in> set (entries second_page)"
    by (simp add: second_page_def)
  from two[THEN conjunct2, THEN conjunct1, rule_format, OF dc mem]
  have cur: "timestamp (hd (entries second_page)) < ''2024-01-02T00:00:00.000Z''
        \<or> (timestamp (hd (entries second_page)) = ''2024-01-02T00:00:00.000Z''
            \<and> log_id (hd (entries second_page)) < 3)"
    by simp
  have i1: "map log_id (entries first_page) = [2, 3]" by (simp add: first_page_def)
  have i2: "map log_id (entries second_page) = [1]" by (simp add: second_page_def)
  from example_first_page example_second_page sorted1 i1 i2 cur adj show ?thesis by (intro conjI) blast+
qed

section \<open>Verification: alert webhook delivery\<close>

lemma sendLoop_exhausted:
  "\<not> int attempt \<le> webhookRetryAttempts policy \<Longrightarrow>
     sendLoop fetch policy attempt prior =
       ([], Some (case prior of Some e \<Rightarrow> e | None \<Rightarrow> AfterRetries False))"
  by (subst sendLoop.simps) simp

lemma sendLoop_delivered:
  "int attempt \<le> webhookRetryAttempts policy \<Longrightarrow> attempt_reason (fetch attempt) = None \<Longrightarrow>
     sendLoop fetch policy attempt prior = ([Invoke attempt], None)"
  by (subst sendLoop.simps) simp

lemma sendLoop_thrown:
  "int attempt \<le> webhookRetryAttempts policy \<Longrightarrow>
   attempt_reason (fetch attempt) = Some reason \<Longrightarrow>
   \<not> retryable reason \<or> int attempt \<ge> webhookRetryAttempts policy \<Longrightarrow>
     sendLoop fetch policy attempt prior = ([Invoke attempt], Some reason)"
  by (subst sendLoop.simps) auto

lemma sendLoop_again:
  "int attempt \<le> webhookRetryAttempts policy \<Longrightarrow>
   attempt_reason (fetch attempt) = Some reason \<Longrightarrow>
   \<not> (\<not> retryable reason \<or> int attempt \<ge> webhookRetryAttempts policy) \<Longrightarrow>
     sendLoop fetch policy attempt prior =
       (Invoke attempt # Sleep (delayMs policy attempt)
          # fst (sendLoop fetch policy (Suc attempt) (Some reason)),
        snd (sendLoop fetch policy (Suc attempt) (Some reason)))"
  by (subst sendLoop.simps) (simp add: split_beta)

lemma sendLoop_bound:
  "length (invocations (fst (sendLoop fetch policy attempt prior)))
     \<le> nat (webhookRetryAttempts policy + 1 - int attempt)"
proof (induction fetch policy attempt prior rule: sendLoop.induct)
  case (1 fetch policy attempt prior)
  show ?case
  proof (cases "int attempt \<le> webhookRetryAttempts policy")
    case False
    then show ?thesis by (simp add: sendLoop_exhausted)
  next
    case inrange: True
    show ?thesis
    proof (cases "attempt_reason (fetch attempt)")
      case None
      with inrange show ?thesis by (simp add: sendLoop_delivered)
    next
      case (Some reason)
      show ?thesis
      proof (cases "\<not> retryable reason \<or> int attempt \<ge> webhookRetryAttempts policy")
        case True
        with inrange Some show ?thesis by (simp add: sendLoop_thrown)
      next
        case False
        from "1.IH"[OF inrange Some False]
        have "length (invocations (fst (sendLoop fetch policy (Suc attempt) (Some reason))))
                \<le> nat (webhookRetryAttempts policy + 1 - int (Suc attempt))" .
        with inrange show ?thesis
          by (simp add: sendLoop_again[of attempt policy fetch reason prior, OF inrange Some False])
      qed
    qed
  qed
qed

lemma sendLoop_starts:
  "int attempt \<le> webhookRetryAttempts policy \<Longrightarrow>
     \<exists>rest. fst (sendLoop fetch policy attempt prior) = Invoke attempt # rest"
  by (subst sendLoop.simps) (auto simp: split_beta split: option.splits)

lemma sendLoop_retry:
  "k \<in> set (invocations (fst (sendLoop fetch policy attempt prior))) \<Longrightarrow>
   retryable_failure (fetch k) \<Longrightarrow> int k < webhookRetryAttempts policy \<Longrightarrow>
   \<exists>before after. fst (sendLoop fetch policy attempt prior)
      = before @ [Invoke k, Sleep (delayMs policy k), Invoke (Suc k)] @ after"
proof (induction fetch policy attempt prior rule: sendLoop.induct)
  case (1 fetch policy attempt prior)
  from "1.prems"(1) have inrange: "int attempt \<le> webhookRetryAttempts policy"
    using sendLoop_exhausted[of attempt policy fetch prior] by fastforce
  show ?case
  proof (cases "k = attempt")
    case True
    from "1.prems"(2) True obtain reason where
      r: "attempt_reason (fetch attempt) = Some reason" "retryable reason"
      by (auto simp: retryable_failure_def attempt_reason_def response_ok_def
            shouldRetryWebhookStatus_def split: fetch_outcome.splits)
    from "1.prems"(3) True have lt: "\<not> (\<not> retryable reason \<or> int attempt \<ge> webhookRetryAttempts policy)"
      using r by simp
    from "1.prems"(3) True have "int (Suc attempt) \<le> webhookRetryAttempts policy" by simp
    from sendLoop_starts[OF this, of fetch "Some reason"] obtain rest where
      rest: "fst (sendLoop fetch policy (Suc attempt) (Some reason)) = Invoke (Suc attempt) # rest"
      by blast
    have "fst (sendLoop fetch policy attempt prior)
            = Invoke attempt # Sleep (delayMs policy attempt) # Invoke (Suc attempt) # rest"
      using rest by (simp add: sendLoop_again[of attempt policy fetch reason prior, OF inrange r(1) lt])
    then have "fst (sendLoop fetch policy attempt prior)
            = [] @ [Invoke k, Sleep (delayMs policy k), Invoke (Suc k)] @ rest"
      using True by simp
    then show ?thesis by blast
  next
    case False
    show ?thesis
    proof (cases "attempt_reason (fetch attempt)")
      case None
      with inrange "1.prems"(1) False show ?thesis
        by (simp add: sendLoop_delivered)
    next
      case (Some reason)
      show ?thesis
      proof (cases "\<not> retryable reason \<or> int attempt \<ge> webhookRetryAttempts policy")
        case True
        with "1.prems"(1) False show ?thesis
          by (simp add: sendLoop_thrown[of attempt policy fetch reason prior, OF inrange Some True])
      next
        case nolast: False
        note unfold = sendLoop_again[of attempt policy fetch reason prior, OF inrange Some nolast]
        with "1.prems"(1) False
        have "k \<in> set (invocations (fst (sendLoop fetch policy (Suc attempt) (Some reason))))"
          by simp
        from "1.IH"[OF inrange Some nolast this "1.prems"(2,3)] obtain before after where
          "fst (sendLoop fetch policy (Suc attempt) (Some reason))
             = before @ [Invoke k, Sleep (delayMs policy k), Invoke (Suc k)] @ after" by blast
        with unfold have "fst (sendLoop fetch policy attempt prior)
             = (Invoke attempt # Sleep (delayMs policy attempt) # before)
                 @ [Invoke k, Sleep (delayMs policy k), Invoke (Suc k)] @ after" by simp
        then show ?thesis by blast
      qed
    qed
  qed
qed

lemma sendLoop_terminal:
  "k \<in> set (invocations (fst (sendLoop fetch policy attempt prior))) \<Longrightarrow>
   terminal_failure (fetch k) \<Longrightarrow>
   last (fst (sendLoop fetch policy attempt prior)) = Invoke k \<and>
   (\<exists>status. snd (sendLoop fetch policy attempt prior) = Some (StatusFailure status False))"
proof (induction fetch policy attempt prior rule: sendLoop.induct)
  case (1 fetch policy attempt prior)
  from "1.prems"(1) have inrange: "int attempt \<le> webhookRetryAttempts policy"
    using sendLoop_exhausted[of attempt policy fetch prior] by fastforce
  show ?case
  proof (cases "k = attempt")
    case True
    from "1.prems"(2) True obtain status where
      r: "attempt_reason (fetch attempt) = Some (StatusFailure status False)"
      by (auto simp: terminal_failure_def attempt_reason_def response_ok_def
            shouldRetryWebhookStatus_def split: fetch_outcome.splits)
    have "sendLoop fetch policy attempt prior = ([Invoke attempt], Some (StatusFailure status False))"
      using sendLoop_thrown[of attempt policy fetch "StatusFailure status False" prior, OF inrange r] by simp
    then show ?thesis using True by simp
  next
    case False
    show ?thesis
    proof (cases "attempt_reason (fetch attempt)")
      case None
      with inrange "1.prems"(1) False show ?thesis
        by (simp add: sendLoop_delivered)
    next
      case (Some reason)
      show ?thesis
      proof (cases "\<not> retryable reason \<or> int attempt \<ge> webhookRetryAttempts policy")
        case True
        with "1.prems"(1) False show ?thesis
          by (simp add: sendLoop_thrown[of attempt policy fetch reason prior, OF inrange Some True])
      next
        case nolast: False
        note unfold = sendLoop_again[of attempt policy fetch reason prior, OF inrange Some nolast]
        with "1.prems"(1) False
        have mem: "k \<in> set (invocations (fst (sendLoop fetch policy (Suc attempt) (Some reason))))"
          by simp
        then have ne: "fst (sendLoop fetch policy (Suc attempt) (Some reason)) \<noteq> []" by auto
        from "1.IH"[OF inrange Some nolast mem "1.prems"(2)] unfold ne
        show ?thesis by simp
      qed
    qed
  qed
qed

lemma sendLoop_400: "fetch 1 = Responded 400 \<Longrightarrow> 1 \<le> webhookRetryAttempts policy \<Longrightarrow>
   sendAlertWebhook fetch policy = ([Invoke 1], Some (StatusFailure 400 False))"
  unfolding sendAlertWebhook_def
  by (rule sendLoop_thrown)
     (simp_all add: attempt_reason_def response_ok_def shouldRetryWebhookStatus_def)

lemma js_round_int: "js_round (of_int b * 2 ^ n) = b * 2 ^ n"
proof -
  have "of_int b * (2::rat) ^ n = of_int (b * 2 ^ n)" by simp
  moreover have "\<lfloor>of_int (b * 2 ^ n) + (1 / 2 :: rat)\<rfloor> = b * 2 ^ n"
    by (rule floor_unique) simp_all
  ultimately show ?thesis unfolding js_round_def by simp
qed

text \<open>
  Claim C8. One delivery calls the webhook target at most \<^verbatim>\<open>webhookRetryAttempts\<close> times.
  An attempt that fails with status 408, 429 or at least 500, or with a network, timeout or
  abort error, and that is not the last one allowed, is followed by a sleep of
  \<^verbatim>\<open>webhookBackoffMs * 2^(attempt-1)\<close> milliseconds (rounded to a whole number, which
  changes nothing for a whole number of milliseconds) and then by the next attempt. Any
  other status outside 2xx ends the delivery: the failed attempt is the last action and the
  error thrown is not retryable. A 400 answer to the first attempt gives exactly one attempt.
\<close>

theorem sendAlertWebhook_retry_policy:
  "length (invocations (fst (sendAlertWebhook fetch policy))) \<le> nat (webhookRetryAttempts policy)
   \<and> (\<forall>k. k \<in> set (invocations (fst (sendAlertWebhook fetch policy)))
          \<and> retryable_failure (fetch k) \<and> int k < webhookRetryAttempts policy
        \<longrightarrow> (\<exists>before after. fst (sendAlertWebhook fetch policy)
              = before @ [Invoke k, Sleep (js_round (webhookBackoffMs policy * 2 ^ (k - 1))),
                          Invoke (Suc k)] @ after))
   \<and> (\<forall>b n. webhookBackoffMs policy = of_int b
        \<longrightarrow> js_round (webhookBackoffMs policy * 2 ^ n) = b * 2 ^ n)
   \<and> (\<forall>k. k \<in> set (invocations (fst (sendAlertWebhook fetch policy)))
          \<and> terminal_failure (fetch k)
        \<longrightarrow> last (fst (sendAlertWebhook fetch policy)) = Invoke k
            \<and> (\<exists>status. snd (sendAlertWebhook fetch policy) = Some (StatusFailure status False)))
   \<and> (fetch 1 = Responded 400 \<and> 1 \<le> webhookRetryAttempts policy
        \<longrightarrow> invocations (fst (sendAlertWebhook fetch policy)) = [1]
            \<and> fst (sendAlertWebhook fetch policy) = [Invoke 1])"
proof (intro conjI allI impI)
  show "length (invocations (fst (sendAlertWebhook fetch policy))) \<le> nat (webhookRetryAttempts policy)"
    using sendLoop_bound[of fetch policy 1 None] by (simp add: sendAlertWebhook_def)
next
  fix k
  assume "k \<in> set (invocations (fst (sendAlertWebhook fetch policy)))
          \<and> retryable_failure (fetch k) \<and> int k < webhookRetryAttempts policy"
  then show "\<exists>before after. fst (sendAlertWebhook fetch policy)
              = before @ [Invoke k, Sleep (js_round (webhookBackoffMs policy * 2 ^ (k - 1))),
                          Invoke (Suc k)] @ after"
    using sendLoop_retry[of k fetch policy 1 None]
    by (simp add: sendAlertWebhook_def delayMs_def)
next
  fix b n assume "webhookBackoffMs policy = of_int b"
  then show "js_round (webhookBackoffMs policy * 2 ^ n) = b * 2 ^ n"
    by (simp only: js_round_int)
next
  fix k
  assume a: "k \<in> set (invocations (fst (sendAlertWebhook fetch policy))) \<and> terminal_failure (fetch k)"
  then show "last (fst (sendAlertWebhook fetch policy)) = Invoke k"
    using sendLoop_terminal[of k fetch policy 1 None] by (simp add: sendAlertWebhook_def)
  from a show "\<exists>status. snd (sendAlertWebhook fetch policy) = Some (StatusFailure status False)"
    using sendLoop_terminal[of k fetch policy 1 None] by (simp add: sendAlertWebhook_def)
next
  assume a: "fetch 1 = Responded 400 \<and> 1 \<le> webhookRetryAttempts policy"
  then show "invocations (fst (sendAlertWebhook fetch policy)) = [1]"
    using sendLoop_400[of fetch policy] by simp
  from a show "fst (sendAlertWebhook fetch policy) = [Invoke 1]"
    using sendLoop_400[of fetch policy] by simp
qed


theorem sendAlertWebhook_retry_policy_witness:
  "sendAlertWebhook
     (\<lambda>k. if k = Suc 0 then Responded 503 else if k = 2 then AbortError else Responded 400)
     \<lparr>enabled = True, webhookUrl = Some ''http://hook'', intervalMs = 30000, windowMinutes = 5,
      errorThreshold = 20, noLogsThresholdMinutes = 0, cooldownMs = 300000,
      webhookTimeoutMs = 5000, webhookRetryAttempts = 3, webhookBackoffMs = 250\<rparr>
     = ([Invoke 1, Sleep 250, Invoke 2, Sleep 500, Invoke 3], Some (StatusFailure 400 False))
   \<and> length (invocations [Invoke 1, Sleep 250, Invoke 2, Sleep 500, Invoke 3]) \<le> nat 3
   \<and> (\<exists>before after. [Invoke 1, Sleep 250, Invoke 2, Sleep 500, Invoke 3]
          = before @ [Invoke 2, Sleep (js_round (250 * 2 ^ (2 - 1))), Invoke (Suc 2)] @ after)
   \<and> js_round (250 * 2 ^ 1) = 250 * 2 ^ 1
   \<and> last [Invoke 1, Sleep 250, Invoke 2, Sleep 500, Invoke 3] = Invoke 3
   \<and> fst (sendAlertWebhook (\<lambda>k. Responded 400)
        \<lparr>enabled = True, webhookUrl = Some ''http://hook'', intervalMs = 30000, windowMinutes = 5,
         errorThreshold = 20, noLogsThresholdMinutes = 0, cooldownMs = 300000,
         webhookTimeoutMs = 5000, webhookRetryAttempts = 3, webhookBackoffMs = 250\<rparr>)
       = [Invoke 1]"
proof -
  let ?fetch = "\<lambda>k::nat. if k = Suc 0 then Responded 503 else if k = 2 then AbortError else Responded 400"
  let ?policy = "\<lparr>enabled = True, webhookUrl = Some ''http://hook'', intervalMs = 30000,
      windowMinutes = 5, errorThreshold = 20, noLogsThresholdMinutes = 0, cooldownMs = 300000,
      webhookTimeoutMs = 5000, webhookRetryAttempts = 3, webhookBackoffMs = 250\<rparr>"
  let ?trace = "[Invoke 1, Sleep 250, Invoke 2, Sleep 500, Invoke 3]"
  have run: "sendAlertWebhook ?fetch ?policy = (?trace, Some (StatusFailure 400 False))"
    by code_simp
  note main = sendAlertWebhook_retry_policy[of ?fetch ?policy]
  have bound: "length (invocations ?trace) \<le> nat 3"
    using main[THEN conjunct1] unfolding run by simp
  have retried: "2 \<in> set (invocations (fst (sendAlertWebhook ?fetch ?policy)))
      \<and> retryable_failure (?fetch 2) \<and> int 2 < webhookRetryAttempts ?policy"
    unfolding run by (simp add: retryable_failure_def)
  have sleep: "\<exists>before after. ?trace
          = before @ [Invoke 2, Sleep (js_round (250 * 2 ^ (2 - 1))), Invoke (Suc 2)] @ after"
    using main[THEN conjunct2, THEN conjunct1, rule_format, OF retried] unfolding run by simp
  have whole: "js_round (250 * 2 ^ 1) = 250 * 2 ^ 1"
    using main[THEN conjunct2, THEN conjunct2, THEN conjunct1, rule_format, of 250 1] by simp
  have terminal: "3 \<in> set (invocations (fst (sendAlertWebhook ?fetch ?policy)))
      \<and> terminal_failure (?fetch 3)"
    unfolding run by (simp add: terminal_failure_def)
  have final: "last ?trace = Invoke 3"
    using main[THEN conjunct2, THEN conjunct2, THEN conjunct2, THEN conjunct1, rule_format,
      OF terminal, THEN conjunct1] unfolding run by simp
  have once: "fst (sendAlertWebhook (\<lambda>k. Responded 400) ?policy) = [Invoke 1]"
    using sendAlertWebhook_retry_policy[of "\<lambda>k. Responded 400" ?policy] by simp
  from run bound sleep whole final once show ?thesis by (intro conjI)
qed

section \<open>Verification: the alerting cycle\<close>

lemma separated_snoc_other:
  assumes "separated cd h" and "\<And>r tr s. ev \<noteq> Delivered r tr s"
  shows "separated cd (h @ [(n, ev)])"
  unfolding separated_def
proof (intro allI impI)
  fix i j n1 n2 r tr1 tr2 s1 s2
  assume a: "i < j \<and> j < length (h @ [(n, ev)]) \<and> (h @ [(n, ev)]) ! i = (n1, Delivered r tr1 s1)
     \<and> (h @ [(n, ev)]) ! j = (n2, Delivered r tr2 s2)"
  have old: "\<And>i j n1 n2 r tr1 tr2 s1 s2. i < j \<Longrightarrow> j < length h \<Longrightarrow>
      h ! i = (n1, Delivered r tr1 s1) \<Longrightarrow> h ! j = (n2, Delivered r tr2 s2) \<Longrightarrow>
      cd \<le> of_int (n2 - s1)"
    using assms(1) unfolding separated_def by blast
  have "j \<noteq> length h" using a assms(2) by (auto simp: nth_append)
  with a have lt: "j < length h" "i < length h" by auto
  with a have "h ! i = (n1, Delivered r tr1 s1)" "h ! j = (n2, Delivered r tr2 s2)"
    by (auto simp: nth_append)
  with old[of i j] a lt show "cd \<le> of_int (n2 - s1)" by blast
qed

lemma separated_snoc_delivered:
  assumes "separated cd h"
    and "\<And>n1 tr1 s1. (n1, Delivered r tr1 s1) \<in> set h \<Longrightarrow> cd \<le> of_int (n - s1)"
  shows "separated cd (h @ [(n, Delivered r tr s)])"
  unfolding separated_def
proof (intro allI impI)
  fix i j n1 n2 r' tr1 tr2 s1 s2
  let ?h = "h @ [(n, Delivered r tr s)]"
  assume a: "i < j \<and> j < length ?h \<and> ?h ! i = (n1, Delivered r' tr1 s1)
     \<and> ?h ! j = (n2, Delivered r' tr2 s2)"
  show "cd \<le> of_int (n2 - s1)"
  proof (cases "j = length h")
    case True
    with a have i: "i < length h" and eq: "n2 = n" "r' = r" by (auto simp: nth_append)
    with a have "h ! i = (n1, Delivered r tr1 s1)" by (auto simp: nth_append)
    with i have "(n1, Delivered r tr1 s1) \<in> set h" by (metis nth_mem)
    from assms(2)[OF this] eq show ?thesis by simp
  next
    case False
    have old: "\<And>i j n1 n2 r tr1 tr2 s1 s2. i < j \<Longrightarrow> j < length h \<Longrightarrow>
        h ! i = (n1, Delivered r tr1 s1) \<Longrightarrow> h ! j = (n2, Delivered r tr2 s2) \<Longrightarrow>
        cd \<le> of_int (n2 - s1)"
      using assms(1) unfolding separated_def by blast
    from False a have lt: "j < length h" "i < length h" by auto
    with a have "h ! i = (n1, Delivered r' tr1 s1)" "h ! j = (n2, Delivered r' tr2 s2)"
      by (auto simp: nth_append)
    with old[of i j] a lt show ?thesis by blast
  qed
qed

lemma processTriggers_separated:
  assumes cd: "0 \<le> cd" "cd \<le> cooldownMs policy" and clock: "\<And>r. nowMs env \<le> sentAt env r"
  shows "sends_bounded (lastTriggerAtByRule st) h \<Longrightarrow> separated cd h \<Longrightarrow>
     sends_bounded (lastTriggerAtByRule (fst (processTriggers policy env ts st)))
        (h @ map (Pair (nowMs env)) (fst (snd (processTriggers policy env ts st))))
     \<and> separated cd (h @ map (Pair (nowMs env)) (fst (snd (processTriggers policy env ts st))))"
proof (induction ts arbitrary: st h)
  case Nil
  then show ?case by simp
next
  case (Cons t ts)
  let ?r = "rule t" and ?n = "nowMs env"
  show ?case
  proof (cases "inCooldown policy env st ?r")
    case True
    let ?st1 = "st\<lparr>suppressed := suppressed st + 1\<rparr>"
    let ?h1 = "h @ [(?n, Suppressed ?r)]"
    have b: "sends_bounded (lastTriggerAtByRule ?st1) ?h1"
      using Cons.prems(1) by (auto simp: sends_bounded_def)
    have s: "separated cd ?h1"
      by (rule separated_snoc_other[OF Cons.prems(2)]) simp
    from Cons.IH[OF b s] True show ?thesis by (simp add: split_beta)
  next
    case False
    obtain trace res where send: "sendAlertWebhook (target env ?r) policy = (trace, res)"
      by (cases "sendAlertWebhook (target env ?r) policy")
    show ?thesis
    proof (cases res)
      case (Some err)
      let ?h1 = "h @ [(?n, DeliveryFailed ?r trace err)]"
      have b: "sends_bounded (lastTriggerAtByRule st) ?h1"
        using Cons.prems(1) by (auto simp: sends_bounded_def)
      have s: "separated cd ?h1"
        by (rule separated_snoc_other[OF Cons.prems(2)]) simp
      from b s False send Some show ?thesis by simp
    next
      case None
      let ?st1 = "st\<lparr>lastTriggerAtByRule := (lastTriggerAtByRule st)(?r \<mapsto> sentAt env ?r),
                       sent := sent st + 1\<rparr>"
      let ?h1 = "h @ [(?n, Delivered ?r trace (sentAt env ?r))]"
      have old: "cd \<le> of_int (?n - s1) \<and> s1 \<le> sentAt env ?r"
        if mem: "(n1, Delivered ?r tr1 s1) \<in> set h" for n1 tr1 s1
      proof -
        from Cons.prems(1) mem obtain l where l: "lastTriggerAtByRule st ?r = Some l" "s1 \<le> l"
          unfolding sends_bounded_def by blast
        with False have "cooldownMs policy \<le> of_int (?n - l)"
          by (simp add: inCooldown_def)
        with cd have c: "cd \<le> of_int (?n - l)" by simp
        moreover from l(2) have "(of_int (?n - l) :: rat) \<le> of_int (?n - s1)" by simp
        ultimately have "cd \<le> of_int (?n - s1)" by simp
        moreover from c cd(1) have "(0::rat) \<le> of_int (?n - l)" by simp
        then have "l \<le> ?n" by simp
        with l(2) clock[of ?r] have "s1 \<le> sentAt env ?r" by simp
        ultimately show ?thesis by simp
      qed
      have b: "sends_bounded (lastTriggerAtByRule ?st1) ?h1"
        using Cons.prems(1) old unfolding sends_bounded_def by auto
      have s: "separated cd ?h1"
        by (rule separated_snoc_delivered[OF Cons.prems(2)]) (use old in blast)
      from Cons.IH[OF b s] False send None show ?thesis by (simp add: split_beta)
    qed
  qed
qed

lemma runCycle_skipped: "\<not> cycle_runs policy st \<Longrightarrow> runCycle policy env st = (st, [])"
  by (auto simp: runCycle_def cycle_runs_def)

text \<open>The two ways a cycle that runs can go: the triggers are collected, or collecting them throws.\<close>

lemma runCycle_collected:
  assumes "cycle_runs policy st" and "collectTriggers policy env = Inr ts"
  shows "snd (runCycle policy env st) =
      fst (snd (processTriggers policy env ts
        (st\<lparr>running := True, runs := runs st + 1, lastRunAt := Some (runAt env)\<rparr>)))"
    and "lastTriggerAtByRule (fst (runCycle policy env st)) =
      lastTriggerAtByRule (fst (processTriggers policy env ts
        (st\<lparr>running := True, runs := runs st + 1, lastRunAt := Some (runAt env)\<rparr>)))"
    and "suppressed (fst (runCycle policy env st)) =
      suppressed (fst (processTriggers policy env ts
        (st\<lparr>running := True, runs := runs st + 1, lastRunAt := Some (runAt env)\<rparr>)))"
    and "lastError (fst (runCycle policy env st)) =
      map_option WebhookError (snd (snd (processTriggers policy env ts
        (st\<lparr>running := True, runs := runs st + 1, lastRunAt := Some (runAt env)\<rparr>))))"
  using assms
  by (auto simp: runCycle_def cycle_runs_def Let_def split_beta split: option.splits)

lemma runCycle_thrown:
  assumes "cycle_runs policy st" and "collectTriggers policy env = Inl e"
  shows "snd (runCycle policy env st) = []"
    and "lastTriggerAtByRule (fst (runCycle policy env st)) = lastTriggerAtByRule st"
    and "suppressed (fst (runCycle policy env st)) = suppressed st"
    and "lastError (fst (runCycle policy env st)) = Some e"
  using assms
  by (auto simp: runCycle_def cycle_runs_def Let_def split_beta split: option.splits)

lemma collectTriggers_distinct:
  "collectTriggers policy env = Inr ts \<Longrightarrow> distinct (map rule ts)"
  by (auto simp: collectTriggers_def Let_def split: if_splits)

lemma runCycle_separated:
  assumes cd: "0 \<le> cd" "cd \<le> cooldownMs policy" and clock: "\<And>r. nowMs env \<le> sentAt env r"
    and inv: "sends_bounded (lastTriggerAtByRule st) h" "separated cd h"
  shows "sends_bounded (lastTriggerAtByRule (fst (runCycle policy env st)))
        (h @ map (Pair (nowMs env)) (snd (runCycle policy env st)))
     \<and> separated cd (h @ map (Pair (nowMs env)) (snd (runCycle policy env st)))"
proof (cases "cycle_runs policy st")
  case False
  with inv show ?thesis by (simp add: runCycle_skipped)
next
  case True
  show ?thesis
  proof (cases "collectTriggers policy env")
    case (Inl e)
    with inv True show ?thesis by (simp add: runCycle_thrown)
  next
    case (Inr ts)
    let ?st1 = "st\<lparr>running := True, runs := runs st + 1, lastRunAt := Some (runAt env)\<rparr>"
    have "sends_bounded (lastTriggerAtByRule ?st1) h" using inv(1) by simp
    from processTriggers_separated[OF cd clock this inv(2), of ts]
    show ?thesis by (simp only: runCycle_collected[OF True Inr])
  qed
qed

lemma runCycles_separated:
  assumes cd: "0 \<le> cd"
  shows "(\<And>policy env. (policy, env) \<in> set cycles \<Longrightarrow>
            cd \<le> cooldownMs policy \<and> (\<forall>r. nowMs env \<le> sentAt env r)) \<Longrightarrow>
     sends_bounded (lastTriggerAtByRule st) h \<Longrightarrow> separated cd h \<Longrightarrow>
     separated cd (h @ snd (runCycles cycles st))"
proof (induction cycles arbitrary: st h)
  case Nil
  then show ?case by simp
next
  case (Cons c cycles)
  obtain policy env where c: "c = (policy, env)" by (cases c)
  from Cons.prems(1)[of policy env] c
  have ok: "cd \<le> cooldownMs policy" "\<And>r. nowMs env \<le> sentAt env r" by auto
  from runCycle_separated[OF cd ok Cons.prems(2,3)]
  have b: "sends_bounded (lastTriggerAtByRule (fst (runCycle policy env st)))
        (h @ map (Pair (nowMs env)) (snd (runCycle policy env st)))"
    and s: "separated cd (h @ map (Pair (nowMs env)) (snd (runCycle policy env st)))" by auto
  have rest: "\<And>policy env. (policy, env) \<in> set cycles \<Longrightarrow>
            cd \<le> cooldownMs policy \<and> (\<forall>r. nowMs env \<le> sentAt env r)"
    using Cons.prems(1) by auto
  from Cons.IH[OF rest b s] c show ?case by (simp add: split_beta)
qed

lemma processTriggers_suppressed_count:
  "suppressed (fst (processTriggers policy env ts st)) =
     suppressed st + length (filter is_suppressed (fst (snd (processTriggers policy env ts st))))"
proof (induction ts arbitrary: st)
  case Nil
  show ?case by simp
next
  case (Cons t ts)
  show ?case
  proof (cases "inCooldown policy env st (rule t)")
    case True
    with Cons.IH[of "st\<lparr>suppressed := suppressed st + 1\<rparr>"] show ?thesis
      by (simp add: split_beta)
  next
    case False
    obtain trace res where send: "sendAlertWebhook (target env (rule t)) policy = (trace, res)"
      by (cases "sendAlertWebhook (target env (rule t)) policy")
    show ?thesis
    proof (cases res)
      case (Some err)
      with False send show ?thesis by simp
    next
      case None
      with False send
        Cons.IH[of "st\<lparr>lastTriggerAtByRule := (lastTriggerAtByRule st)(rule t \<mapsto> sentAt env (rule t)),
                       sent := sent st + 1\<rparr>"]
      show ?thesis by (simp add: split_beta)
    qed
  qed
qed

lemma processTriggers_cooldown_silent:
  "inCooldown policy env st r \<Longrightarrow>
     Some r \<notin> webhook_rule ` set (fst (snd (processTriggers policy env ts st)))"
proof (induction ts arbitrary: st)
  case Nil
  show ?case by simp
next
  case (Cons t ts)
  show ?case
  proof (cases "inCooldown policy env st (rule t)")
    case True
    have "inCooldown policy env (st\<lparr>suppressed := suppressed st + 1\<rparr>) r"
      using Cons.prems by (simp add: inCooldown_def)
    from Cons.IH[OF this] True show ?thesis by (simp add: split_beta)
  next
    case False
    with Cons.prems have ne: "rule t \<noteq> r" by auto
    obtain trace res where send: "sendAlertWebhook (target env (rule t)) policy = (trace, res)"
      by (cases "sendAlertWebhook (target env (rule t)) policy")
    show ?thesis
    proof (cases res)
      case (Some err)
      with False send ne show ?thesis by simp
    next
      case None
      have "inCooldown policy env
              (st\<lparr>lastTriggerAtByRule := (lastTriggerAtByRule st)(rule t \<mapsto> sentAt env (rule t)),
                  sent := sent st + 1\<rparr>) r"
        using Cons.prems ne by (simp add: inCooldown_def)
      from Cons.IH[OF this] False send None ne show ?thesis by (simp add: split_beta)
    qed
  qed
qed

lemma runCycle_suppressed_count:
  "suppressed (fst (runCycle policy env st)) =
     suppressed st + length (filter is_suppressed (snd (runCycle policy env st)))"
proof (cases "cycle_runs policy st")
  case False
  then show ?thesis by (simp add: runCycle_skipped)
next
  case True
  show ?thesis
  proof (cases "collectTriggers policy env")
    case (Inl e)
    with True show ?thesis by (simp add: runCycle_thrown)
  next
    case (Inr ts)
    let ?st1 = "st\<lparr>running := True, runs := runs st + 1, lastRunAt := Some (runAt env)\<rparr>"
    from processTriggers_suppressed_count[of policy env ts ?st1]
    show ?thesis by (simp add: runCycle_collected[OF True Inr])
  qed
qed

lemma runCycle_cooldown_silent:
  assumes "inCooldown policy env st r"
  shows "Some r \<notin> webhook_rule ` set (snd (runCycle policy env st))"
proof (cases "cycle_runs policy st")
  case False
  then show ?thesis by (simp add: runCycle_skipped)
next
  case True
  show ?thesis
  proof (cases "collectTriggers policy env")
    case (Inl e)
    with True show ?thesis by (simp add: runCycle_thrown)
  next
    case (Inr ts)
    let ?st1 = "st\<lparr>running := True, runs := runs st + 1, lastRunAt := Some (runAt env)\<rparr>"
    have "inCooldown policy env ?st1 r" using assms by (simp add: inCooldown_def)
    from processTriggers_cooldown_silent[OF this, of ts] show ?thesis
      by (simp add: runCycle_collected[OF True Inr])
  qed
qed

lemma processTriggers_clock:
  "(\<And>r. nowMs env \<le> sentAt env r) \<Longrightarrow>
     Delivered r tr s \<in> set (fst (snd (processTriggers policy env ts st))) \<Longrightarrow> nowMs env \<le> s"
proof (induction ts arbitrary: st)
  case Nil
  then show ?case by simp
next
  case (Cons t ts)
  obtain trace res where send: "sendAlertWebhook (target env (rule t)) policy = (trace, res)"
    by (cases "sendAlertWebhook (target env (rule t)) policy")
  from Cons.prems(2) send Cons.IH[OF Cons.prems(1)] Cons.prems(1)[of "rule t"]
  show ?case
    by (cases res) (auto simp: split_beta split: if_splits)
qed

lemma runCycles_clock:
  "(\<And>policy env. (policy, env) \<in> set cycles \<Longrightarrow> (\<forall>r. nowMs env \<le> sentAt env r)) \<Longrightarrow>
     (n, Delivered r tr s) \<in> set (snd (runCycles cycles st)) \<Longrightarrow> n \<le> s"
proof (induction cycles arbitrary: st)
  case Nil
  then show ?case by simp
next
  case (Cons c cycles)
  obtain policy env where c: "c = (policy, env)" by (cases c)
  from Cons.prems(1)[of policy env] c have clock: "\<And>r. nowMs env \<le> sentAt env r" by auto
  from Cons.prems(2) c
  consider "n = nowMs env" "Delivered r tr s \<in> set (snd (runCycle policy env st))"
    | "(n, Delivered r tr s) \<in> set (snd (runCycles cycles (fst (runCycle policy env st))))"
    by (auto simp: split_beta)
  then show ?case
  proof cases
    case 1
    show ?thesis
    proof (cases "cycle_runs policy st")
      case True
      show ?thesis
      proof (cases "collectTriggers policy env")
        case (Inl e)
        with 1(2) True show ?thesis by (simp add: runCycle_thrown)
      next
        case (Inr ts)
        from 1(2) processTriggers_clock[OF clock] show ?thesis
          unfolding runCycle_collected[OF True Inr] 1(1) by blast
      qed
    next
      case False
      with 1(2) show ?thesis by (simp add: runCycle_skipped)
    qed
  next
    case 2
    have "\<And>policy env. (policy, env) \<in> set cycles \<Longrightarrow> (\<forall>r. nowMs env \<le> sentAt env r)"
      using Cons.prems(1) by auto
    from Cons.IH[OF this 2] show ?thesis .
  qed
qed

text \<open>
  The events of the loop, trigger by trigger: the loop handles the triggers in order, each
  according to the cooldown its rule was in when the cycle began, and stops after a
  delivery that failed.
\<close>

lemma inCooldown_counters [simp]:
  "inCooldown policy env (st\<lparr>suppressed := x\<rparr>) r = inCooldown policy env st r"
  "inCooldown policy env (st\<lparr>running := b, runs := n, lastRunAt := a\<rparr>) r
     = inCooldown policy env st r"
  by (simp_all add: inCooldown_def)

lemma inCooldown_other:
  "r \<noteq> sentRule \<Longrightarrow>
     inCooldown policy env
       (st\<lparr>lastTriggerAtByRule := (lastTriggerAtByRule st)(sentRule \<mapsto> x), sent := y\<rparr>) r
     = inCooldown policy env st r"
  by (simp add: inCooldown_def)

lemma processTriggers_reached:
  "distinct (map rule ts) \<Longrightarrow>
     length (fst (snd (processTriggers policy env ts st))) \<le> length ts
     \<and> (snd (snd (processTriggers policy env ts st)) = None \<longrightarrow>
          length (fst (snd (processTriggers policy env ts st))) = length ts)
     \<and> (\<forall>k < length (fst (snd (processTriggers policy env ts st))).
          (inCooldown policy env st (rule (ts ! k)) \<longrightarrow>
             fst (snd (processTriggers policy env ts st)) ! k = Suppressed (rule (ts ! k)))
          \<and> (\<not> inCooldown policy env st (rule (ts ! k)) \<longrightarrow>
               webhook_rule (fst (snd (processTriggers policy env ts st)) ! k)
                 = Some (rule (ts ! k))))"
proof (induction ts arbitrary: st)
  case Nil
  show ?case by simp
next
  case (Cons t ts)
  from Cons.prems have d: "distinct (map rule ts)" and fresh: "rule t \<notin> rule ` set ts" by auto
  show ?case
  proof (cases "inCooldown policy env st (rule t)")
    case True
    let ?st1 = "st\<lparr>suppressed := suppressed st + 1\<rparr>"
    let ?tail = "fst (snd (processTriggers policy env ts ?st1))"
    have ev: "fst (snd (processTriggers policy env (t # ts) st)) = Suppressed (rule t) # ?tail"
      and er: "snd (snd (processTriggers policy env (t # ts) st))
             = snd (snd (processTriggers policy env ts ?st1))"
      using True by (simp_all add: split_beta)
    note ih = Cons.IH[OF d, of ?st1]
    show ?thesis
    proof (intro conjI allI impI)
      from ih show "length (fst (snd (processTriggers policy env (t # ts) st))) \<le> length (t # ts)"
        unfolding ev by simp
    next
      assume "snd (snd (processTriggers policy env (t # ts) st)) = None"
      with ih show "length (fst (snd (processTriggers policy env (t # ts) st))) = length (t # ts)"
        unfolding ev er by simp
    next
      fix k assume k: "k < length (fst (snd (processTriggers policy env (t # ts) st)))"
        and c: "inCooldown policy env st (rule ((t # ts) ! k))"
      show "fst (snd (processTriggers policy env (t # ts) st)) ! k = Suppressed (rule ((t # ts) ! k))"
      proof (cases k)
        case 0
        then show ?thesis unfolding ev by simp
      next
        case (Suc j)
        with k have j: "j < length ?tail" unfolding ev by simp
        from c Suc have "inCooldown policy env ?st1 (rule (ts ! j))" by simp
        with ih j have "?tail ! j = Suppressed (rule (ts ! j))" by blast
        with Suc show ?thesis unfolding ev by simp
      qed
    next
      fix k assume k: "k < length (fst (snd (processTriggers policy env (t # ts) st)))"
        and c: "\<not> inCooldown policy env st (rule ((t # ts) ! k))"
      show "webhook_rule (fst (snd (processTriggers policy env (t # ts) st)) ! k)
              = Some (rule ((t # ts) ! k))"
      proof (cases k)
        case 0
        with c True show ?thesis by simp
      next
        case (Suc j)
        with k have j: "j < length ?tail" unfolding ev by simp
        from c Suc have "\<not> inCooldown policy env ?st1 (rule (ts ! j))" by simp
        with ih j have "webhook_rule (?tail ! j) = Some (rule (ts ! j))" by blast
        with Suc show ?thesis unfolding ev by simp
      qed
    qed
  next
    case False
    obtain trace res where send: "sendAlertWebhook (target env (rule t)) policy = (trace, res)"
      by (cases "sendAlertWebhook (target env (rule t)) policy")
    show ?thesis
    proof (cases res)
      case (Some err)
      with False send
      have ev: "fst (snd (processTriggers policy env (t # ts) st)) = [DeliveryFailed (rule t) trace err]"
        and er: "snd (snd (processTriggers policy env (t # ts) st)) = Some err"
        by simp_all
      show ?thesis unfolding ev er using False by simp
    next
      case None
      let ?st1 = "st\<lparr>lastTriggerAtByRule := (lastTriggerAtByRule st)(rule t \<mapsto> sentAt env (rule t)),
                       sent := sent st + 1\<rparr>"
      let ?tail = "fst (snd (processTriggers policy env ts ?st1))"
      have ev: "fst (snd (processTriggers policy env (t # ts) st))
              = Delivered (rule t) trace (sentAt env (rule t)) # ?tail"
        and er: "snd (snd (processTriggers policy env (t # ts) st))
               = snd (snd (processTriggers policy env ts ?st1))"
        using False send None by (simp_all add: split_beta)
      note ih = Cons.IH[OF d, of ?st1]
      have same: "inCooldown policy env ?st1 (rule (ts ! j)) = inCooldown policy env st (rule (ts ! j))"
        if "j < length ts" for j
      proof -
        from that have "rule (ts ! j) \<in> rule ` set ts" by simp
        with fresh have "rule (ts ! j) \<noteq> rule t" by auto
        then show ?thesis by (rule inCooldown_other)
      qed
      show ?thesis
      proof (intro conjI allI impI)
        from ih show "length (fst (snd (processTriggers policy env (t # ts) st))) \<le> length (t # ts)"
          unfolding ev by simp
      next
        assume "snd (snd (processTriggers policy env (t # ts) st)) = None"
        with ih show "length (fst (snd (processTriggers policy env (t # ts) st))) = length (t # ts)"
          unfolding ev er by simp
      next
        fix k assume k: "k < length (fst (snd (processTriggers policy env (t # ts) st)))"
          and c: "inCooldown policy env st (rule ((t # ts) ! k))"
        show "fst (snd (processTriggers policy env (t # ts) st)) ! k
                = Suppressed (rule ((t # ts) ! k))"
        proof (cases k)
          case 0
          with c False show ?thesis by simp
        next
          case (Suc j)
          with k have j: "j < length ?tail" unfolding ev by simp
          with ih have jt: "j < length ts" by simp
          from c Suc same[OF jt] have "inCooldown policy env ?st1 (rule (ts ! j))" by simp
          with ih j have "?tail ! j = Suppressed (rule (ts ! j))" by blast
          with Suc show ?thesis unfolding ev by simp
        qed
      next
        fix k assume k: "k < length (fst (snd (processTriggers policy env (t # ts) st)))"
          and c: "\<not> inCooldown policy env st (rule ((t # ts) ! k))"
        show "webhook_rule (fst (snd (processTriggers policy env (t # ts) st)) ! k)
                = Some (rule ((t # ts) ! k))"
        proof (cases k)
          case 0
          then show ?thesis unfolding ev by simp
        next
          case (Suc j)
          with k have j: "j < length ?tail" unfolding ev by simp
          with ih have jt: "j < length ts" by simp
          from c Suc same[OF jt] have "\<not> inCooldown policy env ?st1 (rule (ts ! j))" by simp
          with ih j have "webhook_rule (?tail ! j) = Some (rule (ts ! j))" by blast
          with Suc show ?thesis unfolding ev by simp
        qed
      qed
    qed
  qed
qed

lemma suppressed_events_count:
  assumes "\<forall>k < length events.
          (C (ts ! k) \<longrightarrow> events ! k = Suppressed (rule (ts ! k)))
          \<and> (\<not> C (ts ! k) \<longrightarrow> webhook_rule (events ! k) = Some (rule (ts ! k)))"
  shows "length (filter is_suppressed events) = card {k. k < length events \<and> C (ts ! k)}"
proof -
  have "is_suppressed (events ! k) \<longleftrightarrow> C (ts ! k)" if "k < length events" for k
  proof (cases "C (ts ! k)")
    case True
    with assms that show ?thesis by simp
  next
    case False
    with assms that have "webhook_rule (events ! k) = Some (rule (ts ! k))" by blast
    with False show ?thesis by (cases "events ! k") simp_all
  qed
  then have "{k. k < length events \<and> is_suppressed (events ! k)}
           = {k. k < length events \<and> C (ts ! k)}" by blast
  then show ?thesis by (simp add: length_filter_conv_card)
qed

lemma processTriggers_stops:
  "(\<forall>k. Suc k < length (fst (snd (processTriggers policy env ts st))) \<longrightarrow>
        \<not> is_failed (fst (snd (processTriggers policy env ts st)) ! k))
   \<and> (snd (snd (processTriggers policy env ts st)) \<noteq> None \<longleftrightarrow>
        fst (snd (processTriggers policy env ts st)) \<noteq> []
        \<and> is_failed (last (fst (snd (processTriggers policy env ts st)))))"
proof (induction ts arbitrary: st)
  case Nil
  show ?case by simp
next
  case (Cons t ts)
  show ?case
  proof (cases "inCooldown policy env st (rule t)")
    case True
    let ?st1 = "st\<lparr>suppressed := suppressed st + 1\<rparr>"
    have ev: "fst (snd (processTriggers policy env (t # ts) st))
            = Suppressed (rule t) # fst (snd (processTriggers policy env ts ?st1))"
      and er: "snd (snd (processTriggers policy env (t # ts) st))
             = snd (snd (processTriggers policy env ts ?st1))"
      using True by (simp_all add: split_beta)
    from Cons.IH[of ?st1] show ?thesis unfolding ev er
      by (auto simp: nth_Cons split: nat.splits)
  next
    case False
    obtain trace res where send: "sendAlertWebhook (target env (rule t)) policy = (trace, res)"
      by (cases "sendAlertWebhook (target env (rule t)) policy")
    show ?thesis
    proof (cases res)
      case (Some err)
      with False send show ?thesis by simp
    next
      case None
      let ?st1 = "st\<lparr>lastTriggerAtByRule := (lastTriggerAtByRule st)(rule t \<mapsto> sentAt env (rule t)),
                       sent := sent st + 1\<rparr>"
      have ev: "fst (snd (processTriggers policy env (t # ts) st))
              = Delivered (rule t) trace (sentAt env (rule t))
                  # fst (snd (processTriggers policy env ts ?st1))"
        and er: "snd (snd (processTriggers policy env (t # ts) st))
               = snd (snd (processTriggers policy env ts ?st1))"
        using False send None by (simp_all add: split_beta)
      from Cons.IH[of ?st1] show ?thesis unfolding ev er
        by (auto simp: nth_Cons split: nat.splits)
    qed
  qed
qed

text \<open>
  Claim C9, as amended. A cycle that runs and collects its triggers handles them in order and stops
  after the first delivery that fails. A trigger the loop reaches whose rule has a recorded
  sent instant less than \<^verbatim>\<open>cooldownMs\<close> before the cycle's \<^verbatim>\<open>nowMs\<close> is suppressed, every
  other trigger it reaches calls the webhook, and the \<^verbatim>\<open>suppressed\<close> counter grows by the
  number of triggers in cooldown among those reached; all triggers are reached when the
  cycle ends without an error. In any cycle, a rule in cooldown gets no webhook call and
  the counter grows by the number of suppressed triggers. Over any sequence of cycles, from
  any state, with cooldowns of at least \<open>cd\<close> and a clock that does not run backwards inside
  a cycle, two deliveries of one rule are at least \<open>cd\<close> apart: both the start of the later
  cycle and the later recorded instant are at least \<open>cd\<close> after the earlier recorded
  instant.
\<close>

theorem alert_cooldown_suppression:
  "suppressed (fst (runCycle policy env st)) =
      suppressed st + length (filter is_suppressed (snd (runCycle policy env st)))
   \<and> (\<forall>r. inCooldown policy env st r \<longrightarrow>
          Some r \<notin> webhook_rule ` set (snd (runCycle policy env st)))
   \<and> (\<forall>ts. cycle_runs policy st \<and> collectTriggers policy env = Inr ts \<longrightarrow>
          length (snd (runCycle policy env st)) \<le> length ts
          \<and> (lastError (fst (runCycle policy env st)) = None \<longrightarrow>
               length (snd (runCycle policy env st)) = length ts)
          \<and> (lastError (fst (runCycle policy env st)) \<noteq> None \<longleftrightarrow>
               snd (runCycle policy env st) \<noteq> []
               \<and> is_failed (last (snd (runCycle policy env st))))
          \<and> (\<forall>k. Suc k < length (snd (runCycle policy env st)) \<longrightarrow>
                 \<not> is_failed (snd (runCycle policy env st) ! k))
          \<and> (\<forall>k < length (snd (runCycle policy env st)).
                 (inCooldown policy env st (rule (ts ! k)) \<longrightarrow>
                    snd (runCycle policy env st) ! k = Suppressed (rule (ts ! k)))
                 \<and> (\<not> inCooldown policy env st (rule (ts ! k)) \<longrightarrow>
                      webhook_rule (snd (runCycle policy env st) ! k) = Some (rule (ts ! k))))
          \<and> suppressed (fst (runCycle policy env st)) =
              suppressed st
              + card {k. k < length (snd (runCycle policy env st))
                         \<and> inCooldown policy env st (rule (ts ! k))})
   \<and> (0 \<le> cd \<and> (\<forall>(p, e) \<in> set cycles. cd \<le> cooldownMs p \<and> (\<forall>r. nowMs e \<le> sentAt e r)) \<longrightarrow>
        (\<forall>i j n1 n2 r tr1 tr2 s1 s2.
           i < j \<and> j < length (snd (runCycles cycles st0))
           \<and> snd (runCycles cycles st0) ! i = (n1, Delivered r tr1 s1)
           \<and> snd (runCycles cycles st0) ! j = (n2, Delivered r tr2 s2)
           \<longrightarrow> cd \<le> of_int (n2 - s1) \<and> cd \<le> of_int (s2 - s1)))"
proof -
  have count: "suppressed (fst (runCycle policy env st)) =
      suppressed st + length (filter is_suppressed (snd (runCycle policy env st)))"
    by (rule runCycle_suppressed_count)
  have silent: "\<forall>r. inCooldown policy env st r \<longrightarrow>
          Some r \<notin> webhook_rule ` set (snd (runCycle policy env st))"
    using runCycle_cooldown_silent by blast
  have reached: "length (snd (runCycle policy env st)) \<le> length ts
          \<and> (lastError (fst (runCycle policy env st)) = None \<longrightarrow>
               length (snd (runCycle policy env st)) = length ts)
          \<and> (lastError (fst (runCycle policy env st)) \<noteq> None \<longleftrightarrow>
               snd (runCycle policy env st) \<noteq> []
               \<and> is_failed (last (snd (runCycle policy env st))))
          \<and> (\<forall>k. Suc k < length (snd (runCycle policy env st)) \<longrightarrow>
                 \<not> is_failed (snd (runCycle policy env st) ! k))
          \<and> (\<forall>k < length (snd (runCycle policy env st)).
                 (inCooldown policy env st (rule (ts ! k)) \<longrightarrow>
                    snd (runCycle policy env st) ! k = Suppressed (rule (ts ! k)))
                 \<and> (\<not> inCooldown policy env st (rule (ts ! k)) \<longrightarrow>
                      webhook_rule (snd (runCycle policy env st) ! k) = Some (rule (ts ! k))))
          \<and> suppressed (fst (runCycle policy env st)) =
              suppressed st
              + card {k. k < length (snd (runCycle policy env st))
                         \<and> inCooldown policy env st (rule (ts ! k))}"
    if runs: "cycle_runs policy st" and col: "collectTriggers policy env = Inr ts" for ts
  proof -
    let ?st1 = "st\<lparr>running := True, runs := runs st + 1, lastRunAt := Some (runAt env)\<rparr>"
    let ?E = "fst (snd (processTriggers policy env ts ?st1))"
    let ?err = "snd (snd (processTriggers policy env ts ?st1))"
    note ev = runCycle_collected(1)[OF runs col]
    note er = runCycle_collected(4)[OF runs col]
    from processTriggers_reached[OF collectTriggers_distinct[OF col], of policy env ?st1]
    have len: "length ?E \<le> length ts"
      and full: "?err = None \<longrightarrow> length ?E = length ts"
      and each: "\<forall>k < length ?E.
          (inCooldown policy env st (rule (ts ! k)) \<longrightarrow> ?E ! k = Suppressed (rule (ts ! k)))
          \<and> (\<not> inCooldown policy env st (rule (ts ! k)) \<longrightarrow>
               webhook_rule (?E ! k) = Some (rule (ts ! k)))"
      by simp_all
    from processTriggers_stops[of policy env ts ?st1]
    have early: "\<forall>k. Suc k < length ?E \<longrightarrow> \<not> is_failed (?E ! k)"
      and failed: "?err \<noteq> None \<longleftrightarrow> ?E \<noteq> [] \<and> is_failed (last ?E)"
      by blast+
    have "length (filter is_suppressed ?E)
        = card {k. k < length ?E \<and> inCooldown policy env st (rule (ts ! k))}"
      using each by (rule suppressed_events_count[where C = "\<lambda>t. inCooldown policy env st (rule t)"])
    with count have number: "suppressed (fst (runCycle policy env st)) =
        suppressed st + card {k. k < length ?E \<and> inCooldown policy env st (rule (ts ! k))}"
      unfolding ev by simp
    from len full each early failed number show ?thesis
      unfolding ev er by simp
  qed
  have apart: "cd \<le> of_int (n2 - s1) \<and> cd \<le> of_int (s2 - s1)"
    if hyp: "0 \<le> cd \<and> (\<forall>(p, e) \<in> set cycles. cd \<le> cooldownMs p \<and> (\<forall>r. nowMs e \<le> sentAt e r))"
      and ij: "i < j \<and> j < length (snd (runCycles cycles st0))
           \<and> snd (runCycles cycles st0) ! i = (n1, Delivered r tr1 s1)
           \<and> snd (runCycles cycles st0) ! j = (n2, Delivered r tr2 s2)"
    for i j n1 n2 r tr1 tr2 s1 s2
  proof -
    let ?h = "snd (runCycles cycles st0)"
    have per: "\<And>policy env. (policy, env) \<in> set cycles \<Longrightarrow>
            cd \<le> cooldownMs policy \<and> (\<forall>r. nowMs env \<le> sentAt env r)"
      using hyp by auto
    have "sends_bounded (lastTriggerAtByRule st0) []" "separated cd []"
      by (simp_all add: sends_bounded_def separated_def)
    from runCycles_separated[OF _ per this, of cycles] hyp have "separated cd ?h" by simp
    with ij have first: "cd \<le> of_int (n2 - s1)" unfolding separated_def by blast
    from ij have "(n2, Delivered r tr2 s2) \<in> set ?h" by (metis nth_mem)
    from runCycles_clock[OF _ this] per have "n2 \<le> s2" by blast
    then have "(of_int (n2 - s1) :: rat) \<le> of_int (s2 - s1)" by simp
    with first show ?thesis by simp
  qed
  from count silent reached apart show ?thesis by blast
qed

text \<open>
  A trigger in cooldown that is neither suppressed nor counted: the delivery for
  \<^verbatim>\<open>error_threshold\<close> fails, the loop is left, and the trigger of \<^verbatim>\<open>no_logs\<close>, sent ten
  seconds earlier with a cooldown of five minutes, is never looked at.
\<close>

theorem alert_cooldown_unreached_counterexample:
  "cycle_runs failing_policy cooling_state
   \<and> collectTriggers failing_policy failing_env = Inr failing_triggers
   \<and> inCooldown failing_policy failing_env cooling_state ''no_logs''
   \<and> snd (runCycle failing_policy failing_env cooling_state)
       = [DeliveryFailed ''error_threshold'' [Invoke 1] (StatusFailure 400 False)]
   \<and> suppressed (fst (runCycle failing_policy failing_env cooling_state))
       = suppressed cooling_state"
  by code_simp

theorem alert_cooldown_suppression_witness:
  "snd (runCycles [(demo_policy, demo_env 1000000), (demo_policy, demo_env 1030000),
                   (demo_policy, demo_env 1400000)] createAlertState)
     = [(1000000, Delivered ''error_threshold'' [Invoke 1] 1000050),
        (1030000, Suppressed ''error_threshold''),
        (1400000, Delivered ''error_threshold'' [Invoke 1] 1400050)]
   \<and> (300000 :: rat) \<le> of_int (1400000 - 1000050)
   \<and> (300000 :: rat) \<le> of_int (1400050 - 1000050)
   \<and> inCooldown demo_policy (demo_env 1030000)
        (fst (runCycle demo_policy (demo_env 1000000) createAlertState)) ''error_threshold''
   \<and> Some ''error_threshold'' \<notin> webhook_rule ` set (snd (runCycle demo_policy (demo_env 1030000)
        (fst (runCycle demo_policy (demo_env 1000000) createAlertState))))
   \<and> suppressed (fst (runCycle demo_policy (demo_env 1030000)
        (fst (runCycle demo_policy (demo_env 1000000) createAlertState))))
      = suppressed (fst (runCycle demo_policy (demo_env 1000000) createAlertState))
        + length (filter is_suppressed (snd (runCycle demo_policy (demo_env 1030000)
            (fst (runCycle demo_policy (demo_env 1000000) createAlertState)))))
   \<and> cycle_runs demo_policy (fst (runCycle demo_policy (demo_env 1000000) createAlertState))
   \<and> collectTriggers demo_policy (demo_env 1030000) = Inr [demo_trigger]
   \<and> length (snd (runCycle demo_policy (demo_env 1030000)
        (fst (runCycle demo_policy (demo_env 1000000) createAlertState)))) = length [demo_trigger]
   \<and> snd (runCycle demo_policy (demo_env 1030000)
        (fst (runCycle demo_policy (demo_env 1000000) createAlertState))) ! 0
       = Suppressed (rule ([demo_trigger] ! 0))"
proof -
  let ?cycles = "[(demo_policy, demo_env 1000000), (demo_policy, demo_env 1030000),
                   (demo_policy, demo_env 1400000)]"
  let ?st1 = "fst (runCycle demo_policy (demo_env 1000000) createAlertState)"
  let ?h = "[(1000000, Delivered ''error_threshold'' [Invoke 1] 1000050),
        (1030000, Suppressed ''error_threshold''),
        (1400000 :: int, Delivered ''error_threshold'' [Invoke 1] 1400050)]"
  note main = alert_cooldown_suppression[of demo_policy "demo_env 1030000" ?st1 300000 ?cycles
      createAlertState]
  have history: "snd (runCycles ?cycles createAlertState) = ?h"
    by code_simp
  have cool: "inCooldown demo_policy (demo_env 1030000) ?st1 ''error_threshold''"
    by code_simp
  have hyp: "(0::rat) \<le> 300000 \<and> (\<forall>(p, e) \<in> set ?cycles.
      300000 \<le> cooldownMs p \<and> (\<forall>r. nowMs e \<le> sentAt e r))"
    by (simp add: demo_policy_def demo_env_def)
  have idx: "(0::nat) < 2 \<and> 2 < length (snd (runCycles ?cycles createAlertState))
      \<and> snd (runCycles ?cycles createAlertState) ! 0
           = (1000000, Delivered ''error_threshold'' [Invoke 1] 1000050)
      \<and> snd (runCycles ?cycles createAlertState) ! 2
           = (1400000, Delivered ''error_threshold'' [Invoke 1] 1400050)"
    unfolding history by simp
  from main[THEN conjunct2, THEN conjunct2, THEN conjunct2, rule_format, OF hyp idx]
  have sep: "(300000 :: rat) \<le> of_int (1400000 - 1000050)"
    "(300000 :: rat) \<le> of_int (1400050 - 1000050)" by blast+
  from main[THEN conjunct2, THEN conjunct1, rule_format, OF cool]
  have silent: "Some ''error_threshold'' \<notin> webhook_rule ` set (snd (runCycle demo_policy
      (demo_env 1030000) ?st1))" .
  note count = main[THEN conjunct1]
  have runs: "cycle_runs demo_policy ?st1" by code_simp
  have col: "collectTriggers demo_policy (demo_env 1030000) = Inr [demo_trigger]" by code_simp
  have ok: "lastError (fst (runCycle demo_policy (demo_env 1030000) ?st1)) = None" by code_simp
  note cycle = main[THEN conjunct2, THEN conjunct2, THEN conjunct1, rule_format,
      OF conjI[OF runs col]]
  from cycle ok have len: "length (snd (runCycle demo_policy (demo_env 1030000) ?st1))
      = length [demo_trigger]" by blast
  have "rule ([demo_trigger] ! 0) = ''error_threshold''" by code_simp
  with cool have "inCooldown demo_policy (demo_env 1030000) ?st1 (rule ([demo_trigger] ! 0))"
    by simp
  moreover from len have "0 < length (snd (runCycle demo_policy (demo_env 1030000) ?st1))"
    by simp
  ultimately have first: "snd (runCycle demo_policy (demo_env 1030000) ?st1) ! 0
       = Suppressed (rule ([demo_trigger] ! 0))"
    using cycle by blast
  from history sep cool silent count runs col len first show ?thesis by (intro conjI)
qed

section \<open>Verification: ingest and producer ids\<close>

lemma setProperty_same: "map_of (setProperty props key v) key = Some v"
proof (cases "key \<in> fst ` set props")
  case False
  then have "map_of props key = None" by (simp add: map_of_eq_None_iff)
  with False show ?thesis by (simp add: setProperty_def map_add_def)
next
  case True
  have "key \<in> fst ` set ps \<Longrightarrow>
      map_of (map (\<lambda>(k, old). if k = key then (k, v) else (k, old)) ps) key = Some v" for ps
    by (induction ps) auto
  with True show ?thesis by (simp add: setProperty_def)
qed

lemma setProperty_other:
  "other \<noteq> key \<Longrightarrow> map_of (setProperty props key v) other = map_of props other"
proof (cases "key \<in> fst ` set props")
  case False
  assume "other \<noteq> key"
  with False show ?thesis by (simp add: setProperty_def map_add_def split: option.split)
next
  case True
  assume ne: "other \<noteq> key"
  have "map_of (map (\<lambda>(k, old). if k = key then (k, v) else (k, old)) ps) other = map_of ps other" for ps
    using ne by (induction ps) auto
  with True show ?thesis by (simp add: setProperty_def)
qed

lemma normalizeIngestRecord_fields:
  assumes "normalizeIngestRecord v producer receivedNow = Some r"
  shows "property r ''producerId'' = Some (JStr producer)"
    and "property r ''ingestedAt'' = Some (JStr receivedNow)"
proof -
  from assms obtain props where
    r: "r = JObj (setProperty (setProperty props ''producerId'' (JStr producer))
                        ''ingestedAt'' (JStr receivedNow))"
    by (cases v) (auto simp: normalizeIngestRecord_def)
  show "property r ''ingestedAt'' = Some (JStr receivedNow)"
    by (simp add: r property_def setProperty_same)
  have "''producerId'' \<noteq> ''ingestedAt''" by simp
  then show "property r ''producerId'' = Some (JStr producer)"
    by (simp add: r property_def setProperty_other setProperty_same)
qed

lemma normalizeAll_fields:
  "r \<in> set (fst (normalizeAll logs producer receivedNow)) \<Longrightarrow>
     property r ''producerId'' = Some (JStr producer)
     \<and> property r ''ingestedAt'' = Some (JStr receivedNow)"
proof (induction logs)
  case Nil
  then show ?case by simp
next
  case (Cons item logs)
  show ?case
  proof (cases "normalizeIngestRecord item producer receivedNow")
    case None
    with Cons show ?thesis by (simp add: split_beta)
  next
    case (Some n)
    with Cons.prems consider "r = n" | "r \<in> set (fst (normalizeAll logs producer receivedNow))"
      by (auto simp: split_beta)
    then show ?thesis
      using normalizeIngestRecord_fields[OF Some] Cons.IH by cases auto
  qed
qed

lemma normalizeAll_counts:
  "length (fst (normalizeAll logs producer receivedNow)) + snd (normalizeAll logs producer receivedNow)
     = length logs"
  by (induction logs) (auto simp: split_beta split: option.splits)

lemma setProperty_erased:
  assumes "map (\<lambda>(k, old). (k, if k = key then JNull else old)) pa
         = map (\<lambda>(k, old). (k, if k = key then JNull else old)) pb"
  shows "setProperty pa key v = setProperty pb key v"
proof -
  let ?f = "\<lambda>(k, old :: json). (k, if k = key then JNull else old)"
  let ?g = "\<lambda>(k, old :: json). if k = key then (k, v) else (k, old)"
  have gf: "?g (?f x) = ?g x" for x by (cases x) simp
  have "map fst (map ?f pa) = map fst pa" "map fst (map ?f pb) = map fst pb"
    by (simp_all add: comp_def split_beta)
  with assms have keys: "map fst pa = map fst pb" by simp
  then have in_keys: "key \<in> fst ` set pa \<longleftrightarrow> key \<in> fst ` set pb"
    by (metis list.set_map)
  have "map ?g pa = map ?g (map ?f pa)" by (simp add: comp_def gf)
  also have "\<dots> = map ?g (map ?f pb)" by (simp only: assms)
  also have "\<dots> = map ?g pb" by (simp add: comp_def gf)
  finally have mapped: "map ?g pa = map ?g pb" .
  show ?thesis
  proof (cases "key \<in> fst ` set pa")
    case True
    with in_keys mapped show ?thesis by (simp add: setProperty_def)
  next
    case False
    have id: "key \<notin> fst ` set ps \<Longrightarrow> map ?f ps = ps" for ps
      by (induction ps) auto
    from False in_keys have "map ?f pa = pa" "map ?f pb = pb" by (simp_all add: id)
    with assms have "pa = pb" by simp
    then show ?thesis by simp
  qed
qed

lemma normalizeIngestRecord_erased:
  assumes "eraseClaim a = eraseClaim b"
  shows "normalizeIngestRecord a producer receivedNow = normalizeIngestRecord b producer receivedNow"
proof (cases a)
  case (JObj pa)
  with assms obtain pb where b: "b = JObj pb"
    by (cases b) (simp_all add: eraseClaim_def)
  with JObj assms have "map (\<lambda>(k, old). (k, if k = ''producerId'' then JNull else old)) pa
         = map (\<lambda>(k, old). (k, if k = ''producerId'' then JNull else old)) pb"
    by (simp add: eraseClaim_def)
  from setProperty_erased[OF this] JObj b show ?thesis
    by (simp add: normalizeIngestRecord_def)
next
  case JNull
  with assms show ?thesis by (cases b) (simp_all add: eraseClaim_def normalizeIngestRecord_def)
next
  case (JBool x)
  with assms show ?thesis by (cases b) (simp_all add: eraseClaim_def normalizeIngestRecord_def)
next
  case (JNum x)
  with assms show ?thesis by (cases b) (simp_all add: eraseClaim_def normalizeIngestRecord_def)
next
  case (JStr x)
  with assms show ?thesis by (cases b) (simp_all add: eraseClaim_def normalizeIngestRecord_def)
next
  case (JArr x)
  with assms show ?thesis by (cases b) (simp_all add: eraseClaim_def normalizeIngestRecord_def)
qed

lemma normalizeAll_erased:
  "map eraseClaim logs1 = map eraseClaim logs2 \<Longrightarrow>
     normalizeAll logs1 producer receivedNow = normalizeAll logs2 producer receivedNow"
proof (induction logs1 arbitrary: logs2)
  case Nil
  then show ?case by simp
next
  case (Cons a logs1)
  then obtain b rest where l2: "logs2 = b # rest" and ab: "eraseClaim a = eraseClaim b"
    and r: "map eraseClaim logs1 = map eraseClaim rest" by (cases logs2) auto
  from Cons.IH[OF r] normalizeIngestRecord_erased[OF ab, of producer receivedNow] l2
  show ?case by simp
qed



lemma handleIngest_accepting:
  assumes "ingestAuthEnabled ctx \<or> basic_enabled (basicAuth ctx)"
    and "resolveIngestProducerId rt b64 (authorization q) (basicAuth ctx) (producerByToken ctx) = Some producer"
    and "producer \<noteq> []"
    and "readJsonBody rt (requestBody q) (maxBodyBytes ctx) = Inr payload"
    and "parseIngestPayload payload = Some logs"
  shows "handleIngest rt b64 ctx t q =
     (if fst (normalizeAll logs producer t) \<noteq> [] \<and> queueEnabled ctx then 202 else 200,
      IngestBody \<lparr>accepted = length (fst (normalizeAll logs producer t)),
                  queued = (fst (normalizeAll logs producer t) \<noteq> [] \<and> queueEnabled ctx),
                  response_producerId = producer, receivedAt = t,
                  rejected = snd (normalizeAll logs producer t)\<rparr>,
      if fst (normalizeAll logs producer t) \<noteq> []
      then Some \<lparr>producerId = producer, records = fst (normalizeAll logs producer t)\<rparr>
      else None)"
  using assms by (simp add: handleIngest_def split_beta Let_def)

lemma handleIngest_answered:
  assumes run: "handleIngest rt b64 ctx t q = (s, IngestBody b, bt)"
  shows "\<exists>producer payload logs.
     (ingestAuthEnabled ctx \<or> basic_enabled (basicAuth ctx))
     \<and> resolveIngestProducerId rt b64 (authorization q) (basicAuth ctx) (producerByToken ctx) = Some producer
     \<and> producer \<noteq> []
     \<and> readJsonBody rt (requestBody q) (maxBodyBytes ctx) = Inr payload
     \<and> parseIngestPayload payload = Some logs"
proof -
  let ?res = "resolveIngestProducerId rt b64 (authorization q) (basicAuth ctx) (producerByToken ctx)"
  from run have enabled: "ingestAuthEnabled ctx \<or> basic_enabled (basicAuth ctx)"
    by (auto simp: handleIngest_def split: if_splits)
  with run obtain producer where resolved: "?res = Some producer" and named: "producer \<noteq> []"
    by (cases ?res) (auto simp: handleIngest_def split: if_splits)
  with run enabled obtain payload where
    parsed: "readJsonBody rt (requestBody q) (maxBodyBytes ctx) = Inr payload"
    by (cases "readJsonBody rt (requestBody q) (maxBodyBytes ctx)")
       (auto simp: handleIngest_def split: body_error.splits)
  with run enabled resolved named obtain logs where
    logs: "parseIngestPayload payload = Some logs"
    by (cases "parseIngestPayload payload") (auto simp: handleIngest_def)
  from enabled resolved named parsed logs show ?thesis by blast
qed

lemma ingest_runtime_parse: "json_parse ingest_runtime = ingest_parse"
  by (simp add: ingest_runtime_def)

lemma example_bodies:
  "trim ingest_runtime (utf8_decode ingest_runtime spoofed_body) = spoofed_body"
  "trim ingest_runtime (utf8_decode ingest_runtime honest_body) = honest_body"
  "spoofed_body \<noteq> []" "honest_body \<noteq> []" "honest_body \<noteq> spoofed_body"
  "length spoofed_body \<le> 1048576" "length honest_body \<le> 1048576"
proof -
  show "trim ingest_runtime (utf8_decode ingest_runtime spoofed_body) = spoofed_body"
    "trim ingest_runtime (utf8_decode ingest_runtime honest_body) = honest_body"
    by code_simp+
qed (simp_all add: spoofed_body_def honest_body_def)

lemma example_spoofed_payload:
  "readJsonBody ingest_runtime (requestBody spoofed_request) (maxBodyBytes token_context)
     = Inr (JArr [JObj [(''producerId'', JStr ''spoofed''), (''level'', JStr ''INFO''),
                        (''event'', JStr ''x'')], JNum 7])"
  using example_bodies(6)
  by (simp add: readJsonBody_def spoofed_request_def token_context_def example_bodies(1,3)
        ingest_runtime_parse ingest_parse_def)

lemma example_honest_payload:
  "readJsonBody ingest_runtime (requestBody honest_request) (maxBodyBytes token_context)
     = Inr (JArr [JObj [(''producerId'', JStr ''frontend-web''), (''level'', JStr ''INFO''),
                        (''event'', JStr ''x'')], JNum 7])"
  using example_bodies(7)
  by (simp add: readJsonBody_def honest_request_def token_context_def example_bodies(2,4,5)
        ingest_runtime_parse ingest_parse_def)

lemma example_token_resolved:
  "resolveIngestProducerId ingest_runtime (\<lambda>encoded. []) (authorization spoofed_request)
     (basicAuth token_context) (producerByToken token_context) = Some ''frontend-web''"
proof -
  have "resolveIngestProducerId ingest_runtime (\<lambda>encoded. []) (Some ''Bearer tokenA'')
         \<lparr>basic_enabled = False, basic_password = None, basic_username = None\<rparr>
         [(''tokenA'', ''frontend-web'')] = Some ''frontend-web''"
    by code_simp
  then show ?thesis by (simp add: spoofed_request_def token_context_def)
qed

text \<open>
  Claim C3. Whenever the ingest branch answers with an ingest response, the
  \<^verbatim>\<open>producerId\<close> of the response is the producer id the server resolved for the request
  (the basic-auth user name or the id mapped to the bearer token), the batch that is
  written or queued is filed under that id, it holds as many records as the response
  counts as accepted, and every record of it carries that id in its \<^verbatim>\<open>producerId\<close>
  field, whatever the payload claimed. Two answered requests with the same
  \<^verbatim>\<open>Authorization\<close> header store the same \<^verbatim>\<open>producerId\<close> in all their records, and two
  requests whose payloads differ only in the values of claimed \<^verbatim>\<open>producerId\<close>
  properties get the same response and the same stored batch.
\<close>

theorem ingest_producer_not_forgeable:
  "(handleIngest rt b64 ctx receivedNow req = (status, IngestBody body, batch) \<longrightarrow>
      resolveIngestProducerId rt b64 (authorization req) (basicAuth ctx) (producerByToken ctx)
        = Some (response_producerId body)
      \<and> (\<forall>item. batch = Some item \<longrightarrow>
            producerId item = response_producerId body
            \<and> length (records item) = accepted body
            \<and> (\<forall>r \<in> set (records item).
                  property r ''producerId'' = Some (JStr (response_producerId body)))))
   \<and> (authorization req1 = authorization req2
      \<and> handleIngest rt b64 ctx now1 req1 = (status1, IngestBody body1, Some item1)
      \<and> handleIngest rt b64 ctx now2 req2 = (status2, IngestBody body2, Some item2) \<longrightarrow>
      response_producerId body1 = response_producerId body2
      \<and> (\<forall>r1 \<in> set (records item1). \<forall>r2 \<in> set (records item2).
            property r1 ''producerId'' = property r2 ''producerId''))
   \<and> (authorization req1 = authorization req2
      \<and> readJsonBody rt (requestBody req1) (maxBodyBytes ctx) = Inr payload1
      \<and> readJsonBody rt (requestBody req2) (maxBodyBytes ctx) = Inr payload2
      \<and> parseIngestPayload payload1 = Some logs1
      \<and> parseIngestPayload payload2 = Some logs2
      \<and> map eraseClaim logs1 = map eraseClaim logs2 \<longrightarrow>
      handleIngest rt b64 ctx receivedNow req1 = handleIngest rt b64 ctx receivedNow req2)"
proof -
  have stored: "resolveIngestProducerId rt b64 (authorization q) (basicAuth ctx) (producerByToken ctx)
        = Some (response_producerId b)
      \<and> (\<forall>item. bt = Some item \<longrightarrow>
            producerId item = response_producerId b
            \<and> length (records item) = accepted b
            \<and> (\<forall>r \<in> set (records item).
                  property r ''producerId'' = Some (JStr (response_producerId b))))"
    if run: "handleIngest rt b64 ctx t q = (s, IngestBody b, bt)" for q t s b bt
  proof -
    from handleIngest_answered[OF run] obtain producer payload logs where
      enabled: "ingestAuthEnabled ctx \<or> basic_enabled (basicAuth ctx)"
      and resolved: "resolveIngestProducerId rt b64 (authorization q) (basicAuth ctx) (producerByToken ctx)
                       = Some producer"
      and named: "producer \<noteq> []"
      and parsed: "readJsonBody rt (requestBody q) (maxBodyBytes ctx) = Inr payload"
      and logs: "parseIngestPayload payload = Some logs"
      by blast
    define acc where "acc = fst (normalizeAll logs producer t)"
    from run[unfolded handleIngest_accepting[OF enabled resolved named parsed logs, of t], symmetric]
    have b: "response_producerId b = producer" "accepted b = length acc"
      and bt: "bt = (if acc \<noteq> [] then Some \<lparr>producerId = producer, records = acc\<rparr> else None)"
      by (simp_all add: acc_def)
    have fields: "\<forall>r \<in> set acc. property r ''producerId'' = Some (JStr producer)"
      using normalizeAll_fields[of _ logs producer t] by (simp add: acc_def)
    show ?thesis
    proof (intro conjI allI impI)
      show "resolveIngestProducerId rt b64 (authorization q) (basicAuth ctx) (producerByToken ctx)
              = Some (response_producerId b)"
        by (simp add: resolved b)
    next
      fix item assume "bt = Some item"
      with bt have item: "item = \<lparr>producerId = producer, records = acc\<rparr>"
        by (simp split: if_splits)
      show "producerId item = response_producerId b" by (simp add: item b)
      show "length (records item) = accepted b" by (simp add: item b)
      show "\<forall>r \<in> set (records item).
                  property r ''producerId'' = Some (JStr (response_producerId b))"
        using fields by (simp add: item b)
    qed
  qed
  have same: "handleIngest rt b64 ctx receivedNow req1 = handleIngest rt b64 ctx receivedNow req2"
    if auth: "authorization req1 = authorization req2"
      and p1: "readJsonBody rt (requestBody req1) (maxBodyBytes ctx) = Inr payload1"
      and p2: "readJsonBody rt (requestBody req2) (maxBodyBytes ctx) = Inr payload2"
      and l1: "parseIngestPayload payload1 = Some logs1"
      and l2: "parseIngestPayload payload2 = Some logs2"
      and erased: "map eraseClaim logs1 = map eraseClaim logs2"
  proof -
    have n: "normalizeAll logs1 producer receivedNow = normalizeAll logs2 producer receivedNow"
      for producer using erased by (rule normalizeAll_erased)
    let ?res = "resolveIngestProducerId rt b64 (authorization req2) (basicAuth ctx) (producerByToken ctx)"
    show ?thesis
    proof (cases "(ingestAuthEnabled ctx \<or> basic_enabled (basicAuth ctx))
                   \<and> (\<exists>producer. ?res = Some producer \<and> producer \<noteq> [])")
      case True
      then obtain producer where enabled: "ingestAuthEnabled ctx \<or> basic_enabled (basicAuth ctx)"
        and r2: "?res = Some producer" and named: "producer \<noteq> []" by blast
      from r2 auth have r1: "resolveIngestProducerId rt b64 (authorization req1) (basicAuth ctx)
          (producerByToken ctx) = Some producer" by simp
      show ?thesis
        by (simp only: handleIngest_accepting[OF enabled r1 named p1 l1]
              handleIngest_accepting[OF enabled r2 named p2 l2] n)
    next
      case False
      then show ?thesis
        by (cases ?res) (auto simp: handleIngest_def auth)
    qed
  qed
  show ?thesis
  proof (intro conjI impI)
    assume "handleIngest rt b64 ctx receivedNow req = (status, IngestBody body, batch)"
    from stored[OF this]
    show "resolveIngestProducerId rt b64 (authorization req) (basicAuth ctx) (producerByToken ctx)
        = Some (response_producerId body)"
      and "\<forall>item. batch = Some item \<longrightarrow>
            producerId item = response_producerId body
            \<and> length (records item) = accepted body
            \<and> (\<forall>r \<in> set (records item).
                  property r ''producerId'' = Some (JStr (response_producerId body)))"
      by blast+
  next
    assume a: "authorization req1 = authorization req2
      \<and> handleIngest rt b64 ctx now1 req1 = (status1, IngestBody body1, Some item1)
      \<and> handleIngest rt b64 ctx now2 req2 = (status2, IngestBody body2, Some item2)"
    then have r1: "handleIngest rt b64 ctx now1 req1 = (status1, IngestBody body1, Some item1)"
      and r2: "handleIngest rt b64 ctx now2 req2 = (status2, IngestBody body2, Some item2)"
      and auth: "authorization req1 = authorization req2"
      by simp_all
    from stored[OF r1] have s1: "resolveIngestProducerId rt b64 (authorization req1) (basicAuth ctx)
          (producerByToken ctx) = Some (response_producerId body1)"
      and f1: "\<forall>r \<in> set (records item1). property r ''producerId'' = Some (JStr (response_producerId body1))"
      by blast+
    from stored[OF r2] have s2: "resolveIngestProducerId rt b64 (authorization req2) (basicAuth ctx)
          (producerByToken ctx) = Some (response_producerId body2)"
      and f2: "\<forall>r \<in> set (records item2). property r ''producerId'' = Some (JStr (response_producerId body2))"
      by blast+
    from s1 s2 auth show eq: "response_producerId body1 = response_producerId body2" by simp
    from f1 f2 eq show "\<forall>r1 \<in> set (records item1). \<forall>r2 \<in> set (records item2).
            property r1 ''producerId'' = property r2 ''producerId''"
      by simp
  next
    assume "authorization req1 = authorization req2
      \<and> readJsonBody rt (requestBody req1) (maxBodyBytes ctx) = Inr payload1
      \<and> readJsonBody rt (requestBody req2) (maxBodyBytes ctx) = Inr payload2
      \<and> parseIngestPayload payload1 = Some logs1
      \<and> parseIngestPayload payload2 = Some logs2
      \<and> map eraseClaim logs1 = map eraseClaim logs2"
    then show "handleIngest rt b64 ctx receivedNow req1 = handleIngest rt b64 ctx receivedNow req2"
      using same by blast
  qed
qed




theorem ingest_producer_not_forgeable_witness:
  "handleIngest ingest_runtime (\<lambda>encoded. []) token_context ''2024-05-01T10:00:00.000Z'' spoofed_request
     = (200,
        IngestBody \<lparr>accepted = 1, queued = False, response_producerId = ''frontend-web'',
                    receivedAt = ''2024-05-01T10:00:00.000Z'', rejected = 1\<rparr>,
        Some \<lparr>producerId = ''frontend-web'',
              records = [JObj [(''producerId'', JStr ''frontend-web''), (''level'', JStr ''INFO''),
                               (''event'', JStr ''x''),
                               (''ingestedAt'', JStr ''2024-05-01T10:00:00.000Z'')]]\<rparr>)
   \<and> resolveIngestProducerId ingest_runtime (\<lambda>encoded. []) (authorization spoofed_request)
         (basicAuth token_context) (producerByToken token_context) = Some ''frontend-web''
   \<and> property (JObj [(''producerId'', JStr ''frontend-web''), (''level'', JStr ''INFO''),
                      (''event'', JStr ''x''),
                      (''ingestedAt'', JStr ''2024-05-01T10:00:00.000Z'')]) ''producerId''
       = Some (JStr ''frontend-web'')
   \<and> handleIngest ingest_runtime (\<lambda>encoded. []) token_context ''2024-05-01T10:00:00.000Z'' spoofed_request
     = handleIngest ingest_runtime (\<lambda>encoded. []) token_context ''2024-05-01T10:00:00.000Z'' honest_request"
proof -
  let ?t = "''2024-05-01T10:00:00.000Z''"
  let ?stored = "JObj [(''producerId'', JStr ''frontend-web''), (''level'', JStr ''INFO''),
                       (''event'', JStr ''x''), (''ingestedAt'', JStr ?t)]"
  let ?body = "\<lparr>accepted = 1, queued = False, response_producerId = ''frontend-web'',
                receivedAt = ?t, rejected = 1\<rparr>"
  let ?item = "\<lparr>producerId = ''frontend-web'', records = [?stored]\<rparr>"
  let ?spoofed = "JArr [JObj [(''producerId'', JStr ''spoofed''), (''level'', JStr ''INFO''),
                              (''event'', JStr ''x'')], JNum 7]"
  let ?honest = "JArr [JObj [(''producerId'', JStr ''frontend-web''), (''level'', JStr ''INFO''),
                             (''event'', JStr ''x'')], JNum 7]"
  note main = ingest_producer_not_forgeable[where rt = ingest_runtime and ?b64.0 = "\<lambda>encoded. []"
      and ctx = token_context and receivedNow = ?t and req = spoofed_request and status = 200
      and body = ?body and batch = "Some ?item"
      and ?req1.0 = spoofed_request and ?req2.0 = honest_request and ?now1.0 = ?t and ?now2.0 = ?t
      and ?status1.0 = 200 and ?status2.0 = 200 and ?body1.0 = ?body and ?body2.0 = ?body
      and ?item1.0 = ?item and ?item2.0 = ?item
      and ?payload1.0 = ?spoofed and ?payload2.0 = ?honest
      and ?logs1.0 = "[JObj [(''producerId'', JStr ''spoofed''), (''level'', JStr ''INFO''),
                              (''event'', JStr ''x'')], JNum 7]"
      and ?logs2.0 = "[JObj [(''producerId'', JStr ''frontend-web''), (''level'', JStr ''INFO''),
                             (''event'', JStr ''x'')], JNum 7]"]
  have enabled: "ingestAuthEnabled token_context \<or> basic_enabled (basicAuth token_context)"
    by (simp add: token_context_def)
  have queue: "\<not> queueEnabled token_context"
    by (simp add: token_context_def)
  have auth: "authorization spoofed_request = authorization honest_request"
    by (simp add: spoofed_request_def honest_request_def)
  have p1: "readJsonBody ingest_runtime (requestBody spoofed_request) (maxBodyBytes token_context)
              = Inr ?spoofed"
    by (rule example_spoofed_payload)
  have p2: "readJsonBody ingest_runtime (requestBody honest_request) (maxBodyBytes token_context)
              = Inr ?honest"
    by (rule example_honest_payload)
  have l1: "parseIngestPayload ?spoofed = Some [JObj [(''producerId'', JStr ''spoofed''), (''level'', JStr ''INFO''),
                              (''event'', JStr ''x'')], JNum 7]"
    by (simp add: parseIngestPayload_def)
  have l2: "parseIngestPayload ?honest = Some [JObj [(''producerId'', JStr ''frontend-web''), (''level'', JStr ''INFO''),
                             (''event'', JStr ''x'')], JNum 7]"
    by (simp add: parseIngestPayload_def)
  have erased: "map eraseClaim [JObj [(''producerId'', JStr ''spoofed''), (''level'', JStr ''INFO''),
                              (''event'', JStr ''x'')], JNum 7]
       = map eraseClaim [JObj [(''producerId'', JStr ''frontend-web''), (''level'', JStr ''INFO''),
                             (''event'', JStr ''x'')], JNum 7]"
    by (simp add: eraseClaim_def)
  have r1: "resolveIngestProducerId ingest_runtime (\<lambda>encoded. []) (authorization spoofed_request)
         (basicAuth token_context) (producerByToken token_context) = Some ''frontend-web''"
    by (rule example_token_resolved)
  have r2: "resolveIngestProducerId ingest_runtime (\<lambda>encoded. []) (authorization honest_request)
         (basicAuth token_context) (producerByToken token_context) = Some ''frontend-web''"
    using r1 auth by simp
  have run1: "handleIngest ingest_runtime (\<lambda>encoded. []) token_context ?t spoofed_request
                = (200, IngestBody ?body, Some ?item)"
    using queue
    by (simp add: handleIngest_accepting[OF enabled r1 _ p1 l1] normalizeIngestRecord_def setProperty_def)
  have run2: "handleIngest ingest_runtime (\<lambda>encoded. []) token_context ?t honest_request
                = (200, IngestBody ?body, Some ?item)"
    using queue
    by (simp add: handleIngest_accepting[OF enabled r2 _ p2 l2] normalizeIngestRecord_def setProperty_def)
  from main[THEN conjunct1, rule_format, OF run1]
  have resolved: "resolveIngestProducerId ingest_runtime (\<lambda>encoded. []) (authorization spoofed_request)
         (basicAuth token_context) (producerByToken token_context) = Some ''frontend-web''"
    and fields: "property ?stored ''producerId'' = Some (JStr ''frontend-web'')"
    by simp_all
  from main[THEN conjunct2, THEN conjunct1, rule_format, OF conjI[OF auth conjI[OF run1 run2]]]
  have "response_producerId ?body = response_producerId ?body" by simp
  from main[THEN conjunct2, THEN conjunct2, rule_format,
      OF conjI[OF auth conjI[OF p1 conjI[OF p2 conjI[OF l1 conjI[OF l2 erased]]]]]]
  have same: "handleIngest ingest_runtime (\<lambda>encoded. []) token_context ?t spoofed_request
     = handleIngest ingest_runtime (\<lambda>encoded. []) token_context ?t honest_request" .
  from run1 resolved fields same show ?thesis by simp
qed

lemma isAlphaNum_plain: "isAlphaNum c \<Longrightarrow> c \<noteq> CHR ''/'' \<and> c \<noteq> CHR ''.''"
  by (auto simp: isAlphaNum_def less_eq_char_def)

lemma PRODUCER_ID_PATTERN_segment:
  assumes "PRODUCER_ID_PATTERN s"
  shows "CHR ''/'' \<notin> set s" and "\<not> special_segment s" and "hd s \<noteq> CHR ''.''"
proof -
  from assms obtain c cs where s: "s = c # cs" and c: "isAlphaNum c"
    and cs: "list_all (\<lambda>x. isAlphaNum x \<or> x = CHR ''.'' \<or> x = CHR ''_'' \<or> x = CHR ''-'') cs"
    by (cases s) (simp_all add: PRODUCER_ID_PATTERN_def)
  from cs have "CHR ''/'' \<notin> set cs"
    using isAlphaNum_plain by (auto simp: list_all_iff)
  with c s show "CHR ''/'' \<notin> set s" using isAlphaNum_plain by auto
  from c s show "hd s \<noteq> CHR ''.''" using isAlphaNum_plain by auto
  then show "\<not> special_segment s" using s by (auto simp: special_segment_def)
qed

lemma addMappings_valid:
  "addMappings rt items mappings = Inr result \<Longrightarrow>
   list_all (\<lambda>(token, producer). PRODUCER_ID_PATTERN producer) mappings \<Longrightarrow>
   distinct (map fst mappings) \<Longrightarrow>
   list_all (\<lambda>(token, producer). PRODUCER_ID_PATTERN producer) result \<and> distinct (map fst result)"
proof (induction items arbitrary: mappings)
  case Nil
  then show ?case by simp
next
  case (Cons entry rest)
  from Cons.prems(1) obtain i where i: "indexOf CHR ''='' entry = Some i"
    by (cases "indexOf CHR ''='' entry") simp_all
  define token where "token = trim rt (take i entry)"
  define producer where "producer = trim rt (drop (i + 1) entry)"
  from Cons.prems(1) i have ok: "PRODUCER_ID_PATTERN producer" "map_of mappings token = None"
    and rest: "addMappings rt rest (mappings @ [(token, producer)]) = Inr result"
    by (simp_all add: Let_def token_def producer_def split: if_splits)
  from ok(2) have "token \<notin> fst ` set mappings" by (simp add: map_of_eq_None_iff)
  with Cons.prems(3) have d: "distinct (map fst (mappings @ [(token, producer)]))" by simp
  from Cons.prems(2) ok(1)
  have v: "list_all (\<lambda>(token, producer). PRODUCER_ID_PATTERN producer) (mappings @ [(token, producer)])"
    by simp
  from Cons.IH[OF rest v d] show ?case .
qed

lemma parseIngestProducerMappings_valid:
  assumes "parseIngestProducerMappings rt v = Inr mappings"
  shows "list_all (\<lambda>(token, producer). PRODUCER_ID_PATTERN producer) mappings"
    and "distinct (map fst mappings)"
proof -
  have "list_all (\<lambda>(token, producer). PRODUCER_ID_PATTERN producer) mappings
        \<and> distinct (map fst mappings)"
  proof (cases v)
    case None
    with assms show ?thesis by (simp add: parseIngestProducerMappings_def)
  next
    case (Some s)
    show ?thesis
    proof (cases "trim rt s = []")
      case True
      with Some assms show ?thesis by (simp add: parseIngestProducerMappings_def)
    next
      case False
      with Some assms have "addMappings rt (filter (\<lambda>entry. length entry > 0)
          (map (trim rt) (split_str CHR '','' s))) [] = Inr mappings"
        by (simp add: parseIngestProducerMappings_def)
      from addMappings_valid[OF this] show ?thesis by simp
    qed
  qed
  then show "list_all (\<lambda>(token, producer). PRODUCER_ID_PATTERN producer) mappings"
    and "distinct (map fst mappings)" by simp_all
qed

lemma token_producer_valid:
  assumes valid: "list_all (\<lambda>(token, producer). PRODUCER_ID_PATTERN producer) mappings"
    and basic: "getAuthenticatedBasicUsername rt b64 header policy = None"
    and resolved: "resolveIngestProducerId rt b64 header policy mappings = Some producer"
  shows "PRODUCER_ID_PATTERN producer"
proof -
  from resolved basic obtain token where "map_of mappings token = Some producer"
    by (auto simp: resolveIngestProducerId_def split: option.splits)
  then have "(token, producer) \<in> set mappings" by (rule map_of_SomeD)
  with valid show ?thesis by (auto simp: list_all_iff)
qed

lemma splitOn_append:
  "c \<notin> set seg \<Longrightarrow> splitOn c (seg @ rest) cur = splitOn c rest (rev seg @ cur)"
  by (induction seg arbitrary: cur) auto

lemma split_str_plain: "c \<notin> set s \<Longrightarrow> split_str c s = [s]"
  using splitOn_append[of c s "[]" "[]"] by (simp add: split_str_def)

lemma splitOn_free:
  "c \<notin> set cur \<Longrightarrow> seg \<in> set (splitOn c s cur) \<Longrightarrow> c \<notin> set seg"
proof (induction s arbitrary: cur)
  case Nil
  then show ?case by simp
next
  case (Cons x s)
  show ?case
  proof (cases "x = c")
    case True
    with Cons.prems consider "seg = rev cur" | "seg \<in> set (splitOn c s [])" by auto
    then show ?thesis
      using Cons.prems(1) Cons.IH[of "[]"] by cases auto
  next
    case False
    with Cons.prems Cons.IH[of "x # cur"] show ?thesis by auto
  qed
qed

lemma split_str_free: "seg \<in> set (split_str c s) \<Longrightarrow> c \<notin> set seg"
  using splitOn_free[of c "[]" seg s] by (simp add: split_str_def)

lemma splitOn_joined:
  "\<forall>seg \<in> set segs. c \<notin> set seg \<Longrightarrow>
     splitOn c (concat (map (\<lambda>s. c # s) segs)) cur = rev cur # segs"
proof (induction segs arbitrary: cur)
  case Nil
  then show ?case by simp
next
  case (Cons seg segs)
  then have "c \<notin> set seg" and rest: "\<forall>seg \<in> set segs. c \<notin> set seg" by simp_all
  from splitOn_append[OF this(1)] Cons.IH[OF rest] show ?case by simp
qed

lemma normalizeSegments_append:
  "normalizeSegments (xs @ ys) acc = normalizeSegments ys (rev (normalizeSegments xs acc))"
  by (induction xs arbitrary: acc) simp_all

lemma normalizeSegments_plain:
  "\<forall>s \<in> set xs. \<not> special_segment s \<Longrightarrow> normalizeSegments xs acc = rev acc @ xs"
  by (induction xs arbitrary: acc) (simp_all add: special_segment_def)

lemma normalizeSegments_kept:
  "s \<in> set (normalizeSegments xs acc) \<Longrightarrow> s \<in> set acc \<or> (s \<in> set xs \<and> \<not> special_segment s)"
proof (induction xs arbitrary: acc)
  case Nil
  then show ?case by simp
next
  case (Cons x xs)
  show ?case
  proof (cases "x = [] \<or> x = ''.''")
    case True
    with Cons.prems Cons.IH[of acc] show ?thesis by auto
  next
    case False
    show ?thesis
    proof (cases "x = ''..''")
      case True
      with False Cons.prems Cons.IH[of "case acc of [] \<Rightarrow> [] | _ # up \<Rightarrow> up"]
      show ?thesis by (cases acc) auto
    next
      case notup: False
      with False Cons.prems Cons.IH[of "x # acc"] show ?thesis
        by (auto simp: special_segment_def)
    qed
  qed
qed

lemma ingestTargetFile_inside:
  assumes pid: "PRODUCER_ID_PATTERN producer" and day: "CHR ''/'' \<notin> set dayLabel"
  shows "ingestTargetFile resolvedLogsPath producer dayLabel
       = joinPath [resolvedLogsPath, ''ingest''] @ ''/'' @ producer @ ''/'' @ dayLabel @ ''.ndjson''"
proof -
  define R where "R = normalizeSegments (split_str CHR ''/'' resolvedLogsPath) []"
  define dayFile where "dayFile = dayLabel @ ''.ndjson''"
  note seg = PRODUCER_ID_PATTERN_segment[OF pid]
  have R_plain: "\<not> special_segment s" and R_free: "CHR ''/'' \<notin> set s" if "s \<in> set R" for s
    using normalizeSegments_kept[of s "split_str CHR ''/'' resolvedLogsPath" "[]"] that
      split_str_free[of s "CHR ''/''" resolvedLogsPath]
    by (auto simp: R_def)
  have ingest: "split_str CHR ''/'' ''ingest'' = [''ingest'']" "\<not> special_segment ''ingest''"
    by (simp_all add: split_str_plain special_segment_def)
  have dayFile: "split_str CHR ''/'' dayFile = [dayFile]" "\<not> special_segment dayFile"
    using day by (auto simp: split_str_plain special_segment_def dayFile_def)
  have root: "joinPath [resolvedLogsPath, ''ingest''] = concat (map (\<lambda>s. ''/'' @ s) (R @ [''ingest'']))"
    using ingest
    by (simp add: joinPath_def normalizeSegments_append[of "split_str CHR ''/'' resolvedLogsPath"]
          R_def[symmetric] normalizeSegments_plain)
  have dir: "joinPath [resolvedLogsPath, ''ingest'', producer]
           = concat (map (\<lambda>s. CHR ''/'' # s) (R @ [''ingest'', producer]))"
    using ingest seg(1) seg(2)[unfolded special_segment_def]
    by (simp add: joinPath_def normalizeSegments_append[of "split_str CHR ''/'' resolvedLogsPath"]
          R_def[symmetric] split_str_plain)
  have free: "\<forall>s \<in> set (R @ [''ingest'', producer]). CHR ''/'' \<notin> set s"
    using R_free seg(1) by auto
  have split_dir: "split_str CHR ''/'' (joinPath [resolvedLogsPath, ''ingest'', producer])
                 = [] # R @ [''ingest'', producer]"
    unfolding dir split_str_def using splitOn_joined[OF free, of "[]"] by simp
  have all_plain: "\<forall>s \<in> set (R @ [''ingest'', producer, dayFile]). \<not> special_segment s"
    using R_plain seg(2) ingest(2) dayFile(2) by auto
  have "ingestTargetFile resolvedLogsPath producer dayLabel
      = concat (map (\<lambda>s. ''/'' @ s) (normalizeSegments ([] # R @ [''ingest'', producer, dayFile]) []))"
    by (simp add: ingestTargetFile_def joinPath_def[of "[_, _]"] split_dir dayFile
          dayFile_def[symmetric])
  also have "normalizeSegments ([] # R @ [''ingest'', producer, dayFile]) []
           = R @ [''ingest'', producer, dayFile]"
    using normalizeSegments_plain[OF all_plain, of "[]"] by simp
  finally show ?thesis by (simp add: root dayFile_def)
qed

text \<open>
  Claim C10. The producer ids of the token mappings are validated when the configuration
  is parsed (\<open>parseIngestProducerMappings_valid\<close>), an id resolved through a token
  therefore matches the pattern (\<open>token_producer_valid\<close>), and the file written for such
  an id lies in its own directory under \<^verbatim>\<open>ingest\<close> (\<open>ingestTargetFile_inside\<close>). The
  basic-auth user name is used as the producer id without that validation: on a server
  configured with the user name \<^verbatim>\<open>..\<close>, a request with that user's credentials is
  authenticated as producer \<^verbatim>\<open>..\<close>, which does not match the pattern, its batch is
  accepted with status 200, and the file that batch is appended to is
  \<^verbatim>\<open>/srv/logs/2024-05-01.ndjson\<close>, outside \<^verbatim>\<open>/srv/logs/ingest\<close>.
\<close>

theorem basic_username_escapes_ingest_directory:
  "resolveIngestProducerId ingest_runtime example_b64 (authorization dotdot_request) (basicAuth dotdot_context)
     (producerByToken dotdot_context) = Some ''..''
   \<and> \<not> PRODUCER_ID_PATTERN ''..''
   \<and> handleIngest ingest_runtime example_b64 dotdot_context ''2024-05-01T10:00:00.000Z''
         dotdot_request
       = (200,
          IngestBody \<lparr>accepted = 1, queued = False, response_producerId = ''..'',
                      receivedAt = ''2024-05-01T10:00:00.000Z'', rejected = 1\<rparr>,
          Some \<lparr>producerId = ''..'',
                records = [JObj [(''producerId'', JStr ''..''), (''level'', JStr ''INFO''),
                                 (''event'', JStr ''x''),
                                 (''ingestedAt'', JStr ''2024-05-01T10:00:00.000Z'')]]\<rparr>)
   \<and> ingestTargetFile ''/srv/logs'' ''..'' ''2024-05-01'' = ''/srv/logs/2024-05-01.ndjson''"
proof -
  have resolved: "resolveIngestProducerId ingest_runtime example_b64 (authorization dotdot_request)
      (basicAuth dotdot_context) (producerByToken dotdot_context) = Some ''..''"
  proof -
    have "resolveIngestProducerId ingest_runtime example_b64 (Some ''Basic Li46cHc='') dotdot_policy [] = Some ''..''"
      by code_simp
    then show ?thesis by (simp add: dotdot_request_def dotdot_context_def)
  qed
  have pattern: "\<not> PRODUCER_ID_PATTERN ''..''"
    by code_simp
  have enabled: "ingestAuthEnabled dotdot_context \<or> basic_enabled (basicAuth dotdot_context)"
    by (simp add: dotdot_context_def dotdot_policy_def)
  have queue: "\<not> queueEnabled dotdot_context"
    by (simp add: dotdot_context_def)
  have payload: "readJsonBody ingest_runtime (requestBody dotdot_request) (maxBodyBytes dotdot_context)
     = Inr (JArr [JObj [(''producerId'', JStr ''frontend-web''), (''level'', JStr ''INFO''),
                        (''event'', JStr ''x'')], JNum 7])"
    using example_bodies(7)
    by (simp add: readJsonBody_def dotdot_request_def dotdot_context_def example_bodies(2,4,5)
          ingest_runtime_parse ingest_parse_def)
  have logs: "parseIngestPayload (JArr [JObj [(''producerId'', JStr ''frontend-web''),
        (''level'', JStr ''INFO''), (''event'', JStr ''x'')], JNum 7])
     = Some [JObj [(''producerId'', JStr ''frontend-web''), (''level'', JStr ''INFO''),
                   (''event'', JStr ''x'')], JNum 7]"
    by (simp add: parseIngestPayload_def)
  have run: "handleIngest ingest_runtime example_b64 dotdot_context ''2024-05-01T10:00:00.000Z''
         dotdot_request
       = (200,
          IngestBody \<lparr>accepted = 1, queued = False, response_producerId = ''..'',
                      receivedAt = ''2024-05-01T10:00:00.000Z'', rejected = 1\<rparr>,
          Some \<lparr>producerId = ''..'',
                records = [JObj [(''producerId'', JStr ''..''), (''level'', JStr ''INFO''),
                                 (''event'', JStr ''x''),
                                 (''ingestedAt'', JStr ''2024-05-01T10:00:00.000Z'')]]\<rparr>)"
    using queue
    by (simp add: handleIngest_accepting[OF enabled resolved _ payload logs]
          normalizeIngestRecord_def setProperty_def)
  have target: "ingestTargetFile ''/srv/logs'' ''..'' ''2024-05-01'' = ''/srv/logs/2024-05-01.ndjson''"
    by code_simp
  from resolved pattern run target show ?thesis by (intro conjI)
qed

lemma dotdot_policy_created:
  "createBasicAuthPolicy ingest_runtime (Some ''..'') (Some ''pw'') = Inr dotdot_policy"
  by code_simp

end
